(* ===== verification/Prelude.thy ===== *)
theory Prelude
  imports Main "HOL-Library.Word" "HOL-Library.Char_ord" "HOL-Library.List_Lexorder"
    "HOL-Library.Product_Lexorder"
begin

text \<open>
  What the components share: the named fact collections, the carrier types for identifiers that
  come from third-party code, results with errors (Rust's \<open>Result\<close>), and ordered maps.

  Strings are lists of bytes: a Rust \<open>str\<close> is its UTF-8 encoding and \<open>char\<close> has 8 bits here,
  so \<open>length\<close> is Rust's \<open>len()\<close> and the list order is Rust's (and SQLite's) byte order.
\<close>

named_theorems om_simps \<open>laws of ordered maps\<close>
named_theorems db_simps \<open>frame and lookup facts of the stores\<close>

section \<open>Carrier types\<close>

text \<open>
  libp2p's \<open>PeerId\<close>, \<open>Keypair\<close> and \<open>PublicKey\<close> are opaque to the program: it compares peer ids,
  uses them as map keys, and passes the rest to functions that are parameters of the model.
\<close>

datatype peer_id = PeerId (peer_no: nat)

datatype keypair = Keypair nat

datatype pubkey = PubKey nat

type_synonym bytes = "8 word list"
type_synonym u64 = "64 word"

instantiation peer_id :: linorder
begin
definition less_eq_peer_id :: "peer_id \<Rightarrow> peer_id \<Rightarrow> bool" where
  "less_eq_peer_id p q \<longleftrightarrow> peer_no p \<le> peer_no q"
definition less_peer_id :: "peer_id \<Rightarrow> peer_id \<Rightarrow> bool" where
  "less_peer_id p q \<longleftrightarrow> peer_no p < peer_no q"
instance
  by standard (auto simp: less_eq_peer_id_def less_peer_id_def intro: peer_id.expand)
end

section \<open>Results\<close>

text \<open>\<open>Inl\<close> is Rust's \<open>Err\<close>, \<open>Inr\<close> its \<open>Ok\<close>; \<open>bindE\<close> is the \<open>?\<close> operator.\<close>

definition bindE :: "'e + 'a \<Rightarrow> ('a \<Rightarrow> 'e + 'b) \<Rightarrow> 'e + 'b" where
  "bindE r f = (case r of Inl e \<Rightarrow> Inl e | Inr x \<Rightarrow> f x)"

definition ok_or :: "'a option \<Rightarrow> 'e \<Rightarrow> 'e + 'a" where
  "ok_or o' e = (case o' of None \<Rightarrow> Inl e | Some x \<Rightarrow> Inr x)"

definition guardE :: "bool \<Rightarrow> 'e \<Rightarrow> 'e + unit" where
  "guardE b e = (if b then Inr () else Inl e)"

lemma bindE_simps [simp]:
  "bindE (Inl e) f = Inl e"
  "bindE (Inr x) f = f x"
  by (simp_all add: bindE_def)

lemma bindE_Inr_iff: "bindE r f = Inr y \<longleftrightarrow> (\<exists>x. r = Inr x \<and> f x = Inr y)"
  by (cases r) auto

lemma bindE_Inl_iff: "bindE r f = Inl e \<longleftrightarrow> r = Inl e \<or> (\<exists>x. r = Inr x \<and> f x = Inl e)"
  by (cases r) auto

lemma ok_or_simps [simp]:
  "ok_or None e = Inl e"
  "ok_or (Some x) e = Inr x"
  by (simp_all add: ok_or_def)

lemma ok_or_Inr_iff [simp]: "ok_or v e = Inr x \<longleftrightarrow> v = Some x"
  by (cases v) auto

lemma guardE_Inr_iff [simp]: "guardE b e = Inr u \<longleftrightarrow> b"
  by (simp add: guardE_def)

lemma guardE_simps [simp]:
  "guardE True e = Inr ()"
  "guardE False e = Inl e"
  by (simp_all add: guardE_def)

section \<open>Ordered maps\<close>

text \<open>
  Rust's \<open>BTreeMap\<close> and the primary-key tables of the database are association lists sorted by
  key: iteration (and \<open>ORDER BY\<close> the key) is the list itself. \<open>HashMap\<close> uses the same
  representation; the code never depends on its iteration order where the model uses one.
  \<open>map_of\<close> is the lookup.
\<close>

type_synonym ('k, 'v) omap = "('k \<times> 'v) list"

fun om_put :: "'k::linorder \<Rightarrow> 'v \<Rightarrow> ('k, 'v) omap \<Rightarrow> ('k, 'v) omap" where
  "om_put k v [] = [(k, v)]"
| "om_put k v ((a, b) # m) =
     (if k < a then (k, v) # (a, b) # m
      else if k = a then (k, v) # m
      else (a, b) # om_put k v m)"

definition om_del :: "'k \<Rightarrow> ('k, 'v) omap \<Rightarrow> ('k, 'v) omap" where
  "om_del k m = filter (\<lambda>e. fst e \<noteq> k) m"

definition om_has :: "('k, 'v) omap \<Rightarrow> 'k \<Rightarrow> bool" where
  "om_has m k \<longleftrightarrow> map_of m k \<noteq> None"

definition om_inv :: "('k::linorder, 'v) omap \<Rightarrow> bool" where
  "om_inv m \<longleftrightarrow> sorted_wrt (<) (map fst m)"

lemma om_inv_Nil [simp]: "om_inv []"
  by (simp add: om_inv_def)

lemma om_inv_Cons: "om_inv (e # m) \<longleftrightarrow> (\<forall>x \<in> set m. fst e < fst x) \<and> om_inv m"
  by (auto simp: om_inv_def)

lemma set_om_put_subset: "set (om_put k v m) \<subseteq> insert (k, v) (set m)"
  by (induction k v m rule: om_put.induct) auto

lemma om_inv_put [intro, simp]: "om_inv m \<Longrightarrow> om_inv (om_put k v m)"
proof (induction k v m rule: om_put.induct)
  case (2 k v a b m)
  then show ?case
    using set_om_put_subset [of k v m] by (fastforce simp: om_inv_Cons)
qed (simp add: om_inv_Cons)

lemma om_inv_filter [intro, simp]: "om_inv m \<Longrightarrow> om_inv (filter P m)"
  by (induction m) (auto simp: om_inv_Cons)

lemma om_inv_del [intro, simp]: "om_inv m \<Longrightarrow> om_inv (om_del k m)"
  by (simp add: om_del_def)

lemma map_of_None_om: "\<forall>x \<in> set m. k < fst x \<Longrightarrow> map_of m (k::'k::linorder) = None"
  by (induction m) auto

lemma om_get_put [om_simps]: "om_inv m \<Longrightarrow> map_of (om_put k v m) = (map_of m)(k \<mapsto> v)"
  by (induction k v m rule: om_put.induct) (auto simp: om_inv_Cons fun_eq_iff map_of_None_om)

lemma om_get_del [om_simps]: "map_of (om_del k m) = (map_of m)(k := None)"
  by (induction m) (auto simp: om_del_def fun_eq_iff)

lemma om_inv_distinct: "om_inv m \<Longrightarrow> distinct (map fst m)"
  by (simp add: om_inv_def strict_sorted_iff)

lemma om_in_set_iff: "om_inv m \<Longrightarrow> (k, v) \<in> set m \<longleftrightarrow> map_of m k = Some v"
  by (simp add: om_inv_distinct)

lemma om_has_iff: "om_has m k \<longleftrightarrow> k \<in> fst ` set m"
  by (simp add: om_has_def map_of_eq_None_iff)

lemma om_has_put [simp]: "om_inv m \<Longrightarrow> om_has (om_put k v m) x \<longleftrightarrow> x = k \<or> om_has m x"
  by (simp add: om_has_def om_simps)

lemma om_has_del [simp]: "om_has (om_del k m) x \<longleftrightarrow> x \<noteq> k \<and> om_has m x"
  by (simp add: om_has_def om_simps)

lemma map_of_filter_key: "map_of (filter (\<lambda>e. P (fst e)) m) = (\<lambda>k. if P k then map_of m k else None)"
  by (induction m) (auto simp: fun_eq_iff)

lemma om_get_filter:
  "om_inv m \<Longrightarrow> map_of (filter (\<lambda>(k, v). P k v) m) x =
     (case map_of m x of Some v \<Rightarrow> if P x v then Some v else None | None \<Rightarrow> None)"
proof (induction m)
  case (Cons e m)
  then show ?case
    by (cases e) (auto simp: om_inv_Cons map_of_None_om split: option.splits)
qed simp

text \<open>Two ordered maps with the same lookups are the same list, so iteration is canonical.\<close>

lemma om_ext: "om_inv m \<Longrightarrow> om_inv n \<Longrightarrow> map_of m = map_of n \<Longrightarrow> m = n"
proof (induction m arbitrary: n)
  case Nil
  then show ?case by (cases n) (auto simp: fun_eq_iff split: if_splits)
next
  case (Cons e m)
  obtain k v where e: "e = (k, v)" by (cases e)
  from Cons.prems(3) e have k: "map_of n k = Some v" by (metis map_of_Cons_code(2))
  then obtain f n' where n: "n = f # n'" by (cases n) auto
  obtain a b where f: "f = (a, b)" by (cases f)
  from fun_cong [OF Cons.prems(3), of a] n f have "map_of (e # m) a = Some b" by simp
  then have "(a, b) \<in> set (e # m)" by (rule map_of_SomeD)
  then have "k \<le> a" using Cons.prems(1) e by (force simp: om_inv_Cons)
  moreover from k have "(k, v) \<in> set n" by (rule map_of_SomeD)
  then have "a \<le> k" using Cons.prems(2) n f by (force simp: om_inv_Cons)
  ultimately have ka: "k = a" by simp
  with k n f have "v = b" by simp
  have "map_of m = map_of n'"
  proof
    fix x
    have "map_of m k = None" "map_of n' k = None"
      using Cons.prems(1,2) e n f ka by (auto simp: om_inv_Cons intro!: map_of_None_om)
    then show "map_of m x = map_of n' x"
      using fun_cong [OF Cons.prems(3), of x] e n f ka by (auto split: if_splits)
  qed
  with Cons n e f ka \<open>v = b\<close> show ?case by (auto simp: om_inv_Cons)
qed

lemma om_inv_map_snd [simp]: "om_inv (map (\<lambda>(k, v). (k, f k v)) m) = om_inv m"
  by (simp add: om_inv_def case_prod_unfold comp_def)

lemma om_get_map_snd:
  "map_of (map (\<lambda>(k, v). (k, f k v)) m) k = map_option (f k) (map_of m k)"
  by (induction m) auto

lemma length_om_put: "om_inv m \<Longrightarrow> length (om_put k v m) = (if om_has m k then length m else Suc (length m))"
proof (induction k v m rule: om_put.induct)
  case (2 k v a b m)
  show ?case
  proof (cases "k < a")
    case True
    with 2 have "map_of m k = None" by (force simp: om_inv_Cons intro: map_of_None_om)
    with True show ?thesis by (simp add: om_has_def)
  qed (use 2 in \<open>auto simp: om_inv_Cons om_has_def\<close>)
qed (simp add: om_has_def)

lemma length_om_del: "length (om_del k m) \<le> length m"
  by (simp add: om_del_def)

section \<open>The map contract\<close>

text \<open>
  What the clients of a map rely on, stated once: \<open>BTreeMap\<close>'s and \<open>HashMap\<close>'s
  insert, remove and get.
\<close>

locale keyed_map =
  fixes put :: "'k \<Rightarrow> 'v \<Rightarrow> 'm \<Rightarrow> 'm"
    and del :: "'k \<Rightarrow> 'm \<Rightarrow> 'm"
    and get :: "'m \<Rightarrow> 'k \<Rightarrow> 'v option"
    and inv :: "'m \<Rightarrow> bool"
  assumes get_put: "inv m \<Longrightarrow> get (put k v m) x = (if x = k then Some v else get m x)"
    and get_del: "inv m \<Longrightarrow> get (del k m) x = (if x = k then None else get m x)"
    and inv_put: "inv m \<Longrightarrow> inv (put k v m)"
    and inv_del: "inv m \<Longrightarrow> inv (del k m)"
    and get_ext: "inv m \<Longrightarrow> inv n \<Longrightarrow> (\<And>x. get m x = get n x) \<Longrightarrow> m = n"
begin

lemma put_put: "inv m \<Longrightarrow> put k v (put k w m) = put k v m"
  by (rule get_ext) (auto simp: get_put inv_put)

lemma put_commute: "inv m \<Longrightarrow> k \<noteq> j \<Longrightarrow> put k v (put j w m) = put j w (put k v m)"
  by (rule get_ext) (auto simp: get_put inv_put)

lemma put_same: "inv m \<Longrightarrow> get m k = Some v \<Longrightarrow> put k v m = m"
  by (rule get_ext) (auto simp: get_put inv_put)

lemma del_put: "inv m \<Longrightarrow> del k (put k v m) = del k m"
  by (rule get_ext) (auto simp: get_put get_del inv_put inv_del)

end

interpretation om: keyed_map om_put om_del map_of om_inv
  by unfold_locales (auto simp: om_simps intro: om_ext)

section \<open>Lists\<close>

lemma nth_error_take: "i < n \<Longrightarrow> i < length xs \<Longrightarrow> take n xs ! i = xs ! i"
  by simp

lemma sorted_wrt_drop: "sorted_wrt P xs \<Longrightarrow> sorted_wrt P (drop n xs)"
  by (metis append_take_drop_id sorted_wrt_append)

end
