(* ===== verification/Text.thy ===== *)
theory Text
  imports Prelude
begin

text \<open>
  The string functions of Rust's standard library the program uses, on UTF-8 bytes, and the
  byte encodings of integers. \<open>trim\<close> strips the encodings of every character with the Unicode
  property White_Space. \<open>to_lowercase\<close> maps the ASCII letters and U+212A (the Kelvin sign, the
  only other character whose lower case is ASCII) and leaves every other character as it is,
  where Rust may put another non-ASCII sequence.
\<close>

section \<open>Bytes of strings and integers\<close>

definition str_bytes :: "string \<Rightarrow> bytes" where
  "str_bytes s = map (\<lambda>c. of_nat (of_char c)) s"

definition le_bytes8 :: "u64 \<Rightarrow> bytes" where
  "le_bytes8 w = map (\<lambda>i. ucast (drop_bit (8 * i) w)) [0, 1, 2, 3, 4, 5, 6, 7]"

definition be_bytes8 :: "u64 \<Rightarrow> bytes" where
  "be_bytes8 w = rev (le_bytes8 w)"

lemma length_le_bytes8 [simp]: "length (le_bytes8 w) = 8"
  by (simp add: le_bytes8_def)

lemma length_be_bytes8 [simp]: "length (be_bytes8 w) = 8"
  by (simp add: be_bytes8_def)

lemma le_bytes8_bit:
  assumes "le_bytes8 v = le_bytes8 w" "n < 64"
  shows "bit v n = bit w n"
proof -
  have "n div 8 < 8" using assms(2) by simp
  then have "n div 8 \<in> set [0, 1, 2, 3, 4, 5, 6, 7::nat]" by auto
  then have "(ucast (drop_bit (8 * (n div 8)) v) :: 8 word) = ucast (drop_bit (8 * (n div 8)) w)"
    using assms(1) unfolding le_bytes8_def map_eq_conv by blast
  then have "bit (ucast (drop_bit (8 * (n div 8)) v) :: 8 word) (n mod 8)
           = bit (ucast (drop_bit (8 * (n div 8)) w) :: 8 word) (n mod 8)" by simp
  moreover have "n mod 8 < 8" by simp
  ultimately show ?thesis by (simp add: bit_ucast_iff bit_drop_bit_eq ac_simps del: mod_less_divisor)
qed

lemma le_bytes8_inj: "le_bytes8 v = le_bytes8 w \<longleftrightarrow> v = w"
proof
  assume eq: "le_bytes8 v = le_bytes8 w"
  show "v = w"
  proof (rule bit_word_eqI)
    fix n assume "n < LENGTH(64)"
    then have "n < 64" by simp
    with eq show "bit v n = bit w n" by (rule le_bytes8_bit)
  qed
qed simp

lemma be_bytes8_inj: "be_bytes8 v = be_bytes8 w \<longleftrightarrow> v = w"
  by (simp add: be_bytes8_def le_bytes8_inj)

lemma of_char_less_256: "(of_char c :: nat) < 256"
  by (cases c) (simp add: of_char_Char)

lemma byte_of_char_inj: "(of_nat (of_char c) :: 8 word) = of_nat (of_char d) \<longleftrightarrow> c = d"
proof
  assume "(of_nat (of_char c) :: 8 word) = of_nat (of_char d)"
  then have "unat (of_nat (of_char c) :: 8 word) = unat (of_nat (of_char d) :: 8 word)" by simp
  then have "(of_char c :: nat) = of_char d"
    using of_char_less_256 [of c] of_char_less_256 [of d] by (simp add: unat_of_nat)
  then show "c = d" by simp
qed simp

lemma str_bytes_inj: "str_bytes s = str_bytes t \<longleftrightarrow> s = t"
  unfolding str_bytes_def by (rule inj_map_eq_map) (auto intro!: injI simp: byte_of_char_inj)

lemma length_str_bytes [simp]: "length (str_bytes s) = length s"
  by (simp add: str_bytes_def)

section \<open>Characters in UTF-8\<close>

abbreviation byte :: "nat \<Rightarrow> char" where
  "byte n \<equiv> char_of n"

definition code :: "char \<Rightarrow> nat" where
  "code c = of_char c"

definition is_continuation :: "char \<Rightarrow> bool" where
  "is_continuation c \<longleftrightarrow> 128 \<le> code c \<and> code c < 192"

text \<open>\<open>str::is_char_boundary\<close>.\<close>

definition is_char_boundary :: "string \<Rightarrow> nat \<Rightarrow> bool" where
  "is_char_boundary s i \<longleftrightarrow> i = length s \<or> (i < length s \<and> \<not> is_continuation (s ! i))"

text \<open>\<open>len_utf8\<close> of the character a lead byte starts.\<close>

definition lead_width :: "char \<Rightarrow> nat" where
  "lead_width c = (if code c < 128 then 1 else if code c < 224 then 2 else if code c < 240 then 3 else 4)"

text \<open>
  \<open>char::is_control\<close>: U+0000 to U+001F, U+007F, and U+0080 to U+009F, which are the byte C2
  followed by 80 to 9F. The result is the first control character's bytes.
\<close>

fun find_control :: "string \<Rightarrow> string option" where
  "find_control [] = None"
| "find_control (c # s) =
     (if code c < 32 \<or> code c = 127 then Some [c]
      else (case s of
              d # _ \<Rightarrow> if code c = 194 \<and> 128 \<le> code d \<and> code d < 160 then Some [c, d] else find_control s
            | [] \<Rightarrow> None))"

declare find_control.simps [simp del]

definition is_ascii_lower :: "char \<Rightarrow> bool" where
  "is_ascii_lower c \<longleftrightarrow> 97 \<le> code c \<and> code c \<le> 122"

definition is_ascii_upper :: "char \<Rightarrow> bool" where
  "is_ascii_upper c \<longleftrightarrow> 65 \<le> code c \<and> code c \<le> 90"

definition is_ascii_digit :: "char \<Rightarrow> bool" where
  "is_ascii_digit c \<longleftrightarrow> 48 \<le> code c \<and> code c \<le> 57"

definition is_ascii_alphanumeric :: "char \<Rightarrow> bool" where
  "is_ascii_alphanumeric c \<longleftrightarrow> is_ascii_lower c \<or> is_ascii_upper c \<or> is_ascii_digit c"

section \<open>Trimming and lower case\<close>

definition white_space :: "string list" where
  "white_space =
     map (\<lambda>n. [byte n]) [9, 10, 11, 12, 13, 32]
     @ map (map byte) [[194, 133], [194, 160], [225, 154, 128],
         [226, 128, 128], [226, 128, 129], [226, 128, 130], [226, 128, 131], [226, 128, 132],
         [226, 128, 133], [226, 128, 134], [226, 128, 135], [226, 128, 136], [226, 128, 137],
         [226, 128, 138], [226, 128, 168], [226, 128, 169], [226, 128, 175], [226, 129, 159],
         [227, 128, 128]]"

fun strip_prefix :: "string \<Rightarrow> string \<Rightarrow> string option" where
  "strip_prefix [] s = Some s"
| "strip_prefix (p # ps) [] = None"
| "strip_prefix (p # ps) (c # s) = (if p = c then strip_prefix ps s else None)"

fun strip_any :: "string list \<Rightarrow> string \<Rightarrow> string option" where
  "strip_any [] s = None"
| "strip_any (w # ws) s = (case strip_prefix w s of Some r \<Rightarrow> Some r | None \<Rightarrow> strip_any ws s)"

text \<open>Each round strips one character; the first argument bounds the rounds by the length.\<close>

fun strip_rounds :: "nat \<Rightarrow> string list \<Rightarrow> string \<Rightarrow> string" where
  "strip_rounds 0 ws s = s"
| "strip_rounds (Suc n) ws s =
     (case strip_any ws s of Some r \<Rightarrow> strip_rounds n ws r | None \<Rightarrow> s)"

definition trim_with :: "string list \<Rightarrow> string \<Rightarrow> string" where
  "trim_with ws s =
     (let t = strip_rounds (length s) ws s
      in rev (strip_rounds (length t) (map rev ws) (rev t)))"

definition trim :: "string \<Rightarrow> string" where
  "trim s = trim_with white_space s"

definition trim_dots :: "string \<Rightarrow> string" where
  "trim_dots s = rev (dropWhile (\<lambda>c. c = CHR ''.'') (rev (dropWhile (\<lambda>c. c = CHR ''.'') s)))"

fun to_lowercase :: "string \<Rightarrow> string" where
  "to_lowercase [] = []"
| "to_lowercase (c # s) =
     (if is_ascii_upper c then byte (code c + 32) # to_lowercase s
      else if c = byte 226 \<and> take 2 s = [byte 132, byte 170] then CHR ''k'' # to_lowercase (drop 2 s)
      else c # to_lowercase s)"

lemma code_byte [simp]: "n < 256 \<Longrightarrow> code (byte n) = n"
  by (simp add: code_def)

lemma code_less_256: "code c < 256"
  by (simp add: code_def of_char_less_256)

lemma code_inj: "code c = code d \<longleftrightarrow> c = d"
  by (simp add: code_def)

lemma strip_prefix_eq: "strip_prefix w s = Some r \<longleftrightarrow> s = w @ r"
  by (induction w s rule: strip_prefix.induct) auto

lemma strip_any_length: "\<forall>w \<in> set ws. w \<noteq> [] \<Longrightarrow> strip_any ws s = Some r \<Longrightarrow> length r < length s"
  by (induction ws) (auto simp: strip_prefix_eq split: option.splits)

lemma strip_any_None: "strip_any ws s = None \<longleftrightarrow> (\<forall>w \<in> set ws. \<forall>r. s \<noteq> w @ r)"
proof (induction ws)
  case (Cons w ws)
  show ?case
  proof (cases "strip_prefix w s")
    case None
    then have "\<forall>r. s \<noteq> w @ r" by (metis not_Some_eq strip_prefix_eq)
    with None Cons.IH show ?thesis by simp
  next
    case (Some r)
    then have "s = w @ r" by (simp add: strip_prefix_eq)
    with Some show ?thesis by auto
  qed
qed simp

text \<open>The bound is enough: after the rounds nothing more can be stripped.\<close>

lemma strip_rounds_done:
  "\<forall>w \<in> set ws. w \<noteq> [] \<Longrightarrow> length s \<le> n \<Longrightarrow> strip_any ws (strip_rounds n ws s) = None"
proof (induction n arbitrary: s)
  case 0
  then show ?case by (auto simp: strip_any_None)
next
  case (Suc n)
  show ?case
  proof (cases "strip_any ws s")
    case (Some r)
    with Suc.prems have "length r \<le> n" using strip_any_length [of ws s r] by simp
    with Suc.IH Suc.prems(1) Some show ?thesis by simp
  qed simp
qed

lemma strip_rounds_id: "strip_any ws s = None \<Longrightarrow> strip_rounds n ws s = s"
  by (cases n) auto

text \<open>A string whose ends start no white space is trimmed already.\<close>

lemma trim_with_id:
  "strip_any ws s = None \<Longrightarrow> strip_any (map rev ws) (rev s) = None \<Longrightarrow> trim_with ws s = s"
  by (simp add: trim_with_def Let_def strip_rounds_id)

end
