(* ===== verification/Paths.thy ===== *)
theory Paths
  imports Text
begin

text \<open>
  Group-relative paths and directory names: \<open>crates/ac-files/src/path.rs\<close> and
  \<open>crates/ac-files/src/dirname.rs\<close>. A path is the UTF-8 text the code keeps; what
  \<open>Path::components\<close> yields is the list of its components.
\<close>

definition MAX_COMPONENT :: nat where "MAX_COMPONENT = 255"
definition MAX_PATH :: nat where "MAX_PATH = 1024"

datatype relpath = RelPath (path_str: string)

instantiation relpath :: linorder
begin
definition less_eq_relpath :: "relpath \<Rightarrow> relpath \<Rightarrow> bool" where
  "less_eq_relpath p q \<longleftrightarrow> path_str p \<le> path_str q"
definition less_relpath :: "relpath \<Rightarrow> relpath \<Rightarrow> bool" where
  "less_relpath p q \<longleftrightarrow> path_str p < path_str q"
instance
  by standard (auto simp: less_eq_relpath_def less_relpath_def intro: relpath.expand)
end

datatype path_error =
    PathEmpty
  | PathTraversal string
  | PathAbsolute
  | PathEmptyComponent
  | PathBackslash
  | PathNotUtf8 string
  | PathControl string
  | PathTooLong nat
  | PathComponentTooLong string

section \<open>Splitting and joining text\<close>

text \<open>\<open>str::split\<close> and \<open>join\<close> with one separator, \<open>rfind\<close>, \<open>trim_matches\<close> of a character.\<close>

fun split_on :: "char \<Rightarrow> string \<Rightarrow> string list" where
  "split_on c [] = [[]]"
| "split_on c (x # s) =
     (if x = c then [] # split_on c s
      else case split_on c s of p # ps \<Rightarrow> (x # p) # ps | [] \<Rightarrow> [[x]])"

fun join_with :: "char \<Rightarrow> string list \<Rightarrow> string" where
  "join_with c [] = []"
| "join_with c [s] = s"
| "join_with c (s # t # ts) = s @ c # join_with c (t # ts)"

definition rfind :: "char \<Rightarrow> string \<Rightarrow> nat option" where
  "rfind c s =
     (let n = length (takeWhile (\<lambda>x. x \<noteq> c) (rev s)) in if n = length s then None else Some (length s - Suc n))"

definition trim_char :: "char \<Rightarrow> string \<Rightarrow> string" where
  "trim_char c s = rev (dropWhile (\<lambda>x. x = c) (rev (dropWhile (\<lambda>x. x = c) s)))"

text \<open>The loop that moves a cut back to a character boundary.\<close>

fun cut_back :: "string \<Rightarrow> nat \<Rightarrow> nat" where
  "cut_back s 0 = 0"
| "cut_back s (Suc n) = (if is_char_boundary s (Suc n) then Suc n else cut_back s n)"

section \<open>Paths\<close>

fun check_components :: "string list \<Rightarrow> path_error + unit" where
  "check_components [] = Inr ()"
| "check_components (c # cs) =
     (if c = [] then Inl PathEmptyComponent
      else if c = ''.'' \<or> c = ''..'' then Inl (PathTraversal c)
      else if MAX_COMPONENT < length c then Inl (PathComponentTooLong c)
      else case find_control c of
             Some bad \<Rightarrow> Inl (PathControl bad)
           | None \<Rightarrow> check_components cs)"

definition relpath_parse :: "string \<Rightarrow> path_error + relpath" where
  "relpath_parse raw =
     (if raw = [] then Inl PathEmpty
      else if MAX_PATH < length raw then Inl (PathTooLong (length raw))
      else if CHR 0x5C \<in> set raw then Inl PathBackslash
      else if take 1 raw = ''/'' then Inl PathAbsolute
      else bindE (check_components (split_on CHR ''/'' raw)) (\<lambda>_. Inr (RelPath raw)))"

text \<open>One \<open>std::path::Component\<close>; a name that is not UTF-8 is kept as its lossy text.\<close>

datatype fs_component = NormalName string | NormalBytes string | ParentDir | CurDir | RootDir | PathPrefix string

fun fs_names :: "fs_component list \<Rightarrow> path_error + string list" where
  "fs_names [] = Inr []"
| "fs_names (NormalName n # cs) = bindE (fs_names cs) (\<lambda>ns. Inr (n # ns))"
| "fs_names (NormalBytes lossy # cs) = Inl (PathNotUtf8 lossy)"
| "fs_names (ParentDir # cs) = Inl (PathTraversal ''..'')"
| "fs_names (CurDir # cs) = Inl (PathTraversal ''.'')"
| "fs_names (RootDir # cs) = Inl PathAbsolute"
| "fs_names (PathPrefix p # cs) = Inl PathAbsolute"

definition relpath_from_fs :: "fs_component list \<Rightarrow> path_error + relpath" where
  "relpath_from_fs cs = bindE (fs_names cs) (\<lambda>ns. relpath_parse (join_with CHR ''/'' ns))"

text \<open>
  \<open>PathBuf::push\<close>. The program runs on Unix and on Windows, and the two differ: on Windows a component
  that starts with a letter and a colon carries a drive prefix, and pushing it replaces the whole base by
  that drive's current directory. A \<open>path_buf\<close> is a path as the code holds it: its drive, whether it
  starts at the root, and its names. What is pushed here is a component of a valid path, hence neither
  empty nor absolute.
\<close>

datatype platform = Unix | Windows

type_synonym location = "string list"

record path_buf =
  buf_drive :: "char option"
  buf_rooted :: bool
  buf_names :: location

fun has_drive :: "string \<Rightarrow> bool" where
  "has_drive (letter # colon # rest) \<longleftrightarrow> (is_ascii_upper letter \<or> is_ascii_lower letter) \<and> colon = CHR '':''"
| "has_drive _ \<longleftrightarrow> False"

definition path_push :: "platform \<Rightarrow> string \<Rightarrow> path_buf \<Rightarrow> path_buf" where
  "path_push os component out =
     (if os = Windows \<and> has_drive component then
        \<lparr>buf_drive = Some (hd component), buf_rooted = False,
         buf_names = (if drop 2 component = [] then [] else [drop 2 component])\<rparr>
      else out\<lparr>buf_names := buf_names out @ [component]\<rparr>)"

definition join_under :: "platform \<Rightarrow> relpath \<Rightarrow> path_buf \<Rightarrow> path_buf" where
  "join_under os p dir = fold (path_push os) (split_on CHR ''/'' (path_str p)) dir"

lemma push_plain: "os = Unix \<or> (\<forall>c \<in> set cs. \<not> has_drive c) \<Longrightarrow>
    fold (path_push os) cs b = b\<lparr>buf_names := buf_names b @ cs\<rparr>"
  by (induction cs arbitrary: b) (auto simp: path_push_def)

lemma push_drive: "\<not> buf_rooted b \<Longrightarrow> \<not> buf_rooted (fold (path_push os) cs b)"
  by (induction cs arbitrary: b) (simp_all add: path_push_def)

definition file_name :: "relpath \<Rightarrow> string" where
  "file_name p = last (split_on CHR ''/'' (path_str p))"

definition split_dir :: "string \<Rightarrow> string \<times> string" where
  "split_dir s = (case rfind CHR ''/'' s of Some at \<Rightarrow> (take (Suc at) s, drop (Suc at) s) | None \<Rightarrow> ([], s))"

definition split_ext :: "string \<Rightarrow> string \<times> string" where
  "split_ext name =
     (let first = (case name of c # _ \<Rightarrow> min (lead_width c) (length name) | [] \<Rightarrow> 0) in
      case rfind CHR ''.'' (drop first name) of
        Some at \<Rightarrow> (take (at + first) name, drop (at + first) name)
      | None \<Rightarrow> (name, []))"

definition conflict_mark :: "string \<Rightarrow> string" where
  "conflict_mark hash = ''.conflict-'' @ take 8 hash"

definition conflict_name :: "relpath \<Rightarrow> string \<Rightarrow> relpath" where
  "conflict_name p hash =
     (let (dir, name) = split_dir (path_str p);
          (stem, ext) = split_ext name;
          mark = conflict_mark hash;
          room = MAX_COMPONENT - (length mark + length ext);
          stem = take (cut_back stem (min room (length stem))) stem
      in case relpath_parse (dir @ stem @ mark @ ext) of Inr q \<Rightarrow> q | Inl _ \<Rightarrow> p)"

definition relpath_under :: "string \<Rightarrow> string \<Rightarrow> path_error + relpath" where
  "relpath_under dir name =
     (let dir = trim_char CHR ''/'' dir in
      if dir = [] then relpath_parse name else relpath_parse (dir @ ''/'' @ name))"

section \<open>Directory names\<close>

definition MAX_DIRNAME :: nat where "MAX_DIRNAME = 128"

text \<open>The characters of a name, each slash, backslash or control character replaced.\<close>

fun replace_unsafe :: "string \<Rightarrow> string" where
  "replace_unsafe [] = []"
| "replace_unsafe [c] =
     (if c = CHR ''/'' \<or> c = CHR 0x5C \<or> code c < 32 \<or> code c = 127 then ''_'' else [c])"
| "replace_unsafe (c # d # s) =
     (if c = CHR ''/'' \<or> c = CHR 0x5C \<or> code c < 32 \<or> code c = 127 then CHR ''_'' # replace_unsafe (d # s)
      else if code c = 194 \<and> 128 \<le> code d \<and> code d < 160 then CHR ''_'' # replace_unsafe s
      else c # replace_unsafe (d # s))"

lemma strip_rounds_suffix: "\<exists>p. s = p @ strip_rounds n ws s"
proof (induction n arbitrary: s)
  case (Suc n)
  show ?case
  proof (cases "strip_any ws s")
    case (Some r)
    have "\<exists>w. s = w @ r" using Some by (induction ws) (auto simp: strip_prefix_eq split: option.splits)
    then obtain w where "s = w @ r" ..
    moreover obtain p where "r = p @ strip_rounds n ws r" using Suc by blast
    ultimately show ?thesis using Some by (metis append.assoc option.simps(5) strip_rounds.simps(2))
  qed simp
qed simp

lemma trim_with_infix: "\<exists>p q. s = p @ trim_with ws s @ q"
proof -
  let ?t = "strip_rounds (length s) ws s"
  obtain p where p: "s = p @ ?t" using strip_rounds_suffix by blast
  obtain q where "rev ?t = q @ strip_rounds (length ?t) (map rev ws) (rev ?t)"
    using strip_rounds_suffix by blast
  then have "?t = rev (strip_rounds (length ?t) (map rev ws) (rev ?t)) @ rev q" by (metis rev_append rev_rev_ident)
  with p show ?thesis unfolding trim_with_def Let_def by metis
qed

lemma trim_dots_infix: "\<exists>p q. s = p @ trim_dots s @ q"
proof -
  let ?P = "\<lambda>c. c = CHR ''.''"
  let ?t = "dropWhile ?P s"
  have "s = takeWhile ?P s @ ?t" by simp
  moreover have "?t = rev (dropWhile ?P (rev ?t)) @ rev (takeWhile ?P (rev ?t))"
    by (metis rev_append rev_rev_ident takeWhile_dropWhile_id)
  ultimately show ?thesis unfolding trim_dots_def by metis
qed

lemma edge_infix: "\<exists>p q. s = p @ trim_dots (trim s) @ q"
  using trim_with_infix [of s white_space] trim_dots_infix [of "trim s"] unfolding trim_def
  by (metis append.assoc)

function trim_edges :: "string \<Rightarrow> string" where
  "trim_edges s = (let next = trim_dots (trim s) in if next = s then s else trim_edges next)"
  by pat_completeness auto
termination
proof (relation "measure length")
  fix s :: string and n assume "n = trim_dots (trim s)" "n \<noteq> s"
  with edge_infix [of s] obtain p q where "s = p @ n @ q" by blast
  with \<open>n \<noteq> s\<close> show "(n, s) \<in> measure length" by (cases p; cases q) auto
qed simp

definition sanitize :: "string \<Rightarrow> string option" where
  "sanitize name =
     (let trimmed = trim_edges (replace_unsafe name) in
      if trimmed = [] then None
      else if MAX_DIRNAME < length trimmed then
        let result = trim_edges (take (cut_back trimmed MAX_DIRNAME) trimmed)
        in if result = [] then None else Some result
      else Some trimmed)"

end
