(* ===== verification/GroupTypes.thy ===== *)
theory GroupTypes
  imports Prelude
begin

text \<open>
  The data of the group layer: \<open>crates/ac-groups/src/id.rs\<close>, the entry and standing bodies of
  \<open>chain.rs\<close> and \<open>standing.rs\<close>, and the messages of \<open>wire.rs\<close>.

  \<open>env\<close> collects the third-party functions the layer calls: libp2p's peer ids and keys, SHA-256
  and ciborium's encoding of the two signed bodies. They are parameters of every definition.
  Chain positions (\<open>seq\<close>, \<open>from\<close>) are \<open>nat\<close>: the code only compares them with lengths of
  in-memory vectors, and takes \<open>min\<close> and \<open>saturating_sub\<close>, so a \<open>u64\<close> never wraps there. A
  standing's \<open>seq\<close> is chosen by its author and incremented, so it stays a 64-bit word.
  Hex text of ids and hashes in the database is kept as the bytes it encodes.
\<close>

datatype group_id = GroupId (group_bytes: bytes)

datatype entry_hash = EntryHash (hash_bytes: bytes)

instantiation group_id :: linorder
begin
definition less_eq_group_id :: "group_id \<Rightarrow> group_id \<Rightarrow> bool" where
  "less_eq_group_id p q \<longleftrightarrow> group_bytes p \<le> group_bytes q"
definition less_group_id :: "group_id \<Rightarrow> group_id \<Rightarrow> bool" where
  "less_group_id p q \<longleftrightarrow> group_bytes p < group_bytes q"
instance
  by standard (auto simp: less_eq_group_id_def less_group_id_def intro: group_id.expand)
end

definition GROUP_ZERO :: group_id where
  "GROUP_ZERO = GroupId (replicate 32 0)"

definition NO_PARENT :: entry_hash where
  "NO_PARENT = EntryHash (replicate 32 0)"

definition TAG_GROUP :: "8 word" where "TAG_GROUP = 1"

definition TAG_ENTRY :: "8 word" where "TAG_ENTRY = 0"

section \<open>Chain entries\<close>

datatype op =
    Create (op_admin: string) (op_nonce: bytes) (op_name: string)
  | Add (op_peer: string)
  | Remove (op_peer: string)

record entry_body =
  eb_group :: group_id
  eb_seq :: nat
  eb_prev :: entry_hash
  eb_at :: int
  eb_op :: op

record entry =
  e_body :: bytes
  e_signature :: bytes

definition MAX_ENTRY_BYTES :: nat where "MAX_ENTRY_BYTES = 4096"

definition MAX_NAME_LEN :: nat where "MAX_NAME_LEN = 64"

definition entry_wire_len :: "entry \<Rightarrow> nat" where
  "entry_wire_len e = length (e_body e) + length (e_signature e)"

section \<open>Standings\<close>

datatype position = Unanswered | In | Out

record standing_body =
  sb_group :: group_id
  sb_peer :: string
  sb_seq :: u64
  sb_position :: position
  sb_username :: string
  sb_at :: int

record standing =
  st_body :: bytes
  st_signature :: bytes

definition MAX_STANDING_BYTES :: nat where "MAX_STANDING_BYTES = 1024"

definition standing_wire_len :: "standing \<Rightarrow> nat" where
  "standing_wire_len s = length (st_body s) + length (st_signature s)"

section \<open>Third-party functions\<close>

record env =
  parse_peer :: "string \<Rightarrow> peer_id option"
  to_base58 :: "peer_id \<Rightarrow> string"
  peer_to_bytes :: "peer_id \<Rightarrow> bytes"
  public_key_of :: "peer_id \<Rightarrow> pubkey option"
  peer_of_key :: "keypair \<Rightarrow> peer_id"
  sign_bytes :: "keypair \<Rightarrow> bytes \<Rightarrow> bytes option"
  verifies :: "pubkey \<Rightarrow> bytes \<Rightarrow> bytes \<Rightarrow> bool"
  sha256 :: "bytes \<Rightarrow> bytes"
  enc_entry :: "entry_body \<Rightarrow> bytes option"
  dec_entry :: "bytes \<Rightarrow> entry_body option"
  enc_standing :: "standing_body \<Rightarrow> bytes option"
  dec_standing :: "bytes \<Rightarrow> standing_body option"

text \<open>
  What the code relies on. Base58 text of a peer id is canonical (libp2p decodes exactly the
  strings it encodes); CBOR decodes what it encoded; a signature verifies under the public key
  recovered from the signer's own peer id, when there is one.
\<close>

definition base58_ok :: "env \<Rightarrow> bool" where
  "base58_ok E \<longleftrightarrow> (\<forall>p. parse_peer E (to_base58 E p) = Some p)
     \<and> (\<forall>s p. parse_peer E s = Some p \<longrightarrow> to_base58 E p = s)"

definition cbor_ok :: "env \<Rightarrow> bool" where
  "cbor_ok E \<longleftrightarrow> (\<forall>b bs. enc_entry E b = Some bs \<longrightarrow> dec_entry E bs = Some b)
     \<and> (\<forall>b bs. enc_standing E b = Some bs \<longrightarrow> dec_standing E bs = Some b)"

definition sign_ok :: "env \<Rightarrow> bool" where
  "sign_ok E \<longleftrightarrow> (\<forall>k m s. sign_bytes E k m = Some s \<longrightarrow>
     (\<exists>pk. public_key_of E (peer_of_key E k) = Some pk \<and> verifies E pk m s))"

lemma base58_parse: "base58_ok E \<Longrightarrow> parse_peer E (to_base58 E p) = Some p"
  by (simp add: base58_ok_def)

lemma base58_iff: "base58_ok E \<Longrightarrow> s = to_base58 E p \<longleftrightarrow> parse_peer E s = Some p"
  by (auto simp: base58_ok_def)

lemma cbor_entry: "cbor_ok E \<Longrightarrow> enc_entry E b = Some bs \<Longrightarrow> dec_entry E bs = Some b"
  by (simp add: cbor_ok_def)

lemma cbor_standing: "cbor_ok E \<Longrightarrow> enc_standing E b = Some bs \<Longrightarrow> dec_standing E bs = Some b"
  by (simp add: cbor_ok_def)

section \<open>Hashes of encoded bodies\<close>

definition tagged :: "env \<Rightarrow> 8 word \<Rightarrow> bytes \<Rightarrow> bytes" where
  "tagged E tag bs = sha256 E (tag # bs)"

definition of_genesis :: "env \<Rightarrow> bytes \<Rightarrow> group_id" where
  "of_genesis E bs = GroupId (tagged E TAG_GROUP bs)"

definition of_body :: "env \<Rightarrow> bytes \<Rightarrow> entry_hash" where
  "of_body E bs = EntryHash (tagged E TAG_ENTRY bs)"

definition entry_hash_of :: "env \<Rightarrow> entry \<Rightarrow> entry_hash" where
  "entry_hash_of E e = of_body E (e_body e)"

section \<open>Messages\<close>

record group_head =
  gh_group :: group_id
  gh_head_seq :: nat
  gh_head_hash :: entry_hash
  gh_standings :: bytes

datatype group_request = GAsk | GFetch group_id nat

datatype group_response =
    GHeads "group_head list"
  | GEntries group_id nat "entry list" "standing list"
  | GUnavailable

definition GROUP_MAX_HEADS :: nat where "GROUP_MAX_HEADS = 128"

lemma of_body_inj:
  assumes "inj (sha256 E)" shows "of_body E a = of_body E b \<longleftrightarrow> a = b"
  using injD [OF assms] by (auto simp: of_body_def tagged_def)

text \<open>The two tags keep a genesis body's id and its entry hash apart.\<close>

lemma genesis_id_not_entry_hash:
  assumes "inj (sha256 E)"
  shows "group_bytes (of_genesis E a) \<noteq> hash_bytes (of_body E b)"
  by (auto simp: of_body_def of_genesis_def tagged_def TAG_GROUP_def TAG_ENTRY_def dest: injD [OF assms])

end
