(* ===== verification/Hex.thy ===== *)
theory Hex
  imports Text GroupTypes
begin

text \<open>
  The hex text of ids and hashes (\<open>hex_repr!\<close> of \<open>crates/ac-groups/src/id.rs\<close>): lower case when
  printed, either case when parsed, exactly 64 digits.
\<close>

definition hex_char :: "nat \<Rightarrow> char" where
  "hex_char n = (if n < 10 then char_of (48 + n) else char_of (87 + n))"

definition hex_encode :: "bytes \<Rightarrow> string" where
  "hex_encode bs = concat (map (\<lambda>b. [hex_char (unat b div 16), hex_char (unat b mod 16)]) bs)"

definition hex_value :: "char \<Rightarrow> nat option" where
  "hex_value c =
     (if 48 \<le> code c \<and> code c \<le> 57 then Some (code c - 48)
      else if 97 \<le> code c \<and> code c \<le> 102 then Some (code c - 87)
      else if 65 \<le> code c \<and> code c \<le> 70 then Some (code c - 55)
      else None)"

fun hex_decode :: "string \<Rightarrow> bytes option" where
  "hex_decode [] = Some []"
| "hex_decode [c] = None"
| "hex_decode (c # d # s) =
     (case (hex_value c, hex_value d, hex_decode s) of
        (Some h, Some l, Some bs) \<Rightarrow> Some (of_nat (16 * h + l) # bs)
      | _ \<Rightarrow> None)"

definition hash_parse :: "string \<Rightarrow> bytes option" where
  "hash_parse s = (if length s = 64 then hex_decode s else None)"

definition group_id_show :: "group_id \<Rightarrow> string" where
  "group_id_show g = hex_encode (group_bytes g)"

definition group_id_parse :: "string \<Rightarrow> group_id option" where
  "group_id_parse s = map_option GroupId (hash_parse s)"

lemma hex_value_char: "n < 16 \<Longrightarrow> hex_value (hex_char n) = Some n"
  by (auto simp: hex_value_def hex_char_def code_def)

lemma length_hex_encode [simp]: "length (hex_encode bs) = 2 * length bs"
  by (induction bs) (simp_all add: hex_encode_def)

lemma hex_decode_encode: "hex_decode (hex_encode bs) = Some bs"
proof (induction bs)
  case (Cons b bs)
  have less: "unat b < 256" by (rule order.strict_trans2 [OF unsigned_less]) simp
  then have "unat b div 16 < 16" by simp
  moreover have "16 * (unat b div 16) + unat b mod 16 = unat b" by simp
  ultimately show ?case
    using Cons by (simp add: hex_encode_def hex_value_char del: of_nat_add of_nat_mult)
qed (simp add: hex_encode_def)

lemma group_id_roundtrip: "length (group_bytes g) = 32 \<Longrightarrow> group_id_parse (group_id_show g) = Some g"
  by (cases g) (simp add: group_id_parse_def group_id_show_def hash_parse_def hex_decode_encode)

lemma group_id_parse_length: "group_id_parse s = Some g \<Longrightarrow> length (group_bytes g) = 32"
proof -
  have "hex_decode s = Some bs \<Longrightarrow> length s = 2 * length bs" for bs
    by (induction s arbitrary: bs rule: hex_decode.induct) (auto split: option.splits)
  then show "group_id_parse s = Some g \<Longrightarrow> length (group_bytes g) = 32"
    by (auto simp: group_id_parse_def hash_parse_def split: if_splits)
qed

end
