(* ===== verification/Members.thy ===== *)
theory Members
  imports GroupTypes
begin

text \<open>
  \<open>crates/ac-groups/src/members.rs\<close> without the names taken from standings (those are in theory
  Standing): the membership set, a \<open>BTreeMap\<close> from peer to member.
\<close>

record member =
  m_peer :: peer_id
  m_username :: "string option"
  m_is_admin :: bool

type_synonym members = "(peer_id, member) omap"

definition members_insert :: "peer_id \<Rightarrow> bool \<Rightarrow> members \<Rightarrow> members" where
  "members_insert p adm m =
     (case map_of m p of
        Some _ \<Rightarrow> m
      | None \<Rightarrow> om_put p \<lparr>m_peer = p, m_username = None, m_is_admin = adm\<rparr> m)"

definition members_set_username :: "peer_id \<Rightarrow> string option \<Rightarrow> members \<Rightarrow> members" where
  "members_set_username p u m =
     (case map_of m p of
        Some x \<Rightarrow> om_put p (x\<lparr>m_username := u\<rparr>) m
      | None \<Rightarrow> m)"

definition members_remove :: "peer_id \<Rightarrow> members \<Rightarrow> bool \<times> members" where
  "members_remove p m = (om_has m p, om_del p m)"

definition members_contains :: "members \<Rightarrow> peer_id \<Rightarrow> bool" where
  "members_contains m p = om_has m p"

definition members_diff :: "members \<Rightarrow> members \<Rightarrow> peer_id list" where
  "members_diff a b = map (\<lambda>x. m_peer (snd x)) (filter (\<lambda>x. \<not> members_contains b (m_peer (snd x))) a)"

text \<open>Every entry is stored under its own peer.\<close>

definition members_inv :: "members \<Rightarrow> bool" where
  "members_inv m \<longleftrightarrow> om_inv m \<and> (\<forall>(p, x) \<in> set m. m_peer x = p)"

lemma members_inv_Nil [simp]: "members_inv []"
  by (simp add: members_inv_def)

lemma members_inv_om [simp]: "members_inv m \<Longrightarrow> om_inv m"
  by (simp add: members_inv_def)

lemma members_inv_put:
  "members_inv m \<Longrightarrow> m_peer x = p \<Longrightarrow> members_inv (om_put p x m)"
  using set_om_put_subset [of p x m] by (fastforce simp: members_inv_def)

lemma members_inv_insert [simp]: "members_inv m \<Longrightarrow> members_inv (members_insert p a m)"
  by (auto simp: members_insert_def intro: members_inv_put split: option.splits)

lemma members_inv_get: "members_inv m \<Longrightarrow> map_of m p = Some x \<Longrightarrow> m_peer x = p"
  by (auto simp: members_inv_def dest!: map_of_SomeD)

lemma members_inv_set_username [simp]:
  "members_inv m \<Longrightarrow> members_inv (members_set_username p u m)"
  by (auto simp: members_set_username_def members_inv_get intro!: members_inv_put split: option.splits)

lemma members_inv_remove [simp]: "members_inv m \<Longrightarrow> members_inv (snd (members_remove p m))"
  by (auto simp: members_remove_def members_inv_def om_del_def)

lemma contains_insert [simp]:
  "members_inv m \<Longrightarrow> members_contains (members_insert p a m) q \<longleftrightarrow> q = p \<or> members_contains m q"
  by (auto simp: members_insert_def members_contains_def om_has_def om_simps split: option.splits)

lemma contains_remove [simp]:
  "members_contains (snd (members_remove p m)) q \<longleftrightarrow> q \<noteq> p \<and> members_contains m q"
  by (simp add: members_remove_def members_contains_def)

lemma contains_Nil [simp]: "\<not> members_contains [] p"
  by (simp add: members_contains_def om_has_def)

lemma members_diff_set:
  "members_inv a \<Longrightarrow> set (members_diff a b) = {p. members_contains a p \<and> \<not> members_contains b p}"
  unfolding members_inv_def members_diff_def members_contains_def om_has_iff
  by (force simp: case_prod_unfold)

end
