(* ===== verification/Chain.thy ===== *)
theory Chain
  imports Members
begin

text \<open>
  \<open>crates/ac-groups/src/chain.rs\<close>: the admin-signed membership log. A chain is built only by
  \<open>load\<close> (and \<open>create\<close>, which goes through it) and grows only by \<open>extend\<close> (and \<open>author\<close>).
  Methods on \<open>&mut self\<close> return the result and the chain afterwards.
\<close>

record verified =
  v_entry :: entry
  v_body :: entry_body
  v_hash :: entry_hash

record chain =
  ch_id :: group_id
  ch_admin :: peer_id
  ch_entries :: "verified list"

datatype chain_error =
    Malformed
  | Encode
  | Signing
  | TooLarge nat nat
  | NoGenesis
  | MalformedGenesis
  | SecondGenesis nat
  | OutOfOrder nat nat
  | BrokenLink nat
  | WrongGroup nat group_id
  | AdminKey string
  | BadSignature nat
  | UnparseablePeer nat string
  | UnusablePeer nat string
  | SelfRemoval nat
  | NotAMember nat string
  | BadName nat
  | NotAdmin

section \<open>Entries\<close>

definition entry_body_of :: "env \<Rightarrow> entry \<Rightarrow> chain_error + entry_body" where
  "entry_body_of E e = ok_or (dec_entry E (e_body e)) Malformed"

definition entry_sign :: "env \<Rightarrow> keypair \<Rightarrow> entry_body \<Rightarrow> chain_error + entry" where
  "entry_sign E key body =
     bindE (ok_or (enc_entry E body) Encode) (\<lambda>bs.
     bindE (ok_or (sign_bytes E key bs) Signing) (\<lambda>sig.
       let e = \<lparr>e_body = bs, e_signature = sig\<rparr> in
       if MAX_ENTRY_BYTES < entry_wire_len e
       then Inl (TooLarge (eb_seq body) (entry_wire_len e))
       else Inr e))"

section \<open>Reading a chain\<close>

definition chain_len :: "chain \<Rightarrow> nat" where
  "chain_len c = length (ch_entries c)"

definition chain_head :: "chain \<Rightarrow> entry_hash" where
  "chain_head c = (case rev (ch_entries c) of [] \<Rightarrow> NO_PARENT | v # _ \<Rightarrow> v_hash v)"

definition hash_at :: "chain \<Rightarrow> nat \<Rightarrow> entry_hash option" where
  "hash_at c i = (if i < length (ch_entries c) then Some (v_hash (ch_entries c ! i)) else None)"

definition chain_name :: "chain \<Rightarrow> string" where
  "chain_name c =
     (case ch_entries c of
        v # _ \<Rightarrow> (case eb_op (v_body v) of Create _ _ n \<Rightarrow> n | _ \<Rightarrow> [])
      | [] \<Rightarrow> [])"

definition chain_entries :: "chain \<Rightarrow> entry list" where
  "chain_entries c = map v_entry (ch_entries c)"

definition entries_between :: "chain \<Rightarrow> nat \<Rightarrow> nat \<Rightarrow> entry list" where
  "entries_between c from to = map v_entry (drop (min from to) (take to (ch_entries c)))"

fun departure_scan :: "env \<Rightarrow> string \<Rightarrow> nat \<Rightarrow> nat option \<Rightarrow> verified list \<Rightarrow> nat option" where
  "departure_scan E wanted i acc [] = acc"
| "departure_scan E wanted i acc (v # vs) =
     departure_scan E wanted (Suc i)
       (case eb_op (v_body v) of
          Add p \<Rightarrow> if p = wanted then None else acc
        | Remove p \<Rightarrow> if p = wanted then Some i else acc
        | Create a _ _ \<Rightarrow> if a = wanted then None else acc) vs"

definition departure_seq :: "env \<Rightarrow> chain \<Rightarrow> peer_id \<Rightarrow> nat option" where
  "departure_seq E c p = departure_scan E (to_base58 E p) 0 None (ch_entries c)"

definition apply_op :: "env \<Rightarrow> op \<Rightarrow> members \<Rightarrow> members" where
  "apply_op E x m =
     (case x of
        Create a _ _ \<Rightarrow> (case parse_peer E a of Some p \<Rightarrow> members_insert p True m | None \<Rightarrow> m)
      | Add s \<Rightarrow> (case parse_peer E s of Some p \<Rightarrow> members_insert p False m | None \<Rightarrow> m)
      | Remove s \<Rightarrow> (case parse_peer E s of Some p \<Rightarrow> snd (members_remove p m) | None \<Rightarrow> m))"

fun fold_from :: "env \<Rightarrow> members \<Rightarrow> verified list \<Rightarrow> members" where
  "fold_from E m [] = m"
| "fold_from E m (v # vs) = fold_from E (apply_op E (eb_op (v_body v)) m) vs"

definition chain_fold :: "env \<Rightarrow> chain \<Rightarrow> members" where
  "chain_fold E c = fold_from E [] (ch_entries c)"

section \<open>The rules\<close>

definition verify_signature :: "env \<Rightarrow> entry \<Rightarrow> peer_id \<Rightarrow> nat \<Rightarrow> chain_error + unit" where
  "verify_signature E e admin seq =
     bindE (ok_or (public_key_of E admin) (AdminKey (to_base58 E admin))) (\<lambda>key.
       guardE (verifies E key (e_body e) (e_signature e)) (BadSignature seq))"

definition parse_peer_at :: "env \<Rightarrow> string \<Rightarrow> nat \<Rightarrow> chain_error + peer_id" where
  "parse_peer_at E raw seq = ok_or (parse_peer E raw) (UnparseablePeer seq raw)"

definition check_name :: "string \<Rightarrow> nat \<Rightarrow> chain_error + unit" where
  "check_name name seq = guardE (name \<noteq> [] \<and> length name \<le> MAX_NAME_LEN) (BadName seq)"

definition check_genesis :: "env \<Rightarrow> entry \<Rightarrow> chain_error + (group_id \<times> peer_id \<times> verified)" where
  "check_genesis E e =
     bindE (guardE (entry_wire_len e \<le> MAX_ENTRY_BYTES) (TooLarge 0 (entry_wire_len e))) (\<lambda>_.
     bindE (entry_body_of E e) (\<lambda>body.
     bindE (guardE (eb_seq body = 0) (OutOfOrder 0 (eb_seq body))) (\<lambda>_.
     bindE (guardE (eb_prev body = NO_PARENT \<and> eb_group body = GROUP_ZERO) MalformedGenesis) (\<lambda>_.
       case eb_op body of
         Create admin nonce name \<Rightarrow>
           bindE (check_name name 0) (\<lambda>_.
           bindE (parse_peer_at E admin 0) (\<lambda>admin.
           bindE (verify_signature E e admin 0) (\<lambda>_.
             Inr (of_genesis E (e_body e), admin,
                  \<lparr>v_entry = e, v_body = body, v_hash = entry_hash_of E e\<rparr>))))
       | _ \<Rightarrow> Inl NoGenesis))))"

definition check_op :: "env \<Rightarrow> chain \<Rightarrow> nat \<Rightarrow> op \<Rightarrow> chain_error + unit" where
  "check_op E c seq x =
     (case x of
        Create _ _ _ \<Rightarrow> Inl (SecondGenesis seq)
      | Add s \<Rightarrow>
          bindE (parse_peer_at E s seq) (\<lambda>p.
            guardE (public_key_of E p \<noteq> None) (UnusablePeer seq (to_base58 E p)))
      | Remove s \<Rightarrow>
          bindE (parse_peer_at E s seq) (\<lambda>p.
          bindE (guardE (p \<noteq> ch_admin c) (SelfRemoval seq)) (\<lambda>_.
            guardE (members_contains (chain_fold E c) p) (NotAMember seq (to_base58 E p)))))"

definition check_next :: "env \<Rightarrow> chain \<Rightarrow> entry \<Rightarrow> chain_error + verified" where
  "check_next E c e =
     bindE (guardE (entry_wire_len e \<le> MAX_ENTRY_BYTES) (TooLarge (chain_len c) (entry_wire_len e))) (\<lambda>_.
     bindE (entry_body_of E e) (\<lambda>body.
     bindE (guardE (eb_seq body = chain_len c) (OutOfOrder (chain_len c) (eb_seq body))) (\<lambda>_.
     bindE (guardE (eb_group body = ch_id c) (WrongGroup (eb_seq body) (eb_group body))) (\<lambda>_.
     bindE (guardE (eb_prev body = chain_head c) (BrokenLink (eb_seq body))) (\<lambda>_.
     bindE (verify_signature E e (ch_admin c) (eb_seq body)) (\<lambda>_.
     bindE (check_op E c (eb_seq body) (eb_op body)) (\<lambda>_.
       Inr \<lparr>v_entry = e, v_body = body, v_hash = entry_hash_of E e\<rparr>)))))))"

section \<open>Building and growing a chain\<close>

text \<open>The loop of \<open>extend\<close>: \<open>view\<close> is the working copy, the second component what was staged.\<close>

definition chain_push :: "chain \<Rightarrow> verified \<Rightarrow> chain" where
  "chain_push c v = c\<lparr>ch_entries := ch_entries c @ [v]\<rparr>"

fun extend_loop :: "env \<Rightarrow> chain \<Rightarrow> verified list \<Rightarrow> entry list \<Rightarrow> chain_error + verified list" where
  "extend_loop E view staged [] = Inr staged"
| "extend_loop E view staged (e # es) =
     bindE (check_next E view e) (\<lambda>v. extend_loop E (chain_push view v) (staged @ [v]) es)"

definition chain_extend :: "env \<Rightarrow> chain \<Rightarrow> entry list \<Rightarrow> (chain_error + nat) \<times> chain" where
  "chain_extend E c es =
     (case extend_loop E c [] es of
        Inl err \<Rightarrow> (Inl err, c)
      | Inr staged \<Rightarrow> (Inr (length staged), c\<lparr>ch_entries := ch_entries c @ staged\<rparr>))"

definition chain_load :: "env \<Rightarrow> entry list \<Rightarrow> chain_error + chain" where
  "chain_load E es =
     (case es of
        [] \<Rightarrow> Inl NoGenesis
      | g # rest \<Rightarrow>
          bindE (check_genesis E g) (\<lambda>(i, adm, v).
            let (r, c) = chain_extend E \<lparr>ch_id = i, ch_admin = adm, ch_entries = [v]\<rparr> rest
            in bindE r (\<lambda>_. Inr c)))"

definition chain_create :: "env \<Rightarrow> keypair \<Rightarrow> string \<Rightarrow> bytes \<Rightarrow> int \<Rightarrow> chain_error + chain" where
  "chain_create E key name nonce at =
     (let adm = peer_of_key E key;
          body = \<lparr>eb_group = GROUP_ZERO, eb_seq = 0, eb_prev = NO_PARENT, eb_at = at,
                  eb_op = Create (to_base58 E adm) nonce name\<rparr>
      in bindE (entry_sign E key body) (\<lambda>e. chain_load E [e]))"

definition chain_author :: "env \<Rightarrow> keypair \<Rightarrow> op \<Rightarrow> int \<Rightarrow> chain \<Rightarrow> (chain_error + entry) \<times> chain" where
  "chain_author E key x at c =
     (if peer_of_key E key \<noteq> ch_admin c then (Inl NotAdmin, c)
      else
        let body = \<lparr>eb_group = ch_id c, eb_seq = chain_len c, eb_prev = chain_head c, eb_at = at,
                    eb_op = x\<rparr>
        in case entry_sign E key body of
             Inl err \<Rightarrow> (Inl err, c)
           | Inr e \<Rightarrow>
               (case chain_extend E c [e] of
                  (Inl err, c') \<Rightarrow> (Inl err, c')
                | (Inr _, c') \<Rightarrow> (Inr e, c')))"

end
