(* ===== verification/ChainProps.thy ===== *)
theory ChainProps
  imports Chain
begin

text \<open>
  Lemmas on the membership log: \<open>chain_ok\<close> is the set of chains the rules can build, \<open>load\<close>
  and \<open>extend\<close> are the runs of \<open>check_next\<close>, and every invariant is a rule induction over
  \<open>chain_ok\<close>.
\<close>

named_theorems chain_facts \<open>what a checked entry satisfies\<close>

section \<open>Runs of the rule for the next entry\<close>

fun chain_steps :: "env \<Rightarrow> chain \<Rightarrow> entry list \<Rightarrow> chain_error + chain" where
  "chain_steps E c [] = Inr c"
| "chain_steps E c (e # es) = bindE (check_next E c e) (\<lambda>v. chain_steps E (chain_push c v) es)"

lemma chain_push_simps [simp]:
  "ch_id (chain_push c v) = ch_id c"
  "ch_admin (chain_push c v) = ch_admin c"
  "ch_entries (chain_push c v) = ch_entries c @ [v]"
  by (simp_all add: chain_push_def)

lemma check_next_entry [chain_facts]: "check_next E c e = Inr v \<Longrightarrow> v_entry v = e"
  by (auto simp: check_next_def bindE_Inr_iff)

lemma chain_steps_grow:
  "chain_steps E c es = Inr c' \<Longrightarrow>
     \<exists>vs. c' = c\<lparr>ch_entries := ch_entries c @ vs\<rparr> \<and> map v_entry vs = es"
proof (induction E c es rule: chain_steps.induct)
  case (2 E c e es)
  from "2.prems" obtain v where v: "check_next E c e = Inr v"
    and r: "chain_steps E (chain_push c v) es = Inr c'"
    by (auto simp: bindE_Inr_iff)
  from "2.IH" [OF r] obtain vs where "c' = c\<lparr>ch_entries := ch_entries c @ v # vs\<rparr>"
    and "map v_entry vs = es"
    by (auto simp: chain_push_def)
  with v show ?case by (intro exI [of _ "v # vs"]) (simp add: check_next_entry)
qed auto

lemma chain_steps_append:
  "chain_steps E c (xs @ ys) = bindE (chain_steps E c xs) (\<lambda>c'. chain_steps E c' ys)"
  by (induction E c xs rule: chain_steps.induct) (auto simp: bindE_def split: sum.splits)

lemma extend_loop_steps:
  "extend_loop E c st es =
     bindE (chain_steps E c es) (\<lambda>c'. Inr (st @ drop (length (ch_entries c)) (ch_entries c')))"
proof (induction E c st es rule: extend_loop.induct)
  case (2 E c st e es)
  show ?case
  proof (cases "check_next E c e")
    case (Inr v)
    have "drop (length (ch_entries c)) (ch_entries c')
            = v # drop (Suc (length (ch_entries c))) (ch_entries c')"
      if "chain_steps E (chain_push c v) es = Inr c'" for c'
      using chain_steps_grow [OF that] by auto
    with 2 [of v] Inr show ?thesis
      by (cases "chain_steps E (chain_push c v) es") auto
  qed simp
qed simp

lemma chain_extend_steps:
  "chain_extend E c es =
     (case chain_steps E c es of Inl err \<Rightarrow> (Inl err, c) | Inr c' \<Rightarrow> (Inr (length es), c'))"
proof (cases "chain_steps E c es")
  case (Inr c')
  from chain_steps_grow [OF Inr] obtain vs where
    "c' = c\<lparr>ch_entries := ch_entries c @ vs\<rparr>" "map v_entry vs = es" by blast
  with Inr show ?thesis by (auto simp: chain_extend_def extend_loop_steps)
qed (simp add: chain_extend_def extend_loop_steps)

lemma chain_load_steps:
  "chain_load E (g # rest) =
     bindE (check_genesis E g) (\<lambda>(i, adm, v).
       chain_steps E \<lparr>ch_id = i, ch_admin = adm, ch_entries = [v]\<rparr> rest)"
  by (auto simp: chain_load_def chain_extend_steps bindE_def split: sum.splits)

lemma chain_load_Nil [simp]: "chain_load E [] = Inl NoGenesis"
  by (simp add: chain_load_def)

section \<open>The chains the rules can build\<close>

inductive chain_ok :: "env \<Rightarrow> chain \<Rightarrow> bool" for E where
  genesis: "check_genesis E e = Inr (i, adm, v) \<Longrightarrow>
    chain_ok E \<lparr>ch_id = i, ch_admin = adm, ch_entries = [v]\<rparr>"
| push: "chain_ok E c \<Longrightarrow> check_next E c e = Inr v \<Longrightarrow> chain_ok E (chain_push c v)"

lemma chain_ok_steps: "chain_ok E c \<Longrightarrow> chain_steps E c es = Inr c' \<Longrightarrow> chain_ok E c'"
  by (induction E c es rule: chain_steps.induct) (auto simp: bindE_Inr_iff intro: chain_ok.push)

lemma check_genesis_iff:
  "check_genesis E e = Inr (i, adm, v) \<longleftrightarrow>
     (\<exists>body a n name key. entry_wire_len e \<le> MAX_ENTRY_BYTES \<and> dec_entry E (e_body e) = Some body
        \<and> eb_seq body = 0 \<and> eb_prev body = NO_PARENT \<and> eb_group body = GROUP_ZERO
        \<and> eb_op body = Create a n name \<and> name \<noteq> [] \<and> length name \<le> MAX_NAME_LEN
        \<and> parse_peer E a = Some adm \<and> public_key_of E adm = Some key
        \<and> verifies E key (e_body e) (e_signature e)
        \<and> i = of_genesis E (e_body e)
        \<and> v = \<lparr>v_entry = e, v_body = body, v_hash = entry_hash_of E e\<rparr>)"
proof (cases "dec_entry E (e_body e)")
  case (Some body)
  then show ?thesis
    by (cases "eb_op body")
      (auto simp: check_genesis_def entry_body_of_def check_name_def parse_peer_at_def
        verify_signature_def bindE_Inr_iff)
qed (auto simp: check_genesis_def entry_body_of_def bindE_Inr_iff)

text \<open>When an entry may follow a chain: the declarative form of the rules.\<close>

definition op_allowed :: "env \<Rightarrow> chain \<Rightarrow> op \<Rightarrow> bool" where
  "op_allowed E c x \<longleftrightarrow>
     (case x of
        Create _ _ _ \<Rightarrow> False
      | Add s \<Rightarrow> (case parse_peer E s of Some p \<Rightarrow> public_key_of E p \<noteq> None | None \<Rightarrow> False)
      | Remove s \<Rightarrow>
          (case parse_peer E s of
             Some p \<Rightarrow> p \<noteq> ch_admin c \<and> members_contains (chain_fold E c) p
           | None \<Rightarrow> False))"

definition signed_by :: "env \<Rightarrow> peer_id \<Rightarrow> entry \<Rightarrow> bool" where
  "signed_by E p e \<longleftrightarrow>
     (case public_key_of E p of
        Some key \<Rightarrow> verifies E key (e_body e) (e_signature e)
      | None \<Rightarrow> False)"

lemma check_op_iff: "check_op E c seq x = Inr u \<longleftrightarrow> op_allowed E c x"
  by (auto simp: check_op_def op_allowed_def parse_peer_at_def bindE_Inr_iff split: op.splits option.splits)

lemma verify_signature_iff: "verify_signature E e p n = Inr u \<longleftrightarrow> signed_by E p e"
  by (auto simp: verify_signature_def signed_by_def bindE_Inr_iff split: option.splits)

lemma check_next_iff:
  "check_next E c e = Inr v \<longleftrightarrow>
     (\<exists>body. entry_wire_len e \<le> MAX_ENTRY_BYTES \<and> dec_entry E (e_body e) = Some body
        \<and> eb_seq body = chain_len c \<and> eb_group body = ch_id c \<and> eb_prev body = chain_head c
        \<and> signed_by E (ch_admin c) e \<and> op_allowed E c (eb_op body)
        \<and> v = \<lparr>v_entry = e, v_body = body, v_hash = entry_hash_of E e\<rparr>)"
  by (auto simp: check_next_def entry_body_of_def bindE_Inr_iff check_op_iff verify_signature_iff)

lemma check_genesis_entry [chain_facts]:
  "check_genesis E e = Inr (i, adm, v) \<Longrightarrow> v_entry v = e"
  by (auto simp: check_genesis_iff)

lemma chain_load_ok: "chain_load E es = Inr c \<Longrightarrow> chain_ok E c \<and> chain_entries c = es"
proof (cases es)
  case (Cons g rest)
  assume "chain_load E es = Inr c"
  with Cons obtain i adm v where g: "check_genesis E g = Inr (i, adm, v)"
    and r: "chain_steps E \<lparr>ch_id = i, ch_admin = adm, ch_entries = [v]\<rparr> rest = Inr c"
    by (auto simp: chain_load_steps bindE_Inr_iff)
  from chain_steps_grow [OF r] Cons check_genesis_entry [OF g] have "chain_entries c = es"
    by (auto simp: chain_entries_def)
  with chain_ok_steps [OF chain_ok.genesis [OF g] r] show ?thesis by simp
qed simp

lemma chain_load_genesis:
  assumes "check_genesis E e = Inr (i, adm, v)"
  shows "chain_load E [e] = Inr \<lparr>ch_id = i, ch_admin = adm, ch_entries = [v]\<rparr>"
  using assms by (simp add: chain_load_steps)

lemma chain_load_snoc:
  assumes "chain_load E es = Inr c" "check_next E c e = Inr v"
  shows "chain_load E (es @ [e]) = Inr (chain_push c v)"
proof -
  from assms(1) obtain g rest where es: "es = g # rest" by (cases es) auto
  show ?thesis
    using assms unfolding es append_Cons chain_load_steps
    by (auto simp: bindE_Inr_iff chain_steps_append)
qed

lemma chain_ok_load: "chain_ok E c \<Longrightarrow> chain_load E (chain_entries c) = Inr c"
proof (induction rule: chain_ok.induct)
  case (genesis e i adm v)
  then show ?case by (simp add: chain_entries_def chain_load_genesis check_genesis_entry)
next
  case (push c e v)
  from chain_load_snoc [OF push.IH push.hyps(2)] check_next_entry [OF push.hyps(2)]
  show ?case by (simp add: chain_entries_def)
qed

lemma chain_load_iff: "chain_load E es = Inr c \<longleftrightarrow> chain_ok E c \<and> chain_entries c = es"
  using chain_load_ok chain_ok_load by blast

lemma chain_load_append:
  assumes "chain_load E xs = Inr c"
  shows "chain_load E (xs @ ys) = bindE (chain_steps E c ys) Inr"
proof -
  from assms obtain g rest where xs: "xs = g # rest" by (cases xs) auto
  show ?thesis
    using assms unfolding xs append_Cons chain_load_steps
    by (auto simp: bindE_Inr_iff chain_steps_append bindE_def split: sum.splits)
qed

lemma chain_extend_ok:
  "chain_ok E c \<Longrightarrow> chain_extend E c es = (r, c') \<Longrightarrow> chain_ok E c'"
  by (auto simp: chain_extend_steps split: sum.splits intro: chain_ok_steps)

section \<open>Invariants\<close>

lemma fold_from_append: "fold_from E m (xs @ ys) = fold_from E (fold_from E m xs) ys"
  by (induction xs arbitrary: m) auto

lemma chain_fold_push [simp]:
  "chain_fold E (chain_push c v) = apply_op E (eb_op (v_body v)) (chain_fold E c)"
  by (simp add: chain_fold_def fold_from_append)

lemma members_inv_apply_op [simp]: "members_inv m \<Longrightarrow> members_inv (apply_op E x m)"
  by (auto simp: apply_op_def split: op.splits option.splits)

lemma members_inv_fold_from: "members_inv m \<Longrightarrow> members_inv (fold_from E m vs)"
  by (induction vs arbitrary: m) auto

lemma members_inv_fold [simp]: "members_inv (chain_fold E c)"
  by (simp add: chain_fold_def members_inv_fold_from)

lemma chain_ok_nonempty: "chain_ok E c \<Longrightarrow> ch_entries c \<noteq> []"
  by (induction rule: chain_ok.induct) auto

lemma chain_head_push [simp]: "chain_head (chain_push c v) = v_hash v"
  by (simp add: chain_head_def)

lemma chain_head_last: "ch_entries c \<noteq> [] \<Longrightarrow> chain_head c = v_hash (last (ch_entries c))"
  by (cases "ch_entries c" rule: rev_cases) (auto simp: chain_head_def)

text \<open>Every entry holds what it decodes to, its position, its link and the admin's signature.\<close>

definition entry_fits :: "env \<Rightarrow> chain \<Rightarrow> nat \<Rightarrow> bool" where
  "entry_fits E c i \<longleftrightarrow>
     (let v = ch_entries c ! i in
        dec_entry E (e_body (v_entry v)) = Some (v_body v)
        \<and> v_hash v = of_body E (e_body (v_entry v))
        \<and> eb_seq (v_body v) = i
        \<and> entry_wire_len (v_entry v) \<le> MAX_ENTRY_BYTES
        \<and> signed_by E (ch_admin c) (v_entry v)
        \<and> (if i = 0
            then eb_prev (v_body v) = NO_PARENT \<and> eb_group (v_body v) = GROUP_ZERO
                 \<and> ch_id c = of_genesis E (e_body (v_entry v))
            else eb_prev (v_body v) = v_hash (ch_entries c ! (i - 1)) \<and> eb_group (v_body v) = ch_id c))"

lemma entry_fits_push:
  "i < length (ch_entries c) \<Longrightarrow> entry_fits E (chain_push c v) i \<longleftrightarrow> entry_fits E c i"
  by (auto simp: entry_fits_def Let_def nth_append)

lemma chain_ok_entry_fits: "chain_ok E c \<Longrightarrow> i < chain_len c \<Longrightarrow> entry_fits E c i"
proof (induction arbitrary: i rule: chain_ok.induct)
  case (genesis e gid adm v)
  then show ?case
    by (auto simp: check_genesis_iff entry_fits_def chain_len_def signed_by_def entry_hash_of_def)
next
  case (push c e v)
  have ne: "ch_entries c \<noteq> []" using push.hyps(1) by (rule chain_ok_nonempty)
  show ?case
  proof (cases "i < length (ch_entries c)")
    case True
    with push.IH show ?thesis by (simp add: entry_fits_push chain_len_def)
  next
    case False
    with push.prems have "i = length (ch_entries c)" by (simp add: chain_len_def)
    with push.hyps(2) ne show ?thesis
      by (auto simp: check_next_iff entry_fits_def Let_def chain_len_def chain_head_last
          last_conv_nth entry_hash_of_def nth_append)
  qed
qed

text \<open>The admin is a member for good, and the only member marked as admin.\<close>

lemma get_insert:
  "members_inv m \<Longrightarrow> map_of (members_insert p a m) q =
     (if q = p \<and> \<not> members_contains m p
      then Some \<lparr>m_peer = p, m_username = None, m_is_admin = a\<rparr> else map_of m q)"
  by (auto simp: members_insert_def members_contains_def om_has_def om_simps split: option.splits)

lemma get_remove: "map_of (snd (members_remove p m)) q = (if q = p then None else map_of m q)"
  by (simp add: members_remove_def om_simps)

lemma chain_ok_admin:
  "chain_ok E c \<Longrightarrow> members_contains (chain_fold E c) (ch_admin c)
     \<and> (\<forall>p x. map_of (chain_fold E c) p = Some x \<longrightarrow> (m_is_admin x \<longleftrightarrow> p = ch_admin c))"
proof (induction rule: chain_ok.induct)
  case (genesis e gid adm v)
  then show ?case
    by (auto simp: check_genesis_iff chain_fold_def apply_op_def get_insert split: if_splits)
next
  case (push c e v)
  then have "op_allowed E c (eb_op (v_body v))" by (auto simp: check_next_iff)
  with push.IH show ?case
    by (auto simp: op_allowed_def apply_op_def get_insert get_remove
        split: op.splits option.splits if_splits)
qed

text \<open>The name is the genesis entry's, never empty and at most 64 bytes.\<close>

lemma chain_name_push: "chain_ok E c \<Longrightarrow> chain_name (chain_push c v) = chain_name c"
  using chain_ok_nonempty [of E c] by (auto simp: chain_name_def neq_Nil_conv)

lemma chain_ok_name: "chain_ok E c \<Longrightarrow> chain_name c \<noteq> [] \<and> length (chain_name c) \<le> MAX_NAME_LEN"
proof (induction rule: chain_ok.induct)
  case (genesis e gid adm v)
  then show ?case by (auto simp: check_genesis_iff chain_name_def)
qed (simp add: chain_name_push)

section \<open>Departures\<close>

text \<open>Whether an operation brings a peer in (\<open>Create\<close>, \<open>Add\<close>) or takes it out.\<close>

definition op_adds :: "env \<Rightarrow> peer_id \<Rightarrow> op \<Rightarrow> bool" where
  "op_adds E p x \<longleftrightarrow>
     (case x of
        Create a _ _ \<Rightarrow> parse_peer E a = Some p
      | Add s \<Rightarrow> parse_peer E s = Some p
      | Remove s \<Rightarrow> False)"

definition op_removes :: "env \<Rightarrow> peer_id \<Rightarrow> op \<Rightarrow> bool" where
  "op_removes E p x \<longleftrightarrow> (case x of Remove s \<Rightarrow> parse_peer E s = Some p | _ \<Rightarrow> False)"

definition ever_member :: "env \<Rightarrow> chain \<Rightarrow> peer_id \<Rightarrow> bool" where
  "ever_member E c p \<longleftrightarrow> (\<exists>v \<in> set (ch_entries c). op_adds E p (eb_op (v_body v)))"

lemma contains_apply_op:
  "members_inv m \<Longrightarrow> members_contains (apply_op E x m) p \<longleftrightarrow>
     op_adds E p x \<or> (members_contains m p \<and> \<not> op_removes E p x)"
  by (auto simp: apply_op_def op_adds_def op_removes_def split: op.splits option.splits)

lemma departure_scan_append:
  "departure_scan E w i acc (xs @ ys) = departure_scan E w (i + length xs) (departure_scan E w i acc xs) ys"
  by (induction xs arbitrary: i acc) auto

lemma departure_push:
  "base58_ok E \<Longrightarrow> departure_seq E (chain_push c v) p =
     (if op_adds E p (eb_op (v_body v)) then None
      else if op_removes E p (eb_op (v_body v)) then Some (chain_len c)
      else departure_seq E c p)"
  by (auto simp: departure_seq_def departure_scan_append op_adds_def op_removes_def chain_len_def
      base58_iff split: op.splits)

text \<open>Outside iff never in, or removed by the entry \<open>departure_seq\<close> names.\<close>

lemma departure_iff:
  assumes "base58_ok E" "chain_ok E c"
  shows "members_contains (chain_fold E c) p \<longleftrightarrow> ever_member E c p \<and> departure_seq E c p = None"
  using assms(2)
proof (induction rule: chain_ok.induct)
  case (genesis e gid adm v)
  then show ?case
    using assms(1)
    by (auto simp: chain_fold_def contains_apply_op ever_member_def departure_seq_def op_adds_def
        base58_iff check_genesis_iff)
next
  case (push c e v)
  then show ?case
    by (auto simp: contains_apply_op departure_push [OF assms(1)] ever_member_def)
qed

text \<open>The entry \<open>departure_seq\<close> names is the removal, and nothing after it brings the peer back.\<close>

lemma departure_entry:
  assumes "base58_ok E" "chain_ok E c" "departure_seq E c p = Some i"
  shows "i < chain_len c \<and> op_removes E p (eb_op (v_body (ch_entries c ! i)))
     \<and> (\<forall>j. i < j \<and> j < chain_len c \<longrightarrow> \<not> op_adds E p (eb_op (v_body (ch_entries c ! j))))"
  using assms(2,3)
proof (induction rule: chain_ok.induct)
  case (genesis e gid adm v)
  then show ?case by (auto simp: departure_seq_def check_genesis_iff split: if_splits)
next
  case (push c e v)
  show ?case
  proof (cases "departure_seq E c p = Some i \<and> \<not> op_adds E p (eb_op (v_body v))
      \<and> \<not> op_removes E p (eb_op (v_body v))")
    case True
    with push.IH show ?thesis by (auto simp: chain_len_def nth_append less_Suc_eq)
  next
    case False
    with push.prems have "op_removes E p (eb_op (v_body v)) \<and> i = chain_len c"
      by (auto simp: departure_push [OF assms(1)] split: if_splits)
    then show ?thesis by (auto simp: chain_len_def)
  qed
qed

section \<open>The head commits to the history\<close>

definition bodies :: "chain \<Rightarrow> bytes list" where
  "bodies c = map (\<lambda>v. e_body (v_entry v)) (ch_entries c)"

lemma hash_at_body:
  "chain_ok E c \<Longrightarrow> i < chain_len c \<Longrightarrow> hash_at c i = Some (of_body E (bodies c ! i))"
  using chain_ok_entry_fits [of E c i]
  by (auto simp: hash_at_def entry_fits_def Let_def bodies_def chain_len_def)

lemma same_hash_same_prefix:
  assumes inj: "inj (sha256 E)" and c: "chain_ok E c" and d: "chain_ok E d"
  shows "i < chain_len c \<Longrightarrow> j < chain_len d \<Longrightarrow> hash_at c i = hash_at d j \<Longrightarrow>
    i = j \<and> take (Suc i) (bodies c) = take (Suc i) (bodies d)"
proof (induction i arbitrary: j)
  case 0
  then have b: "bodies c ! 0 = bodies d ! j"
    by (simp add: hash_at_body [OF c] hash_at_body [OF d] of_body_inj [OF inj])
  with 0 chain_ok_entry_fits [OF c "0.prems"(1)] chain_ok_entry_fits [OF d "0.prems"(2)]
  have "j = 0" by (auto simp: entry_fits_def Let_def bodies_def chain_len_def)
  with b 0 show ?case by (simp add: take_Suc_conv_app_nth bodies_def chain_len_def)
next
  case (Suc i)
  then have b: "bodies c ! Suc i = bodies d ! j"
    by (simp add: hash_at_body [OF c] hash_at_body [OF d] of_body_inj [OF inj])
  note fits = chain_ok_entry_fits [OF c Suc.prems(1)] chain_ok_entry_fits [OF d Suc.prems(2)]
  with b Suc.prems have body: "v_body (ch_entries c ! Suc i) = v_body (ch_entries d ! j)"
    by (auto simp: entry_fits_def Let_def bodies_def chain_len_def)
  with fits have j: "j = Suc i" by (auto simp: entry_fits_def Let_def)
  with fits body Suc.prems have "hash_at c i = hash_at d i"
    by (auto simp: entry_fits_def Let_def hash_at_def chain_len_def)
  with Suc.IH [of i] Suc.prems j have "take (Suc i) (bodies c) = take (Suc i) (bodies d)" by simp
  with b j Suc.prems show ?case
    by (simp add: take_Suc_conv_app_nth [of "Suc i"] bodies_def chain_len_def)
qed

section \<open>Authoring\<close>

lemma chain_author_ok:
  assumes "chain_ok E c" "chain_author E key x at c = (r, c')"
  shows "chain_ok E c'
    \<and> (\<forall>err. r = Inl err \<longrightarrow> c' = c)
    \<and> (\<forall>e. r = Inr e \<longrightarrow> chain_entries c' = chain_entries c @ [e])"
  using assms
  by (auto simp: chain_author_def Let_def chain_extend_steps bindE_def chain_entries_def check_next_entry
      split: if_splits sum.splits intro: chain_ok.push)

text \<open>What the admin signs is accepted: authoring fails only on what it cannot encode or sign,
  on size, or on an operation the rules refuse.\<close>

lemma chain_author_accepts:
  assumes "cbor_ok E" "sign_ok E" "peer_of_key E key = ch_admin c"
    and enc: "enc_entry E \<lparr>eb_group = ch_id c, eb_seq = chain_len c, eb_prev = chain_head c,
                 eb_at = at, eb_op = x\<rparr> = Some bs" (is "enc_entry E ?body = _")
    and sig: "sign_bytes E key bs = Some sg"
    and small: "length bs + length sg \<le> MAX_ENTRY_BYTES"
    and allowed: "op_allowed E c x"
  shows "\<exists>v. chain_author E key x at c = (Inr \<lparr>e_body = bs, e_signature = sg\<rparr>, chain_push c v)
     \<and> v_body v = ?body"
proof -
  let ?e = "\<lparr>e_body = bs, e_signature = sg\<rparr>"
  from assms(1) enc have "dec_entry E bs = Some ?body" by (rule cbor_entry)
  moreover from assms(2,3) sig have "signed_by E (ch_admin c) ?e"
    by (force simp: sign_ok_def signed_by_def)
  ultimately obtain v where "check_next E c ?e = Inr v" and "v_body v = ?body"
    using small allowed by (auto simp: check_next_iff entry_wire_len_def)
  with assms show ?thesis
    by (auto simp: chain_author_def entry_sign_def Let_def entry_wire_len_def chain_extend_steps)
qed

end
