(* ===== verification/Username.thy ===== *)
theory Username
  imports Text
begin

text \<open>
  Usernames: \<open>normalise_username\<close> of \<open>crates/ac-net/src/attest.rs\<close>, which the server applies at
  enrolment and every node applies to the name in a standing.
\<close>

definition USERNAME_MIN_LEN :: nat where "USERNAME_MIN_LEN = 3"

definition USERNAME_MAX_LEN :: nat where "USERNAME_MAX_LEN = 32"

datatype username_error = UserTooShort | UserTooLong | UserBadCharacter | UserBadStart

definition username_char :: "char \<Rightarrow> bool" where
  "username_char c \<longleftrightarrow> is_ascii_alphanumeric c \<or> c = CHR ''-'' \<or> c = CHR ''_''"

definition normalise_username :: "string \<Rightarrow> username_error + string" where
  "normalise_username raw =
     (let name = to_lowercase (trim raw) in
      if length name < USERNAME_MIN_LEN then Inl UserTooShort
      else if USERNAME_MAX_LEN < length name then Inl UserTooLong
      else if \<not> list_all username_char name then Inl UserBadCharacter
      else if \<not> (case name of c # _ \<Rightarrow> is_ascii_alphanumeric c | [] \<Rightarrow> False) then Inl UserBadStart
      else Inr name)"

definition plain_text :: "string \<Rightarrow> bool" where
  "plain_text s \<longleftrightarrow> (\<forall>c \<in> set s. 32 < code c \<and> code c < 128 \<and> \<not> is_ascii_upper c)"

lemma white_space_bytes: "\<forall>w \<in> set white_space. w \<noteq> [] \<and> (\<forall>c \<in> set w. code c \<le> 32 \<or> 128 \<le> code c)"
  by (simp add: white_space_def)

lemma strip_any_plain:
  assumes "\<forall>w \<in> set ws. w \<noteq> [] \<and> (\<forall>c \<in> set w. code c \<le> 32 \<or> 128 \<le> code c)"
    and "\<forall>c \<in> set s. 32 < code c \<and> code c < 128"
  shows "strip_any ws s = None"
proof -
  have "s \<noteq> w @ r" if "w \<in> set ws" for w r
  proof
    assume "s = w @ r"
    with assms that have "hd w \<in> set w" "hd w \<in> set s" by auto
    with assms that show False by (metis leD)
  qed
  then show ?thesis by (simp add: strip_any_None)
qed

lemma trim_plain: "plain_text s \<Longrightarrow> trim s = s"
  unfolding trim_def using white_space_bytes
  by (intro trim_with_id strip_any_plain) (auto simp: plain_text_def)

lemma lowercase_plain: "plain_text s \<Longrightarrow> to_lowercase s = s"
  by (induction s rule: to_lowercase.induct) (auto simp: plain_text_def)

lemma lowercase_no_upper: "c \<in> set (to_lowercase s) \<Longrightarrow> \<not> is_ascii_upper c"
proof (induction s rule: to_lowercase.induct)
  case (2 d s)
  have "\<not> is_ascii_upper (byte (code d + 32))" if "is_ascii_upper d"
    using that by (simp add: is_ascii_upper_def)
  moreover have "\<not> is_ascii_upper (CHR ''k'')" by (simp add: is_ascii_upper_def code_def)
  ultimately show ?case using 2 by (auto split: if_splits)
qed simp

lemma username_char_code: "username_char c \<Longrightarrow> 32 < code c \<and> code c < 128"
  by (auto simp: username_char_def is_ascii_alphanumeric_def is_ascii_lower_def is_ascii_upper_def
      is_ascii_digit_def code_def)

lemma normalise_username_shape:
  "normalise_username raw = Inr n \<Longrightarrow>
     3 \<le> length n \<and> length n \<le> 32 \<and> list_all username_char n \<and> plain_text n
     \<and> is_ascii_alphanumeric (hd n)"
  using lowercase_no_upper [of _ "trim raw"]
  by (auto simp: normalise_username_def Let_def USERNAME_MIN_LEN_def USERNAME_MAX_LEN_def
      plain_text_def list_all_iff username_char_code
      split: if_splits list.splits)

text \<open>Normalising twice changes nothing: what the server stored is what a node accepts.\<close>

lemma normalise_username_idem:
  assumes "normalise_username raw = Inr n" shows "normalise_username n = Inr n"
proof -
  from normalise_username_shape [OF assms] have "to_lowercase (trim n) = n"
    by (simp add: trim_plain lowercase_plain)
  with normalise_username_shape [OF assms] show ?thesis
    by (cases n) (auto simp: normalise_username_def Let_def USERNAME_MIN_LEN_def USERNAME_MAX_LEN_def)
qed

end
