(* ===== verification/Merge.thy ===== *)
theory Merge
  imports Prelude "HOL-Library.Multiset"
begin

text \<open>
  The convergence contract: a state updated by statements that commute and absorb repetition
  reaches the same value whatever order and however often the statements arrive. The group
  layer's standings and the file layer's catalogue rows are measured against it.
\<close>

locale order_free =
  fixes step :: "'u \<Rightarrow> 's \<Rightarrow> 's"
    and compat :: "'u \<Rightarrow> 'u \<Rightarrow> bool"
  assumes commute: "compat x y \<Longrightarrow> step x (step y s) = step y (step x s)"
    and absorb: "step x (step x s) = step x s"
begin

lemma fold_perm:
  assumes "\<And>x y. x \<in> set xs \<Longrightarrow> y \<in> set xs \<Longrightarrow> compat x y" and "mset xs = mset ys"
  shows "fold step xs s = fold step ys s"
  using assms by (intro fun_cong [OF fold_multiset_equiv]) (auto simp: commute)

lemma fold_absorb:
  assumes "\<And>x y. x \<in> set xs \<Longrightarrow> y \<in> set xs \<Longrightarrow> compat x y" and "x \<in> set xs"
  shows "fold step xs (step x s) = fold step xs s"
  using assms
proof (induction xs arbitrary: s)
  case (Cons y xs)
  show ?case
  proof (cases "x = y")
    case True
    then show ?thesis by (simp add: absorb)
  next
    case False
    with Cons.prems(2) have "x \<in> set xs" by simp
    then have "fold step xs (step x (step y s)) = fold step xs (step y s)"
      using Cons.prems(1) by (intro Cons.IH) auto
    moreover have "step y (step x s) = step x (step y s)"
      using Cons.prems by (intro commute) auto
    ultimately show ?thesis by simp
  qed
qed simp

lemma fold_remdups:
  assumes "\<And>x y. x \<in> set xs \<Longrightarrow> y \<in> set xs \<Longrightarrow> compat x y"
  shows "fold step (remdups xs) s = fold step xs s"
  using assms
proof (induction xs arbitrary: s)
  case (Cons x xs)
  have sub: "\<And>a b. a \<in> set xs \<Longrightarrow> b \<in> set xs \<Longrightarrow> compat a b" using Cons.prems by simp
  show ?case
  proof (cases "x \<in> set xs")
    case True
    then show ?thesis using Cons.IH [OF sub] fold_absorb [where x = x and s = s, OF sub] by simp
  next
    case False
    then show ?thesis using Cons.IH [OF sub] by simp
  qed
qed simp

text \<open>Only the set of statements received matters.\<close>

lemma fold_set_eq:
  assumes "\<And>x y. x \<in> set xs \<Longrightarrow> y \<in> set xs \<Longrightarrow> compat x y" and "set xs = set ys"
  shows "fold step xs s = fold step ys s"
proof -
  have c: "\<And>x y. x \<in> set ys \<Longrightarrow> y \<in> set ys \<Longrightarrow> compat x y" using assms by simp
  have "mset (remdups xs) = mset (remdups ys)"
    using assms(2) by (simp add: set_eq_iff_mset_remdups_eq [symmetric])
  then have "fold step (remdups xs) s = fold step (remdups ys) s"
    using assms(1) by (intro fold_perm) auto
  then show ?thesis using fold_remdups [OF assms(1)] fold_remdups [OF c] by simp
qed

end

end
