(* ===== verification/Standing.thy ===== *)
theory Standing
  imports Members Username Merge
begin

text \<open>
  \<open>crates/ac-groups/src/standing.rs\<close>: a member's signed word about itself, its checks, and the
  set that keeps the winning statement of each peer; and the parts of \<open>members.rs\<close> that read
  that set.
\<close>

datatype standing_error =
    SMalformed
  | SEncode
  | SSigning
  | STooLarge nat
  | SUnparseablePeer
  | SSubjectKey string
  | SBadSignature
  | SWrongGroup group_id
  | SBadUsername

fun position_tag :: "position \<Rightarrow> 8 word" where
  "position_tag Unanswered = 0"
| "position_tag In = 1"
| "position_tag Out = 2"

fun is_departure :: "position \<Rightarrow> bool" where
  "is_departure Out = True"
| "is_departure _ = False"

definition map_err :: "('e \<Rightarrow> 'f) \<Rightarrow> 'e + 'a \<Rightarrow> 'f + 'a" where
  "map_err f r = (case r of Inl e \<Rightarrow> Inl (f e) | Inr x \<Rightarrow> Inr x)"

lemma map_err_simps [simp]:
  "map_err f (Inl e) = Inl (f e)"
  "map_err f (Inr x) = Inr x"
  by (simp_all add: map_err_def)

lemma map_err_Inr_iff [simp]: "map_err f r = Inr x \<longleftrightarrow> r = Inr x"
  by (cases r) (auto simp: map_err_def)

definition standing_author ::
    "env \<Rightarrow> keypair \<Rightarrow> group_id \<Rightarrow> u64 \<Rightarrow> position \<Rightarrow> string \<Rightarrow> int \<Rightarrow> standing_error + standing" where
  "standing_author E key g seq pos username at =
     bindE (map_err (\<lambda>_. SBadUsername) (normalise_username username)) (\<lambda>username.
     let body = \<lparr>sb_group = g, sb_peer = to_base58 E (peer_of_key E key), sb_seq = seq,
                 sb_position = pos, sb_username = username, sb_at = at\<rparr> in
     bindE (ok_or (enc_standing E body) SEncode) (\<lambda>bs.
     bindE (ok_or (sign_bytes E key bs) SSigning) (\<lambda>sig.
       Inr \<lparr>st_body = bs, st_signature = sig\<rparr>)))"

definition next_standing_seq :: "u64 option \<Rightarrow> u64" where
  "next_standing_seq latest = (case latest of Some n \<Rightarrow> n | None \<Rightarrow> 0) + 1"

definition standing_body_of :: "env \<Rightarrow> standing \<Rightarrow> standing_error + standing_body" where
  "standing_body_of E s = ok_or (dec_standing E (st_body s)) SMalformed"

definition standing_verify :: "env \<Rightarrow> group_id \<Rightarrow> standing \<Rightarrow> standing_error + standing_body" where
  "standing_verify E g s =
     bindE (guardE (standing_wire_len s \<le> MAX_STANDING_BYTES) (STooLarge (standing_wire_len s))) (\<lambda>_.
     bindE (standing_body_of E s) (\<lambda>body.
     bindE (guardE (sb_group body = g) (SWrongGroup (sb_group body))) (\<lambda>_.
     bindE (ok_or (parse_peer E (sb_peer body)) SUnparseablePeer) (\<lambda>peer.
     bindE (ok_or (public_key_of E peer) (SSubjectKey (sb_peer body))) (\<lambda>key.
     bindE (guardE (verifies E key (st_body s) (st_signature s)) SBadSignature) (\<lambda>_.
     bindE (map_err (\<lambda>_. SBadUsername) (normalise_username (sb_username body))) (\<lambda>_.
       Inr body)))))))"

section \<open>The ordering rule\<close>

definition wins :: "u64 \<times> bytes \<Rightarrow> u64 \<times> bytes \<Rightarrow> bool" where
  "wins mine theirs \<longleftrightarrow>
     (if fst theirs < fst mine then True
      else if fst mine < fst theirs then False
      else snd mine < snd theirs)"

record held =
  h_standing :: standing
  h_seq :: u64
  h_position :: position
  h_username :: string

type_synonym standing_set = "(peer_id, held) omap"

definition held_key :: "held \<Rightarrow> u64 \<times> bytes" where
  "held_key h = (h_seq h, st_body (h_standing h))"

definition set_insert :: "peer_id \<Rightarrow> held \<Rightarrow> standing_set \<Rightarrow> bool \<times> standing_set" where
  "set_insert p new s =
     (case map_of s p of
        Some old \<Rightarrow>
          if \<not> wins (held_key new) (held_key old) then (False, s) else (True, om_put p new s)
      | None \<Rightarrow> (True, om_put p new s))"

definition set_latest :: "standing_set \<Rightarrow> peer_id \<Rightarrow> (u64 \<times> position) option" where
  "set_latest s p = map_option (\<lambda>h. (h_seq h, h_position h)) (map_of s p)"

definition set_username :: "standing_set \<Rightarrow> peer_id \<Rightarrow> string option" where
  "set_username s p = map_option h_username (map_of s p)"

definition set_departed :: "standing_set \<Rightarrow> peer_id \<Rightarrow> bool" where
  "set_departed s p \<longleftrightarrow> (case map_of s p of Some h \<Rightarrow> is_departure (h_position h) | None \<Rightarrow> False)"

section \<open>Members and their standings\<close>

definition name_from :: "standing_set \<Rightarrow> members \<Rightarrow> members" where
  "name_from s m = map (\<lambda>(p, x). (p, x\<lparr>m_username := set_username s (m_peer x)\<rparr>)) m"

definition digest_part :: "env \<Rightarrow> standing_set \<Rightarrow> member \<Rightarrow> bytes" where
  "digest_part E s x =
     (case set_latest s (m_peer x) of
        Some (seq, pos) \<Rightarrow>
          let name = (case set_username s (m_peer x) of Some n \<Rightarrow> n | None \<Rightarrow> []) in
          peer_to_bytes E (m_peer x) @ le_bytes8 seq @ [position_tag pos]
            @ le_bytes8 (of_nat (length name)) @ str_bytes name
      | None \<Rightarrow> [])"

definition standings_digest :: "env \<Rightarrow> members \<Rightarrow> standing_set \<Rightarrow> bytes" where
  "standings_digest E m s = sha256 E (2 # concat (map (\<lambda>(p, x). digest_part E s x) m))"

section \<open>Lemmas\<close>

lemma standing_verify_iff:
  "standing_verify E g s = Inr body \<longleftrightarrow>
     standing_wire_len s \<le> MAX_STANDING_BYTES \<and> dec_standing E (st_body s) = Some body
     \<and> sb_group body = g
     \<and> (\<exists>p key. parse_peer E (sb_peer body) = Some p \<and> public_key_of E p = Some key
          \<and> verifies E key (st_body s) (st_signature s))
     \<and> (\<exists>n. normalise_username (sb_username body) = Inr n)"
  by (auto simp: standing_verify_def standing_body_of_def bindE_Inr_iff)

text \<open>What a node authors about itself passes every check, the size aside.\<close>

lemma standing_author_verifies:
  assumes "base58_ok E" "cbor_ok E" "sign_ok E"
    and "standing_author E key g seq pos name at = Inr s"
    and "standing_wire_len s \<le> MAX_STANDING_BYTES"
  shows "\<exists>n. normalise_username name = Inr n \<and> standing_verify E g s = Inr
    \<lparr>sb_group = g, sb_peer = to_base58 E (peer_of_key E key), sb_seq = seq, sb_position = pos,
     sb_username = n, sb_at = at\<rparr>"
proof -
  from assms(4) obtain n bs sg where n: "normalise_username name = Inr n"
    and enc: "enc_standing E \<lparr>sb_group = g, sb_peer = to_base58 E (peer_of_key E key), sb_seq = seq,
      sb_position = pos, sb_username = n, sb_at = at\<rparr> = Some bs"
    and sg: "sign_bytes E key bs = Some sg" and s: "s = \<lparr>st_body = bs, st_signature = sg\<rparr>"
    by (auto simp: standing_author_def Let_def bindE_Inr_iff)
  from assms(3) sg obtain pk where "public_key_of E (peer_of_key E key) = Some pk"
    and "verifies E pk bs sg" unfolding sign_ok_def by blast
  with n enc s assms(5) normalise_username_idem [OF n] show ?thesis
    by (auto simp: standing_verify_iff cbor_standing [OF assms(2)] base58_parse [OF assms(1)])
qed

text \<open>\<open>wins\<close> is a strict linear order on sequence number and body.\<close>

lemma wins_irrefl [simp]: "\<not> wins a a"
  by (simp add: wins_def)

lemma wins_asym: "wins a b \<Longrightarrow> \<not> wins b a"
  by (auto simp: wins_def split: if_splits)

lemma wins_total: "a \<noteq> b \<Longrightarrow> wins a b \<or> wins b a"
  by (cases a; cases b) (auto simp: wins_def)

lemma wins_trans: "wins a b \<Longrightarrow> wins b c \<Longrightarrow> wins a c"
  by (auto simp: wins_def split: if_splits)

lemma next_seq_wins:
  assumes "n \<noteq> - 1" shows "wins (next_standing_seq (Some n), a) (n, b)"
proof -
  have "1 + n \<noteq> 0" using assms by (metis add.commute add_eq_0_iff)
  then have "unat (1 + n) = Suc (unat n)" by (rule unatSuc)
  then have "n < n + 1" by (simp add: word_less_nat_alt add.commute)
  then show ?thesis by (simp add: wins_def next_standing_seq_def)
qed

lemma om_inv_set_insert [simp]: "om_inv s \<Longrightarrow> om_inv (snd (set_insert p h s))"
  by (auto simp: set_insert_def split: option.splits)

definition stronger :: "held option \<Rightarrow> held \<Rightarrow> held" where
  "stronger old new =
     (case old of
        Some o' \<Rightarrow> if wins (held_key new) (held_key o') then new else o'
      | None \<Rightarrow> new)"

lemma get_set_insert:
  "om_inv s \<Longrightarrow> map_of (snd (set_insert p h s)) q =
     (if q = p then Some (stronger (map_of s p) h) else map_of s q)"
  by (auto simp: set_insert_def stronger_def om_simps split: option.splits)

lemma stronger_commute:
  assumes "held_key a = held_key b \<Longrightarrow> a = b"
  shows "stronger (Some (stronger old a)) b = stronger (Some (stronger old b)) a"
proof (cases old)
  case None
  with assms show ?thesis
    using wins_total [of "held_key a" "held_key b"] wins_asym [of "held_key a" "held_key b"]
    by (auto simp: stronger_def)
next
  case (Some c)
  consider "wins (held_key a) (held_key b)" | "wins (held_key b) (held_key a)" | "a = b"
    using assms wins_total by blast
  then show ?thesis
  proof cases
    case 1
    then have "\<not> wins (held_key b) (held_key a)" by (rule wins_asym)
    with 1 Some show ?thesis
      using wins_trans [OF 1, of "held_key c"] by (auto simp: stronger_def)
  next
    case 2
    then have "\<not> wins (held_key a) (held_key b)" by (rule wins_asym)
    with 2 Some show ?thesis
      using wins_trans [OF 2, of "held_key c"] by (auto simp: stronger_def)
  qed simp
qed

text \<open>
  Statements converge: \<open>insert\<close> meets the convergence contract as long as a body and sequence
  number determine the statement, which holds because both are read from the signed body.
\<close>

definition same_word :: "peer_id \<times> held \<Rightarrow> peer_id \<times> held \<Rightarrow> bool" where
  "same_word x y \<longleftrightarrow> (fst x = fst y \<and> held_key (snd x) = held_key (snd y) \<longrightarrow> snd x = snd y)"

definition word_step :: "peer_id \<times> held \<Rightarrow> standing_set \<Rightarrow> standing_set" where
  "word_step x s = (if om_inv s then snd (set_insert (fst x) (snd x) s) else s)"

lemma om_inv_word_step [simp]: "om_inv (word_step x s) = om_inv s"
  by (simp add: word_step_def)

lemma get_word_step:
  "om_inv s \<Longrightarrow> map_of (word_step x s) q =
     (if q = fst x then Some (stronger (map_of s (fst x)) (snd x)) else map_of s q)"
  by (simp add: word_step_def get_set_insert)

lemma word_step_commute:
  assumes "same_word x y" shows "word_step x (word_step y s) = word_step y (word_step x s)"
proof (cases "om_inv s")
  case True
  have "stronger (Some (stronger old (snd y))) (snd x) = stronger (Some (stronger old (snd x))) (snd y)"
    if "fst y = fst x" for old
    using that assms by (intro stronger_commute) (simp add: same_word_def)
  with True have "map_of (word_step x (word_step y s)) = map_of (word_step y (word_step x s))"
    by (auto simp: get_word_step fun_eq_iff)
  with True show ?thesis by (intro om_ext) simp_all
qed (simp add: word_step_def)

lemma word_step_absorb: "word_step x (word_step x s) = word_step x s"
proof (cases "om_inv s")
  case True
  then have "map_of (word_step x (word_step x s)) = map_of (word_step x s)"
    by (auto simp: get_word_step fun_eq_iff stronger_def split: option.split)
  with True show ?thesis by (intro om_ext) simp_all
qed (simp add: word_step_def)

interpretation words: order_free word_step same_word
  by unfold_locales (rule word_step_commute, assumption, rule word_step_absorb)

section \<open>What equal digests mean\<close>

definition peer_prefix_free :: "env \<Rightarrow> bool" where
  "peer_prefix_free E \<longleftrightarrow> (\<forall>p q a b. peer_to_bytes E p @ a = peer_to_bytes E q @ b \<longrightarrow> p = q)"

definition short_names :: "standing_set \<Rightarrow> bool" where
  "short_names s \<longleftrightarrow> (\<forall>p n. set_username s p = Some n \<longrightarrow> length n < 2 ^ 64)"

lemma position_tag_inj: "position_tag a = position_tag b \<longleftrightarrow> a = b"
  by (cases a; cases b) simp_all

lemma latest_None_iff: "set_latest s p = None \<longleftrightarrow> set_username s p = None"
  by (auto simp: set_latest_def set_username_def)

lemma digest_part_Some:
  "set_latest s (m_peer x) = Some (seq, pos) \<Longrightarrow> set_username s (m_peer x) = Some n \<Longrightarrow>
     digest_part E s x = peer_to_bytes E (m_peer x) @ le_bytes8 seq @ [position_tag pos]
       @ le_bytes8 (of_nat (length n)) @ str_bytes n"
  by (simp add: digest_part_def)

lemma digest_part_cases:
  obtains (none) "set_latest s (m_peer x) = None" "set_username s (m_peer x) = None" "digest_part E s x = []"
  | (some) seq pos n where "set_latest s (m_peer x) = Some (seq, pos)"
      "set_username s (m_peer x) = Some n"
      "digest_part E s x = peer_to_bytes E (m_peer x) @ le_bytes8 seq @ [position_tag pos]
         @ le_bytes8 (of_nat (length n)) @ str_bytes n"
  by (cases "map_of s (m_peer x)") (auto simp: digest_part_def set_latest_def set_username_def)

lemma digest_concat_peer:
  assumes "peer_prefix_free E"
    and "concat (map (\<lambda>(p, x). digest_part E s x) m) = peer_to_bytes E q @ z # zs"
  shows "\<exists>(p, x) \<in> set m. m_peer x = q"
  using assms(2)
proof (induction m)
  case (Cons e m)
  obtain p x where e: "e = (p, x)" by (cases e)
  show ?case
  proof (cases E s x rule: digest_part_cases)
    case none
    with Cons e show ?thesis by auto
  next
    case (some seq pos n)
    with Cons.prems e have "peer_to_bytes E (m_peer x)
        @ (le_bytes8 seq @ position_tag pos # le_bytes8 (of_nat (length n)) @ str_bytes n
            @ concat (map (\<lambda>(p, x). digest_part E s x) m))
      = peer_to_bytes E q @ z # zs" by simp
    then have "m_peer x = q" using assms(1) unfolding peer_prefix_free_def by blast
    with e show ?thesis by auto
  qed
qed simp

lemma part_eq_conv:
  assumes "length n < 2 ^ 64" "length n' < 2 ^ 64"
    and "le_bytes8 seq @ position_tag pos # le_bytes8 (of_nat (length n)) @ str_bytes n @ r
       = le_bytes8 seq' @ position_tag pos' # le_bytes8 (of_nat (length n')) @ str_bytes n' @ r'"
  shows "seq = seq' \<and> pos = pos' \<and> n = n' \<and> r = r'"
proof -
  from assms(3) have s: "seq = seq'" and t: "pos = pos'"
    and l: "le_bytes8 (of_nat (length n)) @ str_bytes n @ r
      = le_bytes8 (of_nat (length n')) @ str_bytes n' @ r'"
    by (auto simp: le_bytes8_inj position_tag_inj)
  from l have "(of_nat (length n) :: u64) = of_nat (length n')" and n: "str_bytes n @ r = str_bytes n' @ r'"
    by (auto simp: le_bytes8_inj)
  then have "unat (of_nat (length n) :: u64) = unat (of_nat (length n') :: u64)" by simp
  with assms(1,2) have "length n = length n'" by (simp add: unat_of_nat)
  with n s t show ?thesis by (simp add: str_bytes_inj)
qed

lemma digest_concat_agrees:
  assumes pf: "peer_prefix_free E" and short: "short_names s" "short_names t"
  shows "distinct (map (\<lambda>(p, x). m_peer x) m) \<Longrightarrow>
    concat (map (\<lambda>(p, x). digest_part E s x) m) = concat (map (\<lambda>(p, x). digest_part E t x) m) \<Longrightarrow>
    (p, x) \<in> set m \<Longrightarrow>
    set_latest s (m_peer x) = set_latest t (m_peer x) \<and> set_username s (m_peer x) = set_username t (m_peer x)"
proof (induction m)
  case (Cons e m)
  obtain q y where e: "e = (q, y)" by (cases e)
  let ?S = "concat (map (\<lambda>(p, x). digest_part E s x) m)"
  let ?T = "concat (map (\<lambda>(p, x). digest_part E t x) m)"
  from Cons.prems(1) e have fresh: "\<not> (\<exists>(p, x) \<in> set m. m_peer x = m_peer y)" by force
  from Cons.prems(2) e have eq: "digest_part E s y @ ?S = digest_part E t y @ ?T" by simp
  have "set_latest s (m_peer y) = set_latest t (m_peer y) \<and> set_username s (m_peer y) = set_username t (m_peer y)
    \<and> ?S = ?T"
  proof (cases E s y rule: digest_part_cases)
    case s: none
    show ?thesis
    proof (cases E t y rule: digest_part_cases)
      case none
      with s eq show ?thesis by simp
    next
      case (some seq pos n)
      with s eq have "?S = peer_to_bytes E (m_peer y) @ hd (le_bytes8 seq) # tl (le_bytes8 seq)
          @ position_tag pos # le_bytes8 (of_nat (length n)) @ str_bytes n @ ?T"
        by (simp add: le_bytes8_def)
      then have False using digest_concat_peer [OF pf] fresh by blast
      then show ?thesis ..
    qed
  next
    case s: (some seq pos n)
    show ?thesis
    proof (cases E t y rule: digest_part_cases)
      case none
      with s eq have "?T = peer_to_bytes E (m_peer y) @ hd (le_bytes8 seq) # tl (le_bytes8 seq)
          @ position_tag pos # le_bytes8 (of_nat (length n)) @ str_bytes n @ ?S"
        by (simp add: le_bytes8_def)
      then have False using digest_concat_peer [OF pf] fresh by blast
      then show ?thesis ..
    next
      case (some seq' pos' n')
      with s short have "length n < 2 ^ 64" "length n' < 2 ^ 64" by (auto simp: short_names_def)
      with s some eq show ?thesis using part_eq_conv [of n n' seq pos ?S seq' pos' ?T] by simp
    qed
  qed
  with Cons e show ?case by auto
qed simp

lemma digest_agrees:
  assumes "inj (sha256 E)" "peer_prefix_free E" "short_names s" "short_names t" "members_inv m"
    and "standings_digest E m s = standings_digest E m t" and "map_of m p = Some x"
  shows "set_latest s p = set_latest t p \<and> set_username s p = set_username t p"
proof -
  from assms(5) have eq: "map (\<lambda>(p, x). m_peer x) m = map fst m"
    by (auto simp: members_inv_def)
  have d: "distinct (map (\<lambda>(p, x). m_peer x) m)"
    unfolding eq using assms(5) by (intro om_inv_distinct) simp
  from assms(6) have "concat (map (\<lambda>(p, x). digest_part E s x) m) = concat (map (\<lambda>(p, x). digest_part E t x) m)"
    unfolding standings_digest_def by (auto dest: injD [OF assms(1)])
  from digest_concat_agrees [OF assms(2,3,4) d this map_of_SomeD [OF assms(7)]]
  show ?thesis using members_inv_get [OF assms(5,7)] by simp
qed

end
