(* ===== verification/GroupStore.thy ===== *)
theory GroupStore
  imports ChainProps Standing
begin

text \<open>
  \<open>crates/ac-groups/src/store.rs\<close>: what a node holds about its groups. The four \<open>group_\<close> tables
  are ordered maps by primary key; the two keyed by group and something else are functions from
  the group. Text columns hold the value they encode (hex ids and hashes, base58 peer ids, the
  words for state and position). A failing SQL statement (\<open>StoreError::Db\<close>) rolls its
  transaction back and is not modelled; a row that does not parse back (\<open>CorruptRow\<close>) cannot be
  written by these operations. Every operation on \<open>&mut self\<close> returns its result and the store
  afterwards; \<open>put\<close> and \<open>author\<close> take the store they read and, separately, the store their
  transaction runs on, since another process may write in between.
\<close>

datatype state = Pending | Active | Left

fun state_as_str :: "state \<Rightarrow> string" where
  "state_as_str Pending = ''pending''"
| "state_as_str Active = ''active''"
| "state_as_str Left = ''left''"

definition state_parse :: "string \<Rightarrow> state" where
  "state_parse raw = (if raw = ''active'' then Active else if raw = ''left'' then Left else Pending)"

fun position_str :: "position \<Rightarrow> string" where
  "position_str Unanswered = ''unanswered''"
| "position_str In = ''in''"
| "position_str Out = ''out''"

definition position_of :: "string \<Rightarrow> position" where
  "position_of raw = (if raw = ''in'' then In else if raw = ''out'' then Out else Unanswered)"

lemma state_roundtrip: "state_parse (state_as_str s) = s"
  by (cases s) (simp_all add: state_parse_def)

lemma position_roundtrip: "position_of (position_str p) = p"
  by (cases p) (simp_all add: position_of_def)

record group_row =
  gr_id :: group_id
  gr_name :: string
  gr_admin :: peer_id
  gr_state :: state
  gr_head_seq :: nat
  gr_head_hash :: entry_hash
  gr_digest :: bytes
  gr_first_seen :: int
  gr_last_synced :: int
  gr_news :: nat

record stand_row =
  sr_seq :: u64
  sr_position :: position
  sr_standing :: standing

record groups =
  gs_me :: peer_id
  t_groups :: "(group_id, group_row) omap"
  t_entries :: "group_id \<Rightarrow> (nat, entry_hash \<times> entry) omap"
  t_standings :: "group_id \<Rightarrow> (peer_id, stand_row) omap"
  t_members :: "group_id \<Rightarrow> (peer_id, member) omap"

record applied =
  ap_accepted :: nat
  ap_head_seq :: nat
  ap_added :: "peer_id list"
  ap_removed :: "peer_id list"
  ap_we_joined :: bool
  ap_we_lost :: bool
  ap_departed :: "peer_id list"

datatype store_error =
    EChain chain_error
  | EStanding standing_error
  | EEntropy
  | EUnknownGroup group_id
  | EDuplicate group_id
  | EGap nat nat
  | EDiverged group_id nat
  | ERaced group_id

section \<open>Reads\<close>

definition group_head_of :: "group_row \<Rightarrow> group_head" where
  "group_head_of r = \<lparr>gh_group = gr_id r, gh_head_seq = gr_head_seq r,
     gh_head_hash = gr_head_hash r, gh_standings = gr_digest r\<rparr>"

definition store_get :: "groups \<Rightarrow> group_id \<Rightarrow> group_row option" where
  "store_get S g = map_of (t_groups S) g"

definition store_require :: "groups \<Rightarrow> group_id \<Rightarrow> store_error + group_row" where
  "store_require S g = ok_or (store_get S g) (EUnknownGroup g)"

definition store_list :: "groups \<Rightarrow> group_row list" where
  "store_list S = sort_key (\<lambda>r. (gr_name r, gr_id r)) (map snd (t_groups S))"

definition store_chain :: "env \<Rightarrow> groups \<Rightarrow> group_id \<Rightarrow> store_error + chain" where
  "store_chain E S g =
     (let entries = map (\<lambda>(i, h, e). e) (t_entries S g) in
      if entries = [] then Inl (EUnknownGroup g) else map_err EChain (chain_load E entries))"

definition store_standings :: "env \<Rightarrow> groups \<Rightarrow> group_id \<Rightarrow> standing list" where
  "store_standings E S g =
     map (\<lambda>(p, r). sr_standing r) (sort_key (\<lambda>(p, r). to_base58 E p) (t_standings S g))"

definition store_members :: "groups \<Rightarrow> group_id \<Rightarrow> members" where
  "store_members S g =
     fold (\<lambda>(p, x) m. members_set_username p (m_username x) (members_insert p (m_is_admin x) m))
       (t_members S g) []"

definition heads_shared :: "groups \<Rightarrow> peer_id \<Rightarrow> state list \<Rightarrow> group_head list" where
  "heads_shared S peer states =
     map (\<lambda>(g, r). group_head_of r)
       (filter (\<lambda>(g, r). om_has (t_members S g) peer \<and> om_has (t_members S g) (gs_me S)
          \<and> gr_state r \<in> set states) (t_groups S))"

definition shared_with :: "groups \<Rightarrow> peer_id \<Rightarrow> group_head list" where
  "shared_with S peer = heads_shared S peer [Active]"

definition log_shared_with :: "groups \<Rightarrow> peer_id \<Rightarrow> group_head list" where
  "log_shared_with S peer = heads_shared S peer [Active, Pending]"

definition store_serve ::
    "env \<Rightarrow> groups \<Rightarrow> group_id \<Rightarrow> peer_id \<Rightarrow> nat \<Rightarrow> store_error + (entry list \<times> standing list) option" where
  "store_serve E S g peer from =
     (let members = store_members S g in
      if \<not> members_contains members (gs_me S) then Inr None
      else bindE (store_chain E S g) (\<lambda>chain.
        if members_contains members peer
        then Inr (Some (entries_between chain from (chain_len chain), store_standings E S g))
        else case departure_seq E chain peer of
               Some removed_at \<Rightarrow> Inr (Some (entries_between chain from (removed_at + 1), []))
             | None \<Rightarrow> Inr None))"

definition store_departed :: "env \<Rightarrow> groups \<Rightarrow> group_id \<Rightarrow> peer_id list" where
  "store_departed E S g =
     map fst (filter (\<lambda>(p, r). sr_position r = Out) (sort_key (\<lambda>(p, r). to_base58 E p) (t_standings S g)))"

definition store_positions :: "groups \<Rightarrow> group_id \<Rightarrow> peer_id \<Rightarrow> position option" where
  "store_positions S g p = map_option sr_position (map_of (t_standings S g) p)"

definition my_standing_seq :: "groups \<Rightarrow> group_id \<Rightarrow> u64 option" where
  "my_standing_seq S g = map_option sr_seq (map_of (t_standings S g) (gs_me S))"

definition store_news :: "groups \<Rightarrow> group_id \<Rightarrow> nat" where
  "store_news S g = (case store_get S g of Some r \<Rightarrow> gr_news r | None \<Rightarrow> 0)"

section \<open>Statements inside a transaction\<close>

definition update_row :: "group_id \<Rightarrow> (group_row \<Rightarrow> group_row) \<Rightarrow> groups \<Rightarrow> groups" where
  "update_row g f S =
     (case map_of (t_groups S) g of
        Some r \<Rightarrow> S\<lparr>t_groups := om_put g (f r) (t_groups S)\<rparr>
      | None \<Rightarrow> S)"

fun insert_entries :: "env \<Rightarrow> nat \<Rightarrow> entry list \<Rightarrow> (nat, entry_hash \<times> entry) omap \<Rightarrow> (nat, entry_hash \<times> entry) omap" where
  "insert_entries E i [] t = t"
| "insert_entries E i (e # es) t =
     insert_entries E (Suc i) es (if om_has t i then t else om_put i (entry_hash_of E e, e) t)"

definition write_entries :: "env \<Rightarrow> group_id \<Rightarrow> nat \<Rightarrow> entry list \<Rightarrow> groups \<Rightarrow> groups" where
  "write_entries E g from es S =
     S\<lparr>t_entries := (t_entries S)(g := insert_entries E from es (t_entries S g))\<rparr>"

definition set_head :: "group_id \<Rightarrow> nat \<Rightarrow> nat \<Rightarrow> entry_hash \<Rightarrow> groups \<Rightarrow> nat \<times> groups" where
  "set_head g observed seq hash S =
     (case map_of (t_groups S) g of
        Some r \<Rightarrow>
          if gr_head_seq r = observed
          then (1, update_row g (\<lambda>r. r\<lparr>gr_head_seq := seq, gr_head_hash := hash\<rparr>) S)
          else (0, S)
      | None \<Rightarrow> (0, S))"

definition write_standing ::
    "group_id \<Rightarrow> peer_id \<Rightarrow> standing \<Rightarrow> u64 \<Rightarrow> position \<Rightarrow> groups \<Rightarrow> groups" where
  "write_standing g p s seq pos S =
     S\<lparr>t_standings := (t_standings S)(g :=
         om_put p \<lparr>sr_seq = seq, sr_position = pos, sr_standing = s\<rparr> (t_standings S g))\<rparr>"

definition load_standings :: "env \<Rightarrow> groups \<Rightarrow> group_id \<Rightarrow> standing_set" where
  "load_standings E S g =
     fold (\<lambda>(p, r) words.
         case standing_body_of E (sr_standing r) of
           Inl _ \<Rightarrow> words
         | Inr body \<Rightarrow>
             snd (set_insert p \<lparr>h_standing = sr_standing r, h_seq = sr_seq r,
                                h_position = sr_position r, h_username = sb_username body\<rparr> words))
       (t_standings S g) []"

definition rebuild_caches :: "env \<Rightarrow> group_id \<Rightarrow> chain \<Rightarrow> standing_set \<Rightarrow> groups \<Rightarrow> groups" where
  "rebuild_caches E g chain words S =
     (let members = name_from words (chain_fold E chain) in
      update_row g (\<lambda>r. r\<lparr>gr_digest := standings_digest E members words\<rparr>)
        (S\<lparr>t_members := (t_members S)(g := members),
           t_standings := (t_standings S)(g := filter (\<lambda>(p, r). om_has members p) (t_standings S g))\<rparr>))"

definition note_news :: "group_id \<Rightarrow> groups \<Rightarrow> groups" where
  "note_news g = update_row g (\<lambda>r. r\<lparr>gr_news := gr_news r + 1\<rparr>)"

definition ever_mentioned :: "env \<Rightarrow> chain \<Rightarrow> peer_id \<Rightarrow> bool" where
  "ever_mentioned E c p \<longleftrightarrow>
     ch_admin c = p
     \<or> list_ex (\<lambda>e. case entry_body_of E e of
                       Inr b \<Rightarrow> (case eb_op b of Add s \<Rightarrow> parse_peer E s = Some p | _ \<Rightarrow> False)
                     | Inl _ \<Rightarrow> False) (chain_entries c)"

end
