(* ===== verification/FileRows.thy ===== *)
theory FileRows
  imports Paths Hex GroupStore
begin

text \<open>
  One file as a node knows it (\<open>crates/ac-files/src/store/row.rs\<close>) and what of it crosses the
  wire (\<open>crates/ac-files/src/wire.rs\<close>): the row, the rules that choose between two rows, the
  columns a row is stored in, manifest entries, and the bitmap of held files.
\<close>

unbundle bit_operations_syntax

record file_row =
  fl_path :: relpath
  fl_size :: u64
  fl_hash :: string
  fl_modified :: int
  fl_added_at :: int
  fl_added_by :: peer_id
  fl_removed_at :: "int option"
  fl_have :: bool
  fl_seen_seq :: nat

definition is_removed :: "file_row \<Rightarrow> bool" where
  "is_removed r \<longleftrightarrow> fl_removed_at r \<noteq> None"

definition changed_at :: "file_row \<Rightarrow> int" where
  "changed_at r = max (case fl_removed_at r of Some t \<Rightarrow> t | None \<Rightarrow> fl_added_at r) (fl_added_at r)"

definition wins_path :: "file_row \<Rightarrow> file_row \<Rightarrow> bool" where
  "wins_path a b \<longleftrightarrow> (changed_at b, fl_hash b) < (changed_at a, fl_hash a)"

definition wins_hash :: "file_row \<Rightarrow> file_row \<Rightarrow> bool" where
  "wins_hash a b \<longleftrightarrow> (fl_added_at a, fl_path a) < (fl_added_at b, fl_path b)"

datatype merged =
    MUnchanged
  | MRejected
  | MApplied
  | MConflicted relpath
  | MDeduplicated relpath relpath

datatype recorded = RecAdded | RecUnchanged | RecReplaced

datatype files_error =
    FDb
  | FPath path_error
  | FCorruptRow
  | FIo relpath
  | FConflict relpath string
  | FNoDirectory group_id

section \<open>Stored columns\<close>

text \<open>What SQLite holds of a row; its integers are \<open>i64\<close>.\<close>

record file_columns =
  fc_path :: string
  fc_size :: int
  fc_hash :: string
  fc_modified :: int
  fc_added_at :: int
  fc_added_by :: string
  fc_removed_at :: "int option"
  fc_have :: int
  fc_seen_seq :: int

definition I64_MAX :: nat where "I64_MAX = 2 ^ 63 - 1"

definition i64_of :: "nat \<Rightarrow> files_error + int" where
  "i64_of n = (if n \<le> I64_MAX then Inr (int n) else Inl FCorruptRow)"

definition u64_of :: "int \<Rightarrow> files_error + nat" where
  "u64_of i = (if 0 \<le> i then Inr (nat i) else Inl FCorruptRow)"

definition row_columns :: "env \<Rightarrow> file_row \<Rightarrow> bool \<Rightarrow> nat \<Rightarrow> files_error + file_columns" where
  "row_columns E row have_it seq =
     bindE (i64_of (unat (fl_size row))) (\<lambda>size.
     bindE (i64_of seq) (\<lambda>seq.
       Inr \<lparr>fc_path = path_str (fl_path row), fc_size = size, fc_hash = fl_hash row, fc_modified = fl_modified row,
         fc_added_at = fl_added_at row, fc_added_by = to_base58 E (fl_added_by row), fc_removed_at = fl_removed_at row,
         fc_have = (if have_it then 1 else 0), fc_seen_seq = seq\<rparr>))"

definition row_to_file :: "env \<Rightarrow> file_columns \<Rightarrow> files_error + file_row" where
  "row_to_file E c =
     bindE (map_err (\<lambda>_. FCorruptRow) (relpath_parse (fc_path c))) (\<lambda>path.
     bindE (u64_of (fc_size c)) (\<lambda>size.
     bindE (ok_or (parse_peer E (fc_added_by c)) FCorruptRow) (\<lambda>by.
     bindE (u64_of (fc_seen_seq c)) (\<lambda>seq.
       Inr \<lparr>fl_path = path, fl_size = of_nat size, fl_hash = fc_hash c, fl_modified = fc_modified c,
         fl_added_at = fc_added_at c, fl_added_by = by, fl_removed_at = fc_removed_at c,
         fl_have = (fc_have c \<noteq> 0), fl_seen_seq = seq\<rparr>))))"

section \<open>The wire\<close>

definition MAX_HEADS_PER_ANSWER :: nat where "MAX_HEADS_PER_ANSWER = 128"
definition MAX_ENTRIES_PER_RESPONSE :: nat where "MAX_ENTRIES_PER_RESPONSE = 2048"
definition MAX_HOLDINGS_QUERY :: nat where "MAX_HOLDINGS_QUERY = 512"

record file_head =
  fh_group :: group_id
  fh_digest :: bytes
  fh_count :: nat

record manifest_entry =
  me_path :: string
  me_hash :: bytes
  me_size :: u64
  me_modified :: int
  me_added_at :: int
  me_removed_at :: "int option"
  me_added_by :: string

datatype manifest_request =
    MAsk
  | MChanges group_id nat
  | MHoldings group_id "string list"

datatype manifest_response =
    MHeads "file_head list"
  | MChangesPage group_id "manifest_entry list" nat bool bytes
  | MHeld group_id bytes
  | MUnavailable

definition manifest_entry_of :: "env \<Rightarrow> file_row \<Rightarrow> manifest_entry option" where
  "manifest_entry_of E row =
     (case hash_parse (fl_hash row) of
        None \<Rightarrow> None
      | Some hash \<Rightarrow>
          Some \<lparr>me_path = path_str (fl_path row), me_hash = hash, me_size = fl_size row,
            me_modified = fl_modified row, me_added_at = fl_added_at row, me_removed_at = fl_removed_at row,
            me_added_by = to_base58 E (fl_added_by row)\<rparr>)"

definition into_row :: "env \<Rightarrow> manifest_entry \<Rightarrow> file_row option" where
  "into_row E e =
     (case relpath_parse (me_path e) of
        Inl _ \<Rightarrow> None
      | Inr path \<Rightarrow>
          (case parse_peer E (me_added_by e) of
             None \<Rightarrow> None
           | Some by \<Rightarrow>
               Some \<lparr>fl_path = path, fl_size = me_size e, fl_hash = hex_encode (me_hash e),
                 fl_modified = me_modified e, fl_added_at = me_added_at e, fl_added_by = by,
                 fl_removed_at = me_removed_at e, fl_have = False, fl_seen_seq = 0\<rparr>))"

text \<open>The loop of \<open>pack_holdings\<close>: a new byte every eighth answer, then the answer's bit.\<close>

fun pack_loop :: "nat \<Rightarrow> bool list \<Rightarrow> bytes \<Rightarrow> bytes" where
  "pack_loop i [] out = out"
| "pack_loop i (yes # held) out =
     (let out = (if i mod 8 = 0 then out @ [0] else out);
          out = (if yes then out[length out - 1 := last out OR push_bit (i mod 8) 1] else out)
      in pack_loop (Suc i) held out)"

definition pack_holdings :: "bool list \<Rightarrow> bytes" where
  "pack_holdings held = pack_loop 0 held []"

definition holds :: "bytes \<Rightarrow> nat \<Rightarrow> bool" where
  "holds bitmap i \<longleftrightarrow> i div 8 < length bitmap \<and> (bitmap ! (i div 8)) AND push_bit (i mod 8) 1 \<noteq> 0"

record blob_request =
  br_group :: group_id
  br_path :: string
  br_hash :: bytes
  br_offset :: nat

datatype blob_reply = BSending nat | BUnavailable

section \<open>Basic facts\<close>

lemma wins_path_trans: "wins_path a b \<Longrightarrow> wins_path b c \<Longrightarrow> wins_path a c"
  unfolding wins_path_def by (rule less_trans)

lemma wins_path_total: "\<not> wins_path a b \<Longrightarrow> \<not> wins_path b a \<Longrightarrow> changed_at a = changed_at b \<and> fl_hash a = fl_hash b"
  unfolding wins_path_def by (metis linorder_neqE prod.inject)

lemma wins_path_asym: "wins_path a b \<Longrightarrow> \<not> wins_path b a"
  unfolding wins_path_def by (metis less_asym)

lemma wins_path_different: "fl_hash a \<noteq> fl_hash b \<Longrightarrow> wins_path a b \<longleftrightarrow> \<not> wins_path b a"
  using wins_path_total wins_path_asym by blast

end
