(* ===== verification/FileLog.thy ===== *)
theory FileLog
  imports FileRows
begin

text \<open>
  The file tables (\<open>Files\<close> of \<open>crates/ac-files/src/store/mod.rs\<close>) as ordered maps under their
  primary keys, and the per-group log of \<open>crates/ac-files/src/store/log.rs\<close>: the positions handed
  out, how far each peer has read, the counters and the digest.

  Counters and positions are \<open>nat\<close>: they start at 0 and only grow by one, so the 63 bits they have
  in the database are not exhausted. A position a peer sends may be any \<open>u64\<close> and is clamped as the
  code clamps it. Failures of SQLite itself are not modelled.
\<close>

record file_state =
  fs_digest :: "bytes option"
  fs_digest_seq :: nat
  fs_last_change :: int
  fs_changes :: nat
  fs_wanted :: nat
  fs_seq :: nat
  fs_served_seq :: nat

definition file_state_default :: file_state where
  "file_state_default = \<lparr>fs_digest = None, fs_digest_seq = 0, fs_last_change = 0, fs_changes = 0, fs_wanted = 0,
     fs_seq = 0, fs_served_seq = 0\<rparr>"

record files =
  f_me :: peer_id
  f_roots :: "(group_id, string) omap"
  f_rows :: "(group_id \<times> relpath, file_row) omap"
  f_sync :: "(group_id \<times> peer_id, nat) omap"
  f_state :: "(group_id, file_state) omap"

definition files_new :: "peer_id \<Rightarrow> files" where
  "files_new me = \<lparr>f_me = me, f_roots = [], f_rows = [], f_sync = [], f_state = []\<rparr>"

definition state_of :: "files \<Rightarrow> group_id \<Rightarrow> file_state" where
  "state_of F g = (case map_of (f_state F) g of Some s \<Rightarrow> s | None \<Rightarrow> file_state_default)"

text \<open>\<open>INSERT ... ON CONFLICT(group_id) DO UPDATE\<close>, where the inserted row is the update of the defaults.\<close>

definition state_upsert :: "group_id \<Rightarrow> (file_state \<Rightarrow> file_state) \<Rightarrow> files \<Rightarrow> files" where
  "state_upsert g u F = F\<lparr>f_state := om_put g (u (state_of F g)) (f_state F)\<rparr>"

text \<open>The rows of a group in path order.\<close>

definition rows_in :: "files \<Rightarrow> group_id \<Rightarrow> file_row list" where
  "rows_in F g = map snd (filter (\<lambda>((h, p), r). h = g) (f_rows F))"

section \<open>Positions and counters\<close>

definition seq_in :: "files \<Rightarrow> group_id \<Rightarrow> nat" where
  "seq_in F g = (case map_of (f_state F) g of Some s \<Rightarrow> fs_seq s | None \<Rightarrow> 0)"

definition served_seq :: "files \<Rightarrow> group_id \<Rightarrow> nat" where
  "served_seq F g = (case map_of (f_state F) g of Some s \<Rightarrow> fs_served_seq s | None \<Rightarrow> 0)"

definition next_seq :: "group_id \<Rightarrow> files \<Rightarrow> nat \<times> files" where
  "next_seq g F =
     (let F1 = state_upsert g (\<lambda>s. s\<lparr>fs_seq := fs_seq s + 1\<rparr>) F in (seq_in F1 g, F1))"

definition note_wanted :: "group_id \<Rightarrow> files \<Rightarrow> files" where
  "note_wanted g F = state_upsert g (\<lambda>s. s\<lparr>fs_wanted := fs_wanted s + 1\<rparr>) F"

definition note_local :: "group_id \<Rightarrow> int \<Rightarrow> files \<Rightarrow> files" where
  "note_local g at F = state_upsert g (\<lambda>s. s\<lparr>fs_last_change := at, fs_changes := fs_changes s + 1\<rparr>) F"

definition wanted_again :: "group_id \<Rightarrow> files \<Rightarrow> files" where
  "wanted_again g F = note_wanted g F"

definition files_seq :: "files \<Rightarrow> group_id \<Rightarrow> nat" where
  "files_seq F g = seq_in F g"

definition local_news :: "files \<Rightarrow> group_id \<Rightarrow> nat \<times> int" where
  "local_news F g = (case map_of (f_state F) g of Some s \<Rightarrow> (fs_changes s, fs_last_change s) | None \<Rightarrow> (0, 0))"

definition wanted_news :: "files \<Rightarrow> group_id \<Rightarrow> nat" where
  "wanted_news F g = (case map_of (f_state F) g of Some s \<Rightarrow> fs_wanted s | None \<Rightarrow> 0)"

definition wanted_seen :: "group_id \<Rightarrow> files \<Rightarrow> files" where
  "wanted_seen g F =
     (case map_of (f_state F) g of
        Some s \<Rightarrow> F\<lparr>f_state := om_put g (s\<lparr>fs_wanted := 0\<rparr>) (f_state F)\<rparr>
      | None \<Rightarrow> F)"

definition news_told :: "group_id \<Rightarrow> files \<Rightarrow> files" where
  "news_told g F = state_upsert g (\<lambda>s. s\<lparr>fs_changes := 0\<rparr>) F"

section \<open>The log\<close>

definition i64_clamp :: "nat \<Rightarrow> nat" where
  "i64_clamp n = min n I64_MAX"

definition changes_since :: "group_id \<Rightarrow> nat \<Rightarrow> nat \<Rightarrow> files \<Rightarrow> (file_row list \<times> nat) \<times> files" where
  "changes_since g cursor limit F =
     (let out = take (i64_clamp limit)
            (sort_key fl_seen_seq (filter (\<lambda>r. i64_clamp cursor < fl_seen_seq r) (rows_in F g)));
          highest = fold (\<lambda>r h. max h (fl_seen_seq r)) out cursor
      in ((out, highest),
          state_upsert g (\<lambda>s. s\<lparr>fs_served_seq := max (fs_served_seq s) (i64_clamp highest)\<rparr>) F))"

definition has_changes_after :: "files \<Rightarrow> group_id \<Rightarrow> nat \<Rightarrow> bool" where
  "has_changes_after F g cursor \<longleftrightarrow> list_ex (\<lambda>r. i64_clamp cursor < fl_seen_seq r) (rows_in F g)"

definition files_cursor :: "files \<Rightarrow> group_id \<Rightarrow> peer_id \<Rightarrow> nat" where
  "files_cursor F g p = (case map_of (f_sync F) (g, p) of Some c \<Rightarrow> c | None \<Rightarrow> 0)"

definition set_cursor :: "group_id \<Rightarrow> peer_id \<Rightarrow> nat \<Rightarrow> files \<Rightarrow> files" where
  "set_cursor g p cursor F = F\<lparr>f_sync := om_put (g, p) (i64_clamp cursor) (f_sync F)\<rparr>"

section \<open>The digest\<close>

definition len_bytes :: "string \<Rightarrow> bytes" where
  "len_bytes s = be_bytes8 (of_nat (length s)) @ str_bytes s"

definition i64_bytes :: "int \<Rightarrow> bytes" where
  "i64_bytes i = be_bytes8 (of_int i)"

definition row_digest_bytes :: "file_row \<Rightarrow> bytes" where
  "row_digest_bytes r =
     len_bytes (path_str (fl_path r)) @ len_bytes (fl_hash r) @ i64_bytes (fl_added_at r)
     @ i64_bytes (case fl_removed_at r of Some t \<Rightarrow> t | None \<Rightarrow> 0)"

definition catalogue_digest :: "env \<Rightarrow> file_row list \<Rightarrow> bytes" where
  "catalogue_digest E rows = sha256 E (3 # concat (map row_digest_bytes rows))"

definition files_digest :: "env \<Rightarrow> group_id \<Rightarrow> files \<Rightarrow> bytes \<times> files" where
  "files_digest E g F =
     (let seq = seq_in F g;
          fresh = catalogue_digest E (rows_in F g);
          stored = (fresh, state_upsert g (\<lambda>s. s\<lparr>fs_digest := Some fresh, fs_digest_seq := seq\<rparr>) F)
      in case map_of (f_state F) g of
           Some s \<Rightarrow>
             (case fs_digest s of
                Some d \<Rightarrow> if fs_digest_seq s = seq \<and> length d = 32 then (d, F) else stored
              | None \<Rightarrow> stored)
         | None \<Rightarrow> stored)"

end
