(* ===== verification/FileSystem.thy ===== *)
theory FileSystem
  imports Paths
begin

text \<open>
  The part of \<open>std::fs\<close> the program uses, on a tree of regular files and directories: a location
  is its list of names below the root, which always exists. The machine is a Unix one: paths are joined
  as there, and directories are synchronised. Links, permissions, a full disk and a failing device are
  not modelled; every other error of these calls is.
\<close>

datatype fs_node = FileNode bytes | DirNode

datatype io_error =
    IoNotFound
  | IoNotADirectory
  | IoIsADirectory
  | IoAlreadyExists
  | IoDirectoryNotEmpty
  | IoInvalidInput

type_synonym fs = "(location, fs_node) omap"

definition fs_node_at :: "fs \<Rightarrow> location \<Rightarrow> fs_node option" where
  "fs_node_at f p = (if p = [] then Some DirNode else map_of f p)"

text \<open>Whether the directories above a location exist, and the error when one does not.\<close>

fun reach :: "fs \<Rightarrow> location \<Rightarrow> location \<Rightarrow> io_error + unit" where
  "reach f up [] = Inr ()"
| "reach f up [n] = Inr ()"
| "reach f up (n # m # p) =
     (case fs_node_at f (up @ [n]) of
        None \<Rightarrow> Inl IoNotFound
      | Some (FileNode _) \<Rightarrow> Inl IoNotADirectory
      | Some DirNode \<Rightarrow> reach f (up @ [n]) (m # p))"

definition fs_find :: "fs \<Rightarrow> location \<Rightarrow> io_error + fs_node" where
  "fs_find f p = bindE (reach f [] p) (\<lambda>_. ok_or (fs_node_at f p) IoNotFound)"

definition fs_read :: "fs \<Rightarrow> location \<Rightarrow> io_error + bytes" where
  "fs_read f p = bindE (fs_find f p) (\<lambda>n. case n of FileNode b \<Rightarrow> Inr b | DirNode \<Rightarrow> Inl IoIsADirectory)"

definition fs_is_file :: "fs \<Rightarrow> location \<Rightarrow> bool" where
  "fs_is_file f p \<longleftrightarrow> (\<exists>b. fs_node_at f p = Some (FileNode b))"

definition fs_children :: "fs \<Rightarrow> location \<Rightarrow> location list" where
  "fs_children f p = filter (\<lambda>q. q \<noteq> [] \<and> butlast q = p) (map fst f)"

fun make_dirs :: "fs \<Rightarrow> location \<Rightarrow> location \<Rightarrow> io_error + fs" where
  "make_dirs f up [] = Inr f"
| "make_dirs f up (n # p) =
     (case fs_node_at f (up @ [n]) of
        None \<Rightarrow> make_dirs (om_put (up @ [n]) DirNode f) (up @ [n]) p
      | Some DirNode \<Rightarrow> make_dirs f (up @ [n]) p
      | Some (FileNode _) \<Rightarrow> Inl (if p = [] then IoAlreadyExists else IoNotADirectory))"

definition fs_create_dir_all :: "location \<Rightarrow> fs \<Rightarrow> io_error + fs" where
  "fs_create_dir_all p f = make_dirs f [] p"

definition move_tree :: "location \<Rightarrow> location \<Rightarrow> fs \<Rightarrow> fs" where
  "move_tree src dst f =
     fold (\<lambda>(q, n) f. if take (length src) q = src then om_put (dst @ drop (length src) q) n (om_del q f) else f) f f"

definition fs_rename :: "location \<Rightarrow> location \<Rightarrow> fs \<Rightarrow> io_error + fs" where
  "fs_rename src dst f =
     bindE (fs_find f src) (\<lambda>node.
     bindE (reach f [] dst) (\<lambda>_.
       if src = dst then Inr f
       else case (node, fs_node_at f dst) of
         (FileNode b, Some DirNode) \<Rightarrow> Inl IoIsADirectory
       | (FileNode b, _) \<Rightarrow> Inr (om_put dst (FileNode b) (om_del src f))
       | (DirNode, Some (FileNode _)) \<Rightarrow> Inl IoNotADirectory
       | (DirNode, other) \<Rightarrow>
           if take (length src) dst = src then Inl IoInvalidInput
           else if other = Some DirNode \<and> fs_children f dst \<noteq> [] then Inl IoDirectoryNotEmpty
           else Inr (move_tree src dst f)))"

definition fs_remove_file :: "location \<Rightarrow> fs \<Rightarrow> io_error + fs" where
  "fs_remove_file p f =
     bindE (fs_find f p) (\<lambda>n. case n of DirNode \<Rightarrow> Inl IoIsADirectory | FileNode _ \<Rightarrow> Inr (om_del p f))"

definition fs_remove_dir :: "location \<Rightarrow> fs \<Rightarrow> io_error + fs" where
  "fs_remove_dir p f =
     bindE (fs_find f p) (\<lambda>n.
       case n of
         FileNode _ \<Rightarrow> Inl IoNotADirectory
       | DirNode \<Rightarrow> if p = [] \<or> fs_children f p \<noteq> [] then Inl IoDirectoryNotEmpty else Inr (om_del p f))"

text \<open>
  \<open>sync_dir\<close>: opening a directory and waiting until it has reached the device. It changes nothing the
  program can see; what fails is opening what is not there.
\<close>

definition fs_sync_dir :: "location \<Rightarrow> fs \<Rightarrow> io_error + unit" where
  "fs_sync_dir p f = bindE (fs_find f p) (\<lambda>_. Inr ())"

section \<open>Content\<close>

text \<open>
  \<open>crates/ac-files/src/content.rs\<close>: the storage root and where files lie beneath it, moving and
  deleting them. A call returns its result and the file system it leaves, also when it fails.
\<close>

definition group_dir :: "location \<Rightarrow> string \<Rightarrow> location" where
  "group_dir root dir = root @ [dir]"

definition locate :: "location \<Rightarrow> string \<Rightarrow> relpath \<Rightarrow> location" where
  "locate root dir p =
     buf_names (join_under Unix p \<lparr>buf_drive = None, buf_rooted = True, buf_names = group_dir root dir\<rparr>)"

function prune_dirs :: "location \<Rightarrow> location \<Rightarrow> fs \<Rightarrow> fs" where
  "prune_dirs gd p f =
     (if p = gd then f
      else case fs_remove_dir p f of
             Inl _ \<Rightarrow> f
           | Inr f' \<Rightarrow> if p = [] then f' else prune_dirs gd (butlast p) f')"
  by pat_completeness auto
termination by (relation "measure (\<lambda>(gd, p, f). length p)") auto

declare prune_dirs.simps [simp del]

definition prune_above :: "location \<Rightarrow> string \<Rightarrow> location \<Rightarrow> fs \<Rightarrow> fs" where
  "prune_above root dir target f = (if target = [] then f else prune_dirs (group_dir root dir) (butlast target) f)"

definition content_adopt ::
    "location \<Rightarrow> string \<Rightarrow> relpath \<Rightarrow> string \<Rightarrow> relpath \<Rightarrow> fs \<Rightarrow> (io_error + unit) \<times> fs" where
  "content_adopt root from_dir from to_dir to f =
     (let source = locate root from_dir from; dest = locate root to_dir to in
      case fs_create_dir_all (butlast dest) f of
        Inl e \<Rightarrow> (Inl e, f)
      | Inr f1 \<Rightarrow>
          (case fs_rename source dest f1 of
             Inl e \<Rightarrow> (Inl e, f1)
           | Inr f2 \<Rightarrow>
               (case fs_sync_dir (butlast dest) f2 of
                  Inl e \<Rightarrow> (Inl e, f2)
                | Inr _ \<Rightarrow> (Inr (), prune_above root from_dir source f2))))"

definition content_remove :: "location \<Rightarrow> string \<Rightarrow> relpath \<Rightarrow> fs \<Rightarrow> (io_error + unit) \<times> fs" where
  "content_remove root dir p f =
     (let target = locate root dir p in
      case fs_remove_file target f of
        Inr f1 \<Rightarrow> (Inr (), prune_above root dir target f1)
      | Inl IoNotFound \<Rightarrow> (Inr (), f)
      | Inl e \<Rightarrow> (Inl e, f))"

definition content_exists :: "location \<Rightarrow> string \<Rightarrow> relpath \<Rightarrow> fs \<Rightarrow> bool" where
  "content_exists root dir p f \<longleftrightarrow> fs_is_file f (locate root dir p)"

end
