(* ===== verification/FileStore.thy ===== *)
theory FileStore
  imports FileLog FileSystem
begin

text \<open>
  The file index of \<open>crates/ac-files/src/store/mod.rs\<close>: directories, recording, merging a peer's
  row, removal and the queries. A call that runs in a transaction is a \<open>tx\<close>: it takes the
  tables and the file system and returns its result with both; \<open>transaction\<close> gives the tables back
  as they were when the result is an error, while what was done on disk stays.
\<close>

type_synonym 'a tx = "files \<times> fs \<Rightarrow> (files_error + 'a) \<times> (files \<times> fs)"

definition tx_return :: "'a \<Rightarrow> 'a tx" where
  "tx_return x s = (Inr x, s)"

definition tx_fail :: "files_error \<Rightarrow> 'a tx" where
  "tx_fail e s = (Inl e, s)"

definition tx_bind :: "'a tx \<Rightarrow> ('a \<Rightarrow> 'b tx) \<Rightarrow> 'b tx" where
  "tx_bind m k s = (case m s of (Inl e, s') \<Rightarrow> (Inl e, s') | (Inr x, s') \<Rightarrow> k x s')"

definition tx_get :: "(files \<Rightarrow> 'a) \<Rightarrow> 'a tx" where
  "tx_get q s = (Inr (q (fst s)), s)"

definition tx_update :: "(files \<Rightarrow> files) \<Rightarrow> unit tx" where
  "tx_update u s = (Inr (), (u (fst s), snd s))"

definition transaction :: "'a tx \<Rightarrow> 'a tx" where
  "transaction m s = (case m s of (Inl e, s') \<Rightarrow> (Inl e, (fst s, snd s')) | (Inr x, s') \<Rightarrow> (Inr x, s'))"

section \<open>Rows\<close>

definition read_row :: "files \<Rightarrow> group_id \<Rightarrow> relpath \<Rightarrow> file_row option" where
  "read_row F g p = map_of (f_rows F) (g, p)"

definition put_row :: "group_id \<Rightarrow> file_row \<Rightarrow> files \<Rightarrow> files" where
  "put_row g row F = F\<lparr>f_rows := om_put (g, fl_path row) row (f_rows F)\<rparr>"

definition write_row :: "group_id \<Rightarrow> file_row \<Rightarrow> bool \<Rightarrow> nat tx" where
  "write_row g row have_it s =
     (let (seq, F1) = next_seq g (fst s) in
      if I64_MAX < unat (fl_size row) \<or> I64_MAX < seq then (Inl FCorruptRow, (F1, snd s))
      else (Inr seq, (put_row g (row\<lparr>fl_have := have_it, fl_seen_seq := seq\<rparr>) F1, snd s)))"

text \<open>Another live path in the group with the same content: the oldest, then the first by path.\<close>

definition oldest_first :: "file_row list \<Rightarrow> file_row list" where
  "oldest_first rows = sort_key (\<lambda>r. (fl_added_at r, fl_path r)) rows"

definition read_twin :: "files \<Rightarrow> group_id \<Rightarrow> file_row \<Rightarrow> file_row option" where
  "read_twin F g row =
     (case oldest_first (filter (\<lambda>r. fl_hash r = fl_hash row \<and> fl_path r \<noteq> fl_path row \<and> \<not> is_removed r) (rows_in F g)) of
        [] \<Rightarrow> None | r # _ \<Rightarrow> Some r)"

definition move_bytes :: "location \<Rightarrow> string \<Rightarrow> relpath \<Rightarrow> relpath \<Rightarrow> bool tx" where
  "move_bytes root dir from to s =
     (case content_adopt root dir from dir to (snd s) of
        (Inr _, f) \<Rightarrow> (Inr True, (fst s, f))
      | (Inl IoNotFound, f) \<Rightarrow> (Inr False, (fst s, f))
      | (Inl _, f) \<Rightarrow> (Inl (FIo from), (fst s, f)))"

definition remove_bytes :: "location \<Rightarrow> string \<Rightarrow> relpath \<Rightarrow> unit tx" where
  "remove_bytes root dir p s =
     (case content_remove root dir p (snd s) of
        (Inr _, f) \<Rightarrow> (Inr (), (fst s, f))
      | (Inl _, f) \<Rightarrow> (Inl (FIo p), (fst s, f)))"

section \<open>Directories\<close>

definition dir_taken :: "files \<Rightarrow> string \<Rightarrow> bool" where
  "dir_taken F dir \<longleftrightarrow> dir \<in> set (map snd (f_roots F))"

definition group_short :: "group_id \<Rightarrow> string" where
  "group_short g = hex_encode (take 4 (group_bytes g))"

function dir_search :: "files \<Rightarrow> string \<Rightarrow> string \<Rightarrow> nat \<Rightarrow> string \<Rightarrow> string option" where
  "dir_search F base full width candidate =
     (if \<not> dir_taken F candidate then Some candidate
      else if length full < width then None
      else dir_search F base full (width + 4) (base @ ''-'' @ take width full))"
  by pat_completeness auto
termination by (relation "measure (\<lambda>(F, base, full, width, candidate). Suc (length full) - width)") auto

declare dir_search.simps [simp del]

definition files_dir_for :: "group_id \<Rightarrow> string \<Rightarrow> files \<Rightarrow> (files_error + string) \<times> files" where
  "files_dir_for g name F =
     (case map_of (f_roots F) g of
        Some dir \<Rightarrow> (Inr dir, F)
      | None \<Rightarrow>
          let base = (case sanitize name of Some d \<Rightarrow> d | None \<Rightarrow> group_short g) in
          case dir_search F base (group_id_show g) 8 base of
            None \<Rightarrow> (Inl (FNoDirectory g), F)
          | Some dir \<Rightarrow> (Inr dir, F\<lparr>f_roots := om_put g dir (f_roots F)\<rparr>))"

definition files_dir_of :: "files \<Rightarrow> group_id \<Rightarrow> string option" where
  "files_dir_of F g = map_of (f_roots F) g"

definition files_group_dirs :: "files \<Rightarrow> (group_id \<times> string) list" where
  "files_group_dirs F = f_roots F"

section \<open>Recording\<close>

definition files_record :: "group_id \<Rightarrow> file_row \<Rightarrow> bool \<Rightarrow> recorded tx" where
  "files_record g row replace = transaction
     (tx_bind (tx_get (\<lambda>F. read_row F g (fl_path row))) (\<lambda>existing.
        let write = (\<lambda>outcome.
              tx_bind (write_row g row (fl_have row)) (\<lambda>_.
              tx_bind (tx_update (note_local g (fl_added_at row))) (\<lambda>_. tx_return outcome)))
        in case existing of
             None \<Rightarrow> write RecAdded
           | Some old \<Rightarrow>
               if is_removed old then write RecAdded
               else if fl_hash old = fl_hash row then tx_return RecUnchanged
               else if \<not> replace then tx_fail (FConflict (fl_path row) (fl_hash old))
               else write RecReplaced))"

section \<open>Merging a peer's row\<close>

text \<open>
  What \<open>merge\<close> decides from the local row: nothing when the incoming one is rejected, else the row
  to settle on, whether it changes nothing, and the local row it displaces.
\<close>

definition merge_removed :: "int option \<Rightarrow> int option \<Rightarrow> int option" where
  "merge_removed a b =
     (case (a, b) of (Some x, Some y) \<Rightarrow> Some (max x y) | (Some x, None) \<Rightarrow> Some x | (None, b) \<Rightarrow> b)"

definition merge_settle :: "file_row \<Rightarrow> file_row option \<Rightarrow> (file_row \<times> bool \<times> file_row option) option" where
  "merge_settle incoming local_row =
     (case local_row of
        None \<Rightarrow> Some (incoming, False, None)
      | Some l \<Rightarrow>
          if fl_hash l = fl_hash incoming then
            let added = min (fl_added_at l) (fl_added_at incoming);
                removed = merge_removed (fl_removed_at l) (fl_removed_at incoming)
            in Some (incoming\<lparr>fl_added_at := added, fl_removed_at := removed\<rparr>,
                 added = fl_added_at l \<and> removed = fl_removed_at l, None)
          else if \<not> is_removed l \<and> \<not> is_removed incoming then
            if wins_path incoming l then Some (incoming, False, Some l)
            else Some (incoming\<lparr>fl_path := conflict_name (fl_path incoming) (fl_hash incoming)\<rparr>, False, None)
          else if \<not> wins_path incoming l then None
          else Some (incoming, False, None))"

definition merge_displace :: "location \<Rightarrow> string \<Rightarrow> group_id \<Rightarrow> file_row option \<Rightarrow> merged \<Rightarrow> merged tx" where
  "merge_displace root dir g displaced outcome =
     (case displaced of
        None \<Rightarrow> tx_return outcome
      | Some loser \<Rightarrow>
          let moved = conflict_name (fl_path loser) (fl_hash loser) in
          tx_bind (if fl_have loser then move_bytes root dir (fl_path loser) moved else tx_return False) (\<lambda>held.
          tx_bind (write_row g (loser\<lparr>fl_path := moved\<rparr>) held) (\<lambda>_. tx_return (MConflicted moved))))"

definition merge_store :: "group_id \<Rightarrow> file_row option \<Rightarrow> file_row \<Rightarrow> merged \<Rightarrow> unit tx" where
  "merge_store g local_row settled outcome =
     (if outcome = MUnchanged then tx_return ()
      else
        let have_it = (case local_row of
              Some l \<Rightarrow> fl_have l \<and> fl_hash l = fl_hash settled \<and> fl_path l = fl_path settled | None \<Rightarrow> False)
        in tx_bind (write_row g settled have_it) (\<lambda>_.
             if \<not> have_it \<and> \<not> is_removed settled then tx_update (note_wanted g) else tx_return ()))"

definition tombstone_at :: "group_id \<Rightarrow> relpath \<Rightarrow> int \<Rightarrow> nat \<Rightarrow> files \<Rightarrow> files" where
  "tombstone_at g p at seq F =
     (case read_row F g p of
        Some r \<Rightarrow> F\<lparr>f_rows := om_put (g, p) (r\<lparr>fl_removed_at := Some at, fl_have := False, fl_seen_seq := seq\<rparr>) (f_rows F)\<rparr>
      | None \<Rightarrow> F)"

definition tombstone_tx :: "group_id \<Rightarrow> relpath \<Rightarrow> int \<Rightarrow> unit tx" where
  "tombstone_tx g p at s =
     (let (seq, F1) = next_seq g (fst s) in
      if I64_MAX < seq then (Inl FCorruptRow, (F1, snd s)) else (Inr (), (tombstone_at g p at seq F1, snd s)))"

definition row_have :: "files \<Rightarrow> group_id \<Rightarrow> relpath \<Rightarrow> bool" where
  "row_have F g p = (case read_row F g p of Some r \<Rightarrow> fl_have r | None \<Rightarrow> False)"

definition merge_drop :: "location \<Rightarrow> string \<Rightarrow> group_id \<Rightarrow> file_row \<Rightarrow> file_row \<Rightarrow> merged tx" where
  "merge_drop root dir g keep gone =
     tx_bind (tx_get (\<lambda>F. row_have F g (fl_path keep))) (\<lambda>keep_have.
     tx_bind (tx_get (\<lambda>F. row_have F g (fl_path gone))) (\<lambda>drop_have.
     tx_bind
       (if drop_have \<and> \<not> keep_have then
          tx_bind (move_bytes root dir (fl_path gone) (fl_path keep)) (\<lambda>moved.
            if moved then tx_bind (write_row g keep True) (\<lambda>_. tx_return ()) else tx_return ())
        else if drop_have then remove_bytes root dir (fl_path gone)
        else tx_return ()) (\<lambda>_.
     tx_bind (tombstone_tx g (fl_path gone) (max (fl_added_at gone) (fl_added_at keep))) (\<lambda>_.
       tx_return (MDeduplicated (fl_path keep) (fl_path gone))))))"

definition merge_twin :: "location \<Rightarrow> string \<Rightarrow> group_id \<Rightarrow> file_row \<Rightarrow> merged \<Rightarrow> merged tx" where
  "merge_twin root dir g settled outcome =
     (if is_removed settled then tx_return outcome
      else tx_bind (tx_get (\<lambda>F. read_twin F g settled)) (\<lambda>found.
        case found of
          None \<Rightarrow> tx_return outcome
        | Some twin \<Rightarrow>
            if wins_hash settled twin then merge_drop root dir g settled twin
            else merge_drop root dir g twin settled))"

definition files_merge :: "location \<Rightarrow> group_id \<Rightarrow> file_row \<Rightarrow> string \<Rightarrow> merged tx" where
  "files_merge root g incoming dir = transaction
     (tx_bind (tx_get (\<lambda>F. read_row F g (fl_path incoming))) (\<lambda>local_row.
        case merge_settle incoming local_row of
          None \<Rightarrow> tx_return MRejected
        | Some (settled, same, displaced) \<Rightarrow>
            tx_bind (merge_displace root dir g displaced (if same then MUnchanged else MApplied)) (\<lambda>outcome.
            tx_bind (merge_store g local_row settled outcome) (\<lambda>_.
              merge_twin root dir g settled outcome))))"

section \<open>Removing\<close>

definition delete_row :: "group_id \<Rightarrow> relpath \<Rightarrow> files \<Rightarrow> files" where
  "delete_row g p F = F\<lparr>f_rows := om_del (g, p) (f_rows F)\<rparr>"

definition files_remove :: "group_id \<Rightarrow> relpath \<Rightarrow> int \<Rightarrow> files \<Rightarrow> (files_error + bool) \<times> files" where
  "files_remove g p at F =
     (case read_row F g p of
        None \<Rightarrow> (Inr False, F)
      | Some row \<Rightarrow>
          if is_removed row then (Inr False, F)
          else
            let (seq, F1) = next_seq g F in
            if served_seq F g < fl_seen_seq row then (Inr True, note_local g at (delete_row g p F1))
            else if I64_MAX < seq then (Inl FCorruptRow, F)
            else (Inr True, note_local g at (tombstone_at g p at seq F1)))"

section \<open>Queries\<close>

definition files_get :: "files \<Rightarrow> group_id \<Rightarrow> relpath \<Rightarrow> file_row option" where
  "files_get F g p = read_row F g p"

definition files_count :: "files \<Rightarrow> group_id \<Rightarrow> nat" where
  "files_count F g = length (rows_in F g)"

text \<open>SQLite's \<open>LIKE\<close> ignores the case of ASCII letters; \<open>escape_like\<close> leaves it no wildcard.\<close>

definition ascii_fold :: "char \<Rightarrow> char" where
  "ascii_fold c = (if is_ascii_upper c then byte (code c + 32) else c)"

definition files_list :: "files \<Rightarrow> group_id \<Rightarrow> string option \<Rightarrow> bool \<Rightarrow> file_row list" where
  "files_list F g prefix include_removed =
     filter (\<lambda>r. (include_removed \<or> \<not> is_removed r)
       \<and> (case prefix of None \<Rightarrow> True | Some p \<Rightarrow> map ascii_fold (take (length p) (path_str (fl_path r))) = map ascii_fold p))
       (rows_in F g)"

definition row_held :: "file_row \<Rightarrow> bool" where
  "row_held r \<longleftrightarrow> fl_have r \<and> \<not> is_removed r"

definition files_unfinished :: "files \<Rightarrow> group_id \<Rightarrow> relpath list" where
  "files_unfinished F g = map fl_path (filter (\<lambda>r. \<not> is_removed r \<and> \<not> fl_have r) (rows_in F g))"

definition path_of_hash :: "files \<Rightarrow> group_id \<Rightarrow> string \<Rightarrow> relpath option" where
  "path_of_hash F g hash =
     (case oldest_first (filter (\<lambda>r. fl_hash r = hash \<and> \<not> is_removed r) (rows_in F g)) of
        [] \<Rightarrow> None | r # _ \<Rightarrow> Some (fl_path r))"

definition held_anywhere :: "files \<Rightarrow> string \<Rightarrow> bool" where
  "held_anywhere F hash \<longleftrightarrow> list_ex (\<lambda>(k, r). fl_hash r = hash \<and> row_held r) (f_rows F)"

definition BIND_LIMIT :: nat where "BIND_LIMIT = 500"

text \<open>\<open>slice::chunks\<close>.\<close>

function chunks :: "nat \<Rightarrow> 'a list \<Rightarrow> 'a list list" where
  "chunks n xs = (if xs = [] \<or> n = 0 then [] else take n xs # chunks n (drop n xs))"
  by pat_completeness auto
termination by (relation "measure (\<lambda>(n, xs). length xs)") auto

declare chunks.simps [simp del]

definition held_any_of :: "files \<Rightarrow> string list \<Rightarrow> string set" where
  "held_any_of F hashes =
     fold (\<lambda>batch out. out \<union> set (map (\<lambda>(k, r). fl_hash r)
         (filter (\<lambda>(k, r). fl_hash r \<in> set batch \<and> row_held r) (f_rows F))))
       (chunks BIND_LIMIT hashes) {}"

definition mark_have :: "group_id \<Rightarrow> relpath \<Rightarrow> bool \<Rightarrow> files \<Rightarrow> files" where
  "mark_have g p have_it F =
     (case read_row F g p of
        Some r \<Rightarrow> F\<lparr>f_rows := om_put (g, p) (r\<lparr>fl_have := have_it\<rparr>) (f_rows F)\<rparr>
      | None \<Rightarrow> F)"

definition missing_count :: "files \<Rightarrow> group_id \<Rightarrow> nat" where
  "missing_count F g = length (filter (\<lambda>r. \<not> fl_have r \<and> \<not> is_removed r) (rows_in F g))"

definition held_bytes :: "files \<Rightarrow> nat" where
  "held_bytes F = sum_list (map (\<lambda>(k, r). unat (fl_size r)) (filter (\<lambda>(k, r). row_held r) (f_rows F)))"

definition held_bytes_of :: "files \<Rightarrow> group_id \<Rightarrow> nat" where
  "held_bytes_of F g = sum_list (map (\<lambda>r. unat (fl_size r)) (filter row_held (rows_in F g)))"

definition held_bytes_by_group :: "files \<Rightarrow> (group_id \<times> nat) list" where
  "held_bytes_by_group F =
     sort_key (\<lambda>(g, n). - int n) (filter (\<lambda>(g, n). 0 < n)
       (map (\<lambda>g. (g, held_bytes_of F g)) (remdups (map (\<lambda>((g, p), r). g) (f_rows F)))))"

definition files_missing :: "files \<Rightarrow> group_id \<Rightarrow> relpath option \<Rightarrow> nat \<Rightarrow> file_row list" where
  "files_missing F g after limit =
     take (i64_clamp limit) (filter (\<lambda>r. \<not> fl_have r \<and> \<not> is_removed r
       \<and> (case after of None \<Rightarrow> True | Some p \<Rightarrow> p < fl_path r)) (rows_in F g))"

end
