(* ===== verification/PathTheorems.thy ===== *)
theory PathTheorems
  imports Paths Username
begin

text \<open>
  Properties of group paths and directory names: exactly which texts are accepted, that a
  path stays inside its group, where a conflicting file goes, and that a directory name is safe.
\<close>

declare trim_edges.simps [simp del]

section \<open>Splitting and joining\<close>

lemma split_on_not_Nil [simp]: "split_on c s \<noteq> []"
  by (cases s) (simp_all split: list.split)

lemma join_Cons: "ts \<noteq> [] \<Longrightarrow> join_with c (s # ts) = s @ c # join_with c ts"
  by (cases ts) simp_all

lemma join_split: "join_with c (split_on c s) = s"
proof (induction s)
  case (Cons x s)
  obtain h t where ht: "split_on c s = h # t" by (cases "split_on c s") auto
  with Cons show ?case by (cases t) auto
qed simp

lemma split_parts: "t \<in> set (split_on c s) \<Longrightarrow> c \<notin> set t"
proof (induction s arbitrary: t)
  case (Cons x s)
  obtain h r where hr: "split_on c s = h # r" by (cases "split_on c s") auto
  with Cons show ?case by (auto split: if_splits)
qed simp

lemma split_append: "c \<notin> set s \<Longrightarrow> split_on c (s @ c # r) = s # split_on c r"
  by (induction s) (auto split: list.split)

lemma split_single: "c \<notin> set s \<Longrightarrow> split_on c s = [s]"
  by (induction s) auto

lemma split_join: "ts \<noteq> [] \<Longrightarrow> \<forall>t \<in> set ts. c \<notin> set t \<Longrightarrow> split_on c (join_with c ts) = ts"
  by (induction c ts rule: join_with.induct) (simp_all add: split_append split_single)

lemma set_join: "set (join_with c ts) \<subseteq> insert c (\<Union> (set ` set ts))"
  by (induction c ts rule: join_with.induct) auto

section \<open>Control characters\<close>

definition control_at :: "string \<Rightarrow> nat \<Rightarrow> bool" where
  "control_at s i \<longleftrightarrow> i < length s \<and> (code (s ! i) < 32 \<or> code (s ! i) = 127
     \<or> code (s ! i) = 194 \<and> Suc i < length s \<and> 128 \<le> code (s ! Suc i) \<and> code (s ! Suc i) < 160)"

lemma all_nat_cases: "(\<forall>i::nat. P i) \<longleftrightarrow> P 0 \<and> (\<forall>i. P (Suc i))"
  using nat.exhaust by metis

lemma control_Suc [simp]: "control_at (c # s) (Suc i) \<longleftrightarrow> control_at s i"
  by (simp add: control_at_def)

lemma find_control_iff: "find_control s = None \<longleftrightarrow> (\<forall>i. \<not> control_at s i)"
proof (induction s rule: find_control.induct)
  case (2 c s)
  have shift: "(\<forall>i. \<not> control_at (c # s) i) \<longleftrightarrow> \<not> control_at (c # s) 0 \<and> (\<forall>i. \<not> control_at s i)"
    by (subst all_nat_cases) simp
  show ?case
  proof (cases s)
    case Nil
    then show ?thesis unfolding shift by (simp add: control_at_def find_control.simps)
  next
    case (Cons d t)
    show ?thesis
    proof (cases "control_at (c # s) 0")
      case True
      with Cons have "find_control (c # s) \<noteq> None" by (auto simp: control_at_def find_control.simps)
      with True show ?thesis by blast
    next
      case False
      then have "\<not> (code c < 32 \<or> code c = 127)" "\<not> (code c = 194 \<and> 128 \<le> code d \<and> code d < 160)"
        using Cons by (auto simp: control_at_def)
      with 2 [OF this(1) Cons this(2)] shift False Cons show ?thesis by (auto simp: Cons find_control.simps(2) [of c])
    qed
  qed
qed (simp add: control_at_def find_control.simps)

lemma control_prefix: "control_at (take n s) i \<Longrightarrow> control_at s i"
  by (auto simp: control_at_def)

lemma control_suffix: "control_at s i \<Longrightarrow> control_at (p @ s) (length p + i)"
  by (auto simp: control_at_def nth_append)

lemma no_control_infix: "find_control (p @ s @ q) = None \<Longrightarrow> find_control s = None"
proof -
  assume a: "find_control (p @ s @ q) = None"
  have "\<not> control_at s i" for i
  proof
    assume "control_at s i"
    then have "control_at (s @ q) i" using control_prefix [of "length s" "s @ q" i] by simp
    from control_suffix [OF this] a show False by (auto simp: find_control_iff)
  qed
  then show ?thesis by (simp add: find_control_iff)
qed

section \<open>Accepted paths\<close>

definition safe_component :: "string \<Rightarrow> bool" where
  "safe_component c \<longleftrightarrow> c \<noteq> [] \<and> c \<noteq> ''.'' \<and> c \<noteq> ''..'' \<and> length c \<le> 255 \<and> find_control c = None
     \<and> CHR ''/'' \<notin> set c \<and> CHR 0x5C \<notin> set c"

lemma check_components_iff:
  "check_components cs = Inr u \<longleftrightarrow> (\<forall>c \<in> set cs. c \<noteq> [] \<and> c \<noteq> ''.'' \<and> c \<noteq> ''..''
     \<and> length c \<le> MAX_COMPONENT \<and> find_control c = None)"
  by (induction cs) (auto split: option.split)

lemma split_set: "set s \<subseteq> insert c (\<Union> (set ` set (split_on c s)))"
  using set_join [of c "split_on c s"] by (simp add: join_split)

lemma split_subset: "t \<in> set (split_on c s) \<Longrightarrow> set t \<subseteq> set s"
proof (induction s arbitrary: t)
  case (Cons x s)
  obtain h r where hr: "split_on c s = h # r" by (cases "split_on c s") auto
  with Cons.IH [of h] Cons.IH [of t] Cons.prems show ?case by (auto split: if_splits)
qed simp

lemma parse_iff:
  "relpath_parse raw = Inr p \<longleftrightarrow> p = RelPath raw \<and> length raw \<le> 1024
     \<and> (\<forall>c \<in> set (split_on CHR ''/'' raw). safe_component c)"
proof -
  have bs: "CHR 0x5C \<in> set raw \<longleftrightarrow> (\<exists>c \<in> set (split_on CHR ''/'' raw). CHR 0x5C \<in> set c)"
  proof
    assume "CHR 0x5C \<in> set raw"
    with split_set [of raw "CHR ''/''"] have "CHR 0x5C \<in> insert CHR ''/'' (\<Union> (set ` set (split_on CHR ''/'' raw)))"
      by (rule subsetD)
    then show "\<exists>c \<in> set (split_on CHR ''/'' raw). CHR 0x5C \<in> set c" by simp
  next
    assume "\<exists>c \<in> set (split_on CHR ''/'' raw). CHR 0x5C \<in> set c"
    then obtain c where c: "c \<in> set (split_on CHR ''/'' raw)" "CHR 0x5C \<in> set c" ..
    from subsetD [OF split_subset [OF c(1)] c(2)] show "CHR 0x5C \<in> set raw" .
  qed
  have abs: "take 1 raw = ''/'' \<Longrightarrow> [] \<in> set (split_on CHR ''/'' raw)" by (cases raw) auto
  have slash: "c \<in> set (split_on CHR ''/'' raw) \<Longrightarrow> CHR ''/'' \<notin> set c" for c by (rule split_parts)
  show ?thesis
  proof
    assume "relpath_parse raw = Inr p"
    then have a: "length raw \<le> 1024" "CHR 0x5C \<notin> set raw" "p = RelPath raw"
      "check_components (split_on CHR ''/'' raw) = Inr ()"
      by (simp_all add: relpath_parse_def bindE_Inr_iff MAX_PATH_def split: if_splits)
    have "safe_component c" if c: "c \<in> set (split_on CHR ''/'' raw)" for c
    proof -
      have "CHR 0x5C \<notin> set c" using bs a(2) c by blast
      with slash [OF c] a(4) c show ?thesis by (simp add: safe_component_def check_components_iff MAX_COMPONENT_def)
    qed
    with a show "p = RelPath raw \<and> length raw \<le> 1024 \<and> (\<forall>c \<in> set (split_on CHR ''/'' raw). safe_component c)"
      by blast
  next
    assume a: "p = RelPath raw \<and> length raw \<le> 1024 \<and> (\<forall>c \<in> set (split_on CHR ''/'' raw). safe_component c)"
    then have "check_components (split_on CHR ''/'' raw) = Inr ()"
      by (auto simp: check_components_iff safe_component_def MAX_COMPONENT_def)
    moreover have all: "safe_component c" if "c \<in> set (split_on CHR ''/'' raw)" for c using a that by blast
    have "CHR 0x5C \<notin> set raw" unfolding bs using all by (auto simp: safe_component_def)
    moreover have "[] \<notin> set (split_on CHR ''/'' raw)" using all [of "[]"] by (auto simp: safe_component_def)
    then have "take 1 raw \<noteq> ''/''" "raw \<noteq> []" using abs by auto
    ultimately show "relpath_parse raw = Inr p" using a by (simp add: relpath_parse_def MAX_PATH_def)
  qed
qed

lemma parse_safe:
  "relpath_parse raw = Inr p \<longleftrightarrow> p = RelPath raw \<and> length raw \<le> 1024
     \<and> (\<exists>cs. cs \<noteq> [] \<and> raw = join_with CHR ''/'' cs \<and> (\<forall>c \<in> set cs. safe_component c))"
proof -
  have "(\<forall>c \<in> set (split_on CHR ''/'' raw). safe_component c)
      \<longleftrightarrow> (\<exists>cs. cs \<noteq> [] \<and> raw = join_with CHR ''/'' cs \<and> (\<forall>c \<in> set cs. safe_component c))"
  proof
    assume "\<forall>c \<in> set (split_on CHR ''/'' raw). safe_component c"
    then show "\<exists>cs. cs \<noteq> [] \<and> raw = join_with CHR ''/'' cs \<and> (\<forall>c \<in> set cs. safe_component c)"
      by (intro exI [of _ "split_on CHR ''/'' raw"]) (simp add: join_split)
  next
    assume "\<exists>cs. cs \<noteq> [] \<and> raw = join_with CHR ''/'' cs \<and> (\<forall>c \<in> set cs. safe_component c)"
    then obtain cs where cs: "cs \<noteq> []" "raw = join_with CHR ''/'' cs" "\<forall>c \<in> set cs. safe_component c" by blast
    then have "split_on CHR ''/'' raw = cs" using split_join [of cs "CHR ''/''"] by (auto simp: safe_component_def)
    with cs show "\<forall>c \<in> set (split_on CHR ''/'' raw). safe_component c" by simp
  qed
  with parse_iff show ?thesis by simp
qed

lemma split_safe: "cs \<noteq> [] \<Longrightarrow> \<forall>c \<in> set cs. safe_component c \<Longrightarrow> split_on CHR ''/'' (join_with CHR ''/'' cs) = cs"
  by (rule split_join) (auto simp: safe_component_def)

lemma push_leaves:
  assumes "\<exists>c \<in> set cs. has_drive c"
  shows "\<not> buf_rooted (fold (path_push Windows) cs b)" "fold (path_push Windows) cs b = fold (path_push Windows) cs b'"
proof -
  from assms obtain xs c ys where "cs = xs @ c # ys" "has_drive c" by (auto dest: split_list)
  then show "\<not> buf_rooted (fold (path_push Windows) cs b)" "fold (path_push Windows) cs b = fold (path_push Windows) cs b'"
    by (simp_all add: path_push_def push_drive)
qed

text \<open>C36. What a group path is. A text is accepted exactly when it is at most 1024 bytes long and
  is one or more components joined by slashes, each 1 to 255 bytes, none \<open>.\<close> or \<open>..\<close>, without
  control characters, slashes or backslashes; the path is then that text. Joined under a directory on Unix
  it is the directory followed by those components, so it never leaves the directory. On Windows that holds
  exactly of the paths none of whose components starts with a drive prefix (a letter and a colon, which is accepted):
  any other path, joined under whatever directory, is one and the same path relative to the current directory of a
  drive.\<close>

theorem parse_inside:
  "relpath_parse raw = Inr p \<longleftrightarrow>
     (\<exists>cs. cs \<noteq> [] \<and> raw = join_with CHR ''/'' cs \<and> length raw \<le> 1024 \<and> (\<forall>c \<in> set cs. safe_component c)
        \<and> path_str p = raw
        \<and> join_under Unix p dir = dir\<lparr>buf_names := buf_names dir @ cs\<rparr>
        \<and> (if \<exists>c \<in> set cs. has_drive c
            then \<not> buf_rooted (join_under Windows p dir) \<and> (\<forall>dir'. join_under Windows p dir' = join_under Windows p dir)
           else join_under Windows p dir = dir\<lparr>buf_names := buf_names dir @ cs\<rparr>))"
proof
  assume "relpath_parse raw = Inr p"
  then obtain cs where p: "p = RelPath raw" "length raw \<le> 1024" "cs \<noteq> []" "raw = join_with CHR ''/'' cs"
    and cs: "\<forall>c \<in> set cs. safe_component c" by (auto simp: parse_safe)
  have split: "split_on CHR ''/'' (path_str p) = cs" using p split_safe cs by simp
  have "(if \<exists>c \<in> set cs. has_drive c
            then \<not> buf_rooted (join_under Windows p dir) \<and> (\<forall>dir'. join_under Windows p dir' = join_under Windows p dir)
      else join_under Windows p dir = dir\<lparr>buf_names := buf_names dir @ cs\<rparr>)"
    using push_leaves [of cs] push_plain [of Windows cs dir] by (auto simp: join_under_def split)
  moreover have "join_under Unix p dir = dir\<lparr>buf_names := buf_names dir @ cs\<rparr>"
    by (simp add: join_under_def split push_plain)
  ultimately show "\<exists>cs. cs \<noteq> [] \<and> raw = join_with CHR ''/'' cs \<and> length raw \<le> 1024
      \<and> (\<forall>c \<in> set cs. safe_component c) \<and> path_str p = raw
      \<and> join_under Unix p dir = dir\<lparr>buf_names := buf_names dir @ cs\<rparr>
      \<and> (if \<exists>c \<in> set cs. has_drive c
            then \<not> buf_rooted (join_under Windows p dir) \<and> (\<forall>dir'. join_under Windows p dir' = join_under Windows p dir)
         else join_under Windows p dir = dir\<lparr>buf_names := buf_names dir @ cs\<rparr>)"
    using p cs by (intro exI [of _ cs]) simp
next
  assume "\<exists>cs. cs \<noteq> [] \<and> raw = join_with CHR ''/'' cs \<and> length raw \<le> 1024
      \<and> (\<forall>c \<in> set cs. safe_component c) \<and> path_str p = raw
      \<and> join_under Unix p dir = dir\<lparr>buf_names := buf_names dir @ cs\<rparr>
      \<and> (if \<exists>c \<in> set cs. has_drive c
            then \<not> buf_rooted (join_under Windows p dir) \<and> (\<forall>dir'. join_under Windows p dir' = join_under Windows p dir)
         else join_under Windows p dir = dir\<lparr>buf_names := buf_names dir @ cs\<rparr>)"
  then show "relpath_parse raw = Inr p" by (cases p) (auto simp: parse_safe)
qed

section \<open>Conflicting paths\<close>

lemma rfind_Some:
  assumes "rfind c s = Some n"
  shows "n < length s \<and> s ! n = c \<and> c \<notin> set (drop (Suc n) s)"
proof -
  let ?k = "length (takeWhile (\<lambda>x. x \<noteq> c) (rev s))"
  have k: "?k < length s" "n = length s - Suc ?k"
    using assms length_takeWhile_le [of "\<lambda>x. x \<noteq> c" "rev s"] by (auto simp: rfind_def Let_def split: if_splits)
  have "rev s ! ?k = c" using nth_length_takeWhile [of "\<lambda>x. x \<noteq> c" "rev s"] k(1) by simp
  then have "s ! n = c" using k by (simp add: rev_nth)
  have "takeWhile (\<lambda>x. x \<noteq> c) (rev s) = take ?k (rev s)" by (rule takeWhile_eq_take)
  moreover have "length s - ?k = Suc n" using k by linarith
  ultimately have "takeWhile (\<lambda>x. x \<noteq> c) (rev s) = rev (drop (Suc n) s)" by (simp add: take_rev)
  then have "c \<notin> set (rev (drop (Suc n) s))" using set_takeWhileD by metis
  with \<open>s ! n = c\<close> show ?thesis using k by simp
qed

lemma rfind_None: "rfind c s = None \<longleftrightarrow> c \<notin> set s"
proof -
  have "length (takeWhile (\<lambda>x. x \<noteq> c) (rev s)) = length s \<longleftrightarrow> takeWhile (\<lambda>x. x \<noteq> c) (rev s) = rev s"
    by (metis length_rev takeWhile_eq_take take_all_iff order_refl)
  then show ?thesis by (auto simp: rfind_def Let_def takeWhile_eq_all_conv split: if_splits)
qed

lemma split_dir_parts: "split_dir s = (d, n) \<Longrightarrow> s = d @ n \<and> CHR ''/'' \<notin> set n \<and> (d = [] \<or> last d = CHR ''/'')"
  by (auto simp: split_dir_def rfind_None dest!: rfind_Some split: option.splits)
    (metis last_snoc take_Suc_conv_app_nth)

lemma split_ext_parts: "split_ext n = (st, e) \<Longrightarrow> n = st @ e"
  by (auto simp: split_ext_def Let_def split: option.splits)

lemma cut_back_le: "cut_back s n \<le> n"
  by (induction s n rule: cut_back.induct) auto

lemma cut_back_all: "cut_back s (length s) = length s"
  by (cases "length s") (simp_all add: is_char_boundary_def)

lemma join_last: "join_with c (ts @ [t]) = (if ts = [] then t else join_with c ts @ c # t)"
proof (induction ts)
  case (Cons s ts)
  then show ?case by (cases ts) (simp_all add: join_Cons)
qed simp

lemma conflict_name_cases:
  assumes "split_dir (path_str p) = (dir, name)" "split_ext name = (stem, ext)"
  obtains k where "k \<le> length stem" "k + length (conflict_mark hash) + length ext \<le> max 255 (length (conflict_mark hash) + length ext)"
    "length stem + length (conflict_mark hash) + length ext \<le> 255 \<Longrightarrow> k = length stem"
    "conflict_name p hash = (case relpath_parse (dir @ take k stem @ conflict_mark hash @ ext) of Inr q \<Rightarrow> q | Inl _ \<Rightarrow> p)"
proof
  let ?room = "255 - (length (conflict_mark hash) + length ext)"
  let ?k = "cut_back stem (min ?room (length stem))"
  have k: "?k \<le> min ?room (length stem)" by (rule cut_back_le)
  then show "?k \<le> length stem"
    and "?k + length (conflict_mark hash) + length ext \<le> max 255 (length (conflict_mark hash) + length ext)" by linarith+
  show "?k = length stem" if "length stem + length (conflict_mark hash) + length ext \<le> 255"
  proof -
    have "min ?room (length stem) = length stem" using that by linarith
    then show ?thesis by (simp add: cut_back_all)
  qed
  show "conflict_name p hash = (case relpath_parse (dir @ take ?k stem @ conflict_mark hash @ ext) of Inr q \<Rightarrow> q | Inl _ \<Rightarrow> p)"
    using assms by (simp add: conflict_name_def Let_def MAX_COMPONENT_def)
qed

lemma split_middle: "split_on c (s @ c # r) = split_on c s @ split_on c r"
proof (induction s)
  case (Cons x s)
  obtain h t where "split_on c s = h # t" by (cases "split_on c s") auto
  with Cons show ?case by simp
qed simp

lemma split_dir_on:
  assumes "d = [] \<or> last d = CHR ''/''" "CHR ''/'' \<notin> set n"
  shows "\<exists>cs. \<forall>m. CHR ''/'' \<notin> set m \<longrightarrow> split_on CHR ''/'' (d @ m) = cs @ [m]"
proof (cases "d = []")
  case True
  then show ?thesis by (intro exI [of _ "[]"]) (simp add: split_single)
next
  case False
  then obtain d' where "d = d' @ [CHR ''/'']" using assms(1) by (metis append_butlast_last_id)
  then show ?thesis by (intro exI [of _ "split_on CHR ''/'' d'"]) (simp add: split_middle split_single)
qed

lemma no_control_append:
  assumes "find_control a = None" "find_control b = None" "b = [] \<or> code (hd b) < 128"
  shows "find_control (a @ b) = None"
proof -
  have "\<not> control_at (a @ b) i" for i
  proof
    assume c: "control_at (a @ b) i"
    show False
    proof (cases "i < length a")
      case True
      with assms(1) have "\<not> control_at a i" by (simp add: find_control_iff)
      with c True have "Suc i = length a" "b \<noteq> []" "128 \<le> code ((a @ b) ! Suc i)"
        by (auto simp: control_at_def nth_append not_less split: if_splits)
      then show False using assms(3) by (simp add: nth_append hd_conv_nth)
    next
      case False
      then have "control_at b (i - length a)" using c by (auto simp: control_at_def nth_append Suc_diff_le)
      with assms(2) show False by (simp add: find_control_iff)
    qed
  qed
  then show ?thesis by (simp add: find_control_iff)
qed

lemma no_control_plain: "\<forall>c \<in> set s. 32 \<le> code c \<and> code c < 127 \<Longrightarrow> find_control s = None"
proof -
  assume a: "\<forall>c \<in> set s. 32 \<le> code c \<and> code c < 127"
  have "\<not> control_at s i" for i
  proof
    assume "control_at s i"
    then have "s ! i \<in> set s" "code (s ! i) < 32 \<or> code (s ! i) = 127 \<or> code (s ! i) = 194" by (auto simp: control_at_def)
    with a show False by fastforce
  qed
  then show ?thesis by (simp add: find_control_iff)
qed

lemma mark_plain:
  assumes "\<forall>c \<in> set hash. is_ascii_alphanumeric c"
  shows "\<forall>c \<in> set (conflict_mark hash). 32 \<le> code c \<and> code c < 127 \<and> c \<noteq> CHR ''/'' \<and> c \<noteq> CHR 0x5C"
proof
  fix c assume "c \<in> set (conflict_mark hash)"
  then have "c \<in> set ''.conflict-'' \<or> c \<in> set hash" by (auto simp: conflict_mark_def dest: in_set_takeD)
  then show "32 \<le> code c \<and> code c < 127 \<and> c \<noteq> CHR ''/'' \<and> c \<noteq> CHR 0x5C"
  proof
    assume "c \<in> set hash"
    with assms have "is_ascii_alphanumeric c" by blast
    then have "32 \<le> code c \<and> code c < 127 \<and> code c \<noteq> 47 \<and> code c \<noteq> 92"
      by (auto simp: is_ascii_alphanumeric_def is_ascii_lower_def is_ascii_upper_def is_ascii_digit_def)
    then show ?thesis by (auto simp: code_def)
  qed (auto simp: code_def)
qed

lemma split_ext_hd: "split_ext n = (st, e) \<Longrightarrow> e = [] \<or> hd e = CHR ''.''"
proof -
  assume s: "split_ext n = (st, e)"
  define f where "f = (case n of c # _ \<Rightarrow> min (lead_width c) (length n) | [] \<Rightarrow> 0)"
  show ?thesis
  proof (cases "rfind CHR ''.'' (drop f n)")
    case None
    with s show ?thesis by (simp add: split_ext_def f_def [symmetric])
  next
    case (Some at)
    from rfind_Some [OF this] have "at + f < length n" "n ! (f + at) = CHR ''.''"
      by (auto simp: add.commute less_diff_conv)
    moreover have "e = drop (at + f) n" using s Some by (simp add: split_ext_def f_def [symmetric])
    ultimately show ?thesis by (simp add: hd_drop_conv_nth add.commute)
  qed
qed

lemma long_not_dots: "3 \<le> length s \<Longrightarrow> s \<notin> {[], ''.'', ''..''}"
  by auto

lemma conflict_component:
  assumes "safe_component name" "split_ext name = (stem, ext)" "\<forall>c \<in> set hash. is_ascii_alphanumeric c"
    and "length (take k stem @ conflict_mark hash @ ext) \<le> 255"
  shows "safe_component (take k stem @ conflict_mark hash @ ext)"
proof -
  have n: "name = stem @ ext" using split_ext_parts [OF assms(2)] .
  have c: "find_control name = None" "CHR ''/'' \<notin> set name" "CHR 0x5C \<notin> set name"
    using assms(1) by (simp_all add: safe_component_def)
  have ctl: "find_control (take k stem) = None" "find_control ext = None"
    using no_control_infix [of "[]" "take k stem" "drop k stem @ ext"] no_control_infix [of stem ext "[]"] c(1) n
    by (simp_all flip: append_assoc)
  note plain = mark_plain [OF assms(3)]
  have "find_control (conflict_mark hash) = None" using no_control_plain plain by blast
  then have "find_control (conflict_mark hash @ ext) = None"
    using ctl(2) split_ext_hd [OF assms(2)] by (intro no_control_append) (auto simp: code_def)
  from no_control_append [OF ctl(1) this] have "find_control (take k stem @ conflict_mark hash @ ext) = None"
    by (simp add: conflict_mark_def code_def)
  moreover have "3 \<le> length (take k stem @ conflict_mark hash @ ext)" by (simp add: conflict_mark_def)
  then have "take k stem @ conflict_mark hash @ ext \<notin> {[], ''.'', ''..''}" by (rule long_not_dots)
  moreover have "CHR ''/'' \<notin> set (take k stem @ conflict_mark hash @ ext)" "CHR 0x5C \<notin> set (take k stem @ conflict_mark hash @ ext)"
    using c n plain by (auto dest: in_set_takeD)
  ultimately show ?thesis using assms(4) by (simp add: safe_component_def)
qed

lemma length_mark: "length (conflict_mark hash) \<le> 18"
  by (simp add: conflict_mark_def)

lemma conflict_name_parts:
  assumes p: "relpath_parse raw = Inr p" and hex: "\<forall>c \<in> set hash. is_ascii_alphanumeric c"
    and parts: "split_dir raw = (dir, name)" "split_ext name = (stem, ext)"
  shows "relpath_parse (path_str (conflict_name p hash)) = Inr (conflict_name p hash)
    \<and> (length raw + 18 \<le> 1024 \<and> length ext \<le> 237 \<longrightarrow>
        (\<exists>k. path_str (conflict_name p hash) = dir @ take k stem @ conflict_mark hash @ ext))
    \<and> (length raw + 18 \<le> 1024 \<and> length name + 18 \<le> 255 \<longrightarrow>
        path_str (conflict_name p hash) = dir @ stem @ conflict_mark hash @ ext \<and> conflict_name p hash \<noteq> p)"
proof -
  have raw: "path_str p = raw" "length raw \<le> 1024" and safe: "\<forall>c \<in> set (split_on CHR ''/'' raw). safe_component c"
    using p by (auto simp: parse_iff)
  note d = split_dir_parts [OF parts(1)] and n = split_ext_parts [OF parts(2)]
  from conflict_name_cases [of p dir name stem ext hash] parts raw(1) obtain k where
    k: "k \<le> length stem" "k + length (conflict_mark hash) + length ext \<le> max 255 (length (conflict_mark hash) + length ext)"
    "length stem + length (conflict_mark hash) + length ext \<le> 255 \<Longrightarrow> k = length stem"
    "conflict_name p hash = (case relpath_parse (dir @ take k stem @ conflict_mark hash @ ext) of Inr q \<Rightarrow> q | Inl _ \<Rightarrow> p)"
    by (metis (no_types))
  let ?new = "take k stem @ conflict_mark hash @ ext"
  have valid: "relpath_parse (path_str (conflict_name p hash)) = Inr (conflict_name p hash)"
  proof (cases "relpath_parse (dir @ ?new)")
    case (Inr q)
    then have "q = RelPath (dir @ ?new)" by (simp add: parse_iff)
    with Inr show ?thesis by (simp add: k(4))
  next
    case (Inl e)
    then show ?thesis using p raw(1) by (simp add: k(4))
  qed
  obtain cs where cs: "\<And>m. CHR ''/'' \<notin> set m \<Longrightarrow> split_on CHR ''/'' (dir @ m) = cs @ [m]"
    using split_dir_on [of dir name] d by blast
  have "safe_component name" "\<forall>c \<in> set cs. safe_component c" using safe d cs [of name] by auto
  have shape: "path_str (conflict_name p hash) = dir @ ?new" if "length raw + 18 \<le> 1024" "length ext \<le> 237"
  proof -
    have len: "length ?new \<le> 255" using k(1,2) that(2) length_mark [of hash] by simp
    then have new: "safe_component ?new" using conflict_component [OF \<open>safe_component name\<close> parts(2) hex] by blast
    then have "split_on CHR ''/'' (dir @ ?new) = cs @ [?new]" using cs [of ?new] by (simp add: safe_component_def)
    moreover have "length (dir @ ?new) \<le> 1024" using that(1) d n k(1) length_mark [of hash] by simp
    ultimately have "relpath_parse (dir @ ?new) = Inr (RelPath (dir @ ?new))"
      using new \<open>\<forall>c \<in> set cs. safe_component c\<close> by (auto simp: parse_iff)
    then show ?thesis by (simp add: k(4))
  qed
  have whole: "path_str (conflict_name p hash) = dir @ stem @ conflict_mark hash @ ext \<and> conflict_name p hash \<noteq> p"
    if "length raw + 18 \<le> 1024" "length name + 18 \<le> 255"
  proof -
    have "k = length stem" using k(3) that(2) n length_mark [of hash] by simp
    with shape that n have "path_str (conflict_name p hash) = dir @ stem @ conflict_mark hash @ ext" by simp
    moreover have "length (dir @ stem @ conflict_mark hash @ ext) \<noteq> length raw" using d n by (simp add: conflict_mark_def)
    ultimately show ?thesis using raw(1) by metis
  qed
  from valid shape whole show ?thesis by blast
qed

text \<open>C37. Where a conflicting file goes. The derived path is always a valid path. For a hex hash
  and a name whose extension is at most 237 bytes, in a path with 18 bytes to spare, it is in the
  same directory, its name is a prefix of the stem, then the mark with the first 8 digits of the
  hash, then the extension; and when the name too has 18 bytes to spare the stem is whole, so the
  derived path is a new one.\<close>

theorem conflict_name_shape:
  assumes p: "relpath_parse raw = Inr p" and hex: "\<forall>c \<in> set hash. is_ascii_alphanumeric c"
    and parts: "split_dir raw = (dir, name)" "split_ext name = (stem, ext)"
  shows "relpath_parse (path_str (conflict_name p hash)) = Inr (conflict_name p hash)
    \<and> (length raw + 18 \<le> 1024 \<and> length ext \<le> 237 \<longrightarrow>
        (\<exists>k. path_str (conflict_name p hash) = dir @ take k stem @ conflict_mark hash @ ext))
    \<and> (length raw + 18 \<le> 1024 \<and> length name + 18 \<le> 255 \<longrightarrow>
        path_str (conflict_name p hash) = dir @ stem @ conflict_mark hash @ ext \<and> conflict_name p hash \<noteq> p)"
  by (rule conflict_name_parts [OF assms])

lemma no_control_samples:
  "find_control ''photos'' = None" "find_control ''beach.jpg'' = None" "find_control ''a'' = None" "find_control ''b'' = None"
proof -
  show "find_control ''photos'' = None" by (rule no_control_plain) (simp add: code_def)
  show "find_control ''beach.jpg'' = None" by (rule no_control_plain) (simp add: code_def)
  show "find_control ''a'' = None" by (rule no_control_plain) (simp add: code_def)
  show "find_control ''b'' = None" by (rule no_control_plain) (simp add: code_def)
qed

lemma beach: "relpath_parse ''photos/beach.jpg'' = Inr (RelPath ''photos/beach.jpg'')"
  by (simp add: parse_iff safe_component_def no_control_samples)

theorem parse_inside_witness: "relpath_parse ''photos/beach.jpg'' = Inr (RelPath ''photos/beach.jpg'')"
  by (rule iffD2 [OF parse_inside [where dir = "\<lparr>buf_drive = Some (CHR ''D''), buf_rooted = True, buf_names = [''root'']\<rparr>"]],
      rule exI [of _ "[''photos'', ''beach.jpg'']"])
    (simp add: safe_component_def no_control_samples join_under_def path_push_def)

text \<open>A path a peer may send that leaves a Windows node's storage: \<open>C:x\<close> is accepted, and joined under any
  directory, on any drive, it is the file \<open>x\<close> in the current directory of drive C.\<close>

lemma drive_prefix_escapes:
  "\<exists>p. relpath_parse ''C:x'' = Inr p
     \<and> join_under Windows p dir = \<lparr>buf_drive = Some (CHR ''C''), buf_rooted = False, buf_names = [''x'']\<rparr>"
proof -
  have "find_control ''C:x'' = None" by (rule no_control_plain) (simp add: code_def)
  then have "relpath_parse ''C:x'' = Inr (RelPath ''C:x'')" by (simp add: parse_iff safe_component_def)
  then show ?thesis by (simp add: join_under_def path_push_def is_ascii_upper_def code_def)
qed

theorem conflict_name_shape_witness:
  "conflict_name (RelPath ''photos/beach.jpg'') ''deadbeef00'' = RelPath ''photos/beach.conflict-deadbeef.jpg''"
proof -
  have parts: "split_dir ''photos/beach.jpg'' = (''photos/'', ''beach.jpg'')" "split_ext ''beach.jpg'' = (''beach'', ''.jpg'')"
    by (simp_all add: split_dir_def split_ext_def rfind_def lead_width_def code_def Let_def)
  have hex: "\<forall>c \<in> set ''deadbeef00''. is_ascii_alphanumeric c"
    by (simp add: is_ascii_alphanumeric_def is_ascii_lower_def is_ascii_digit_def code_def)
  from conflict_name_shape [OF beach hex parts]
  have "path_str (conflict_name (RelPath ''photos/beach.jpg'') ''deadbeef00'') = ''photos/beach.conflict-deadbeef.jpg''"
    by (simp add: conflict_mark_def)
  then show ?thesis by (cases "conflict_name (RelPath ''photos/beach.jpg'') ''deadbeef00''") simp
qed

section \<open>Names that do not fit\<close>

text \<open>A conflicting path too near the limit has no name to go to: when the derived text is not a valid
  path, the derived path is the original one.\<close>

lemma conflict_name_can_collide:
  "\<exists>raw p. relpath_parse raw = Inr p \<and> length raw = 1023 \<and> (\<forall>hash. length hash = 64 \<longrightarrow> conflict_name p hash = p)"
proof -
  define n :: nat where "n = 511"
  define d where "d = concat (replicate n ''a/'')"
  define raw where "raw = d @ ''b''"
  have "length (concat (replicate k ''a/'')) = 2 * k" for k by (induction k) simp_all
  then have len: "length raw = 1023" by (simp add: raw_def d_def n_def)
  have split_d: "split_on CHR ''/'' (concat (replicate k ''a/'') @ m) = replicate k ''a'' @ split_on CHR ''/'' m" for k m
    by (induction k) simp_all
  have p: "relpath_parse raw = Inr (RelPath raw)"
    using len by (auto simp: parse_iff raw_def d_def split_d safe_component_def no_control_samples)
  have last: "d \<noteq> []" "last d = CHR ''/''"
  proof -
    have "concat (replicate (Suc k) ''a/'') \<noteq> [] \<and> last (concat (replicate (Suc k) ''a/'')) = CHR ''/''" for k
      by (induction k) simp_all
    from this [of 510] show "d \<noteq> []" "last d = CHR ''/''" by (simp_all add: d_def n_def del: replicate.simps)
  qed
  have dir: "split_dir raw = (d, ''b'')"
  proof -
    have "rfind CHR ''/'' raw = Some (length d - 1)"
      using last by (cases d rule: rev_cases) (simp_all add: raw_def rfind_def)
    with last(1) show ?thesis by (simp add: split_dir_def raw_def)
  qed
  have ext: "split_ext ''b'' = (''b'', [])" by (simp add: split_ext_def rfind_def lead_width_def code_def)
  have "conflict_name (RelPath raw) hash = RelPath raw" if h: "length hash = 64" for hash
  proof -
    have "MAX_PATH < length (d @ ''b'' @ conflict_mark hash)" using len h by (simp add: raw_def conflict_mark_def MAX_PATH_def)
    moreover have "cut_back ''b'' 1 = 1" by (simp add: is_char_boundary_def)
    ultimately show ?thesis using h
      by (simp add: conflict_name_def dir ext MAX_COMPONENT_def Let_def relpath_parse_def conflict_mark_def)
  qed
  with p len show ?thesis by blast
qed

section \<open>Directory names\<close>

lemma trim_edges_infix: "\<exists>p q. s = p @ trim_edges s @ q"
proof (induction s rule: trim_edges.induct)
  case (1 s)
  show ?case
  proof (cases "trim_dots (trim s) = s")
    case True
    then have "trim_edges s = s" by (subst trim_edges.simps) simp
    then show ?thesis by (intro exI [of _ "[]"]) simp
  next
    case False
    then have eq: "trim_edges s = trim_edges (trim_dots (trim s))" by (subst trim_edges.simps) (simp add: Let_def)
    from 1 [OF refl False] obtain p q where pq: "trim_dots (trim s) = p @ trim_edges (trim_dots (trim s)) @ q" by blast
    obtain p' q' where "s = p' @ trim_dots (trim s) @ q'" using edge_infix by blast
    with pq eq have "s = (p' @ p) @ trim_edges s @ (q @ q')" by (metis append.assoc)
    then show ?thesis by blast
  qed
qed

lemma trim_edges_fixed: "trim_dots (trim (trim_edges s)) = trim_edges s"
proof (induction s rule: trim_edges.induct)
  case (1 s)
  then show ?case by (subst (1 2) trim_edges.simps) (simp add: Let_def trim_edges.simps [of s, symmetric])
qed

lemma edges_fixed:
  assumes "trim_dots (trim s) = s"
  shows "trim s = s" "trim_dots s = s" "s \<noteq> [] \<Longrightarrow> hd s \<noteq> CHR ''.'' \<and> last s \<noteq> CHR ''.''"
proof -
  obtain p q where 1: "s = p @ trim s @ q" using trim_with_infix [of s white_space] unfolding trim_def by blast
  obtain p' q' where 2: "trim s = p' @ trim_dots (trim s) @ q'" using trim_dots_infix by blast
  have "length s \<le> length (trim s)" using 2 assms by (metis le_add1 le_add2 length_append order.trans)
  moreover have "length s = length p + length (trim s) + length q" using 1 by (metis add.assoc length_append)
  ultimately have "p = [] \<and> q = []" by simp
  with 1 show t: "trim s = s" by simp
  with assms show d: "trim_dots s = s" by simp
  show "hd s \<noteq> CHR ''.'' \<and> last s \<noteq> CHR ''.''" if "s \<noteq> []"
  proof -
    let ?P = "\<lambda>c. c = CHR ''.''"
    let ?t = "dropWhile ?P s"
    have s: "s = rev (dropWhile ?P (rev ?t))" using d by (simp add: trim_dots_def)
    have "length s \<le> length ?t" using s length_dropWhile_le [of ?P "rev ?t"] by (metis length_rev)
    then have "takeWhile ?P s = []" by (metis add_le_same_cancel2 le_zero_eq length_0_conv length_append takeWhile_dropWhile_id)
    then have "\<not> ?P (hd s)" using that by (cases s) auto
    moreover have "last s = hd (dropWhile ?P (rev ?t))" using s that by (metis last_rev rev.simps(1) rev_rev_ident)
    then have "\<not> ?P (last s)" using hd_dropWhile [of ?P "rev ?t"] s that by (metis rev.simps(1))
    ultimately show ?thesis by simp
  qed
qed

lemma replace_unsafe_hd: "s \<noteq> [] \<Longrightarrow> replace_unsafe s \<noteq> [] \<and> hd (replace_unsafe s) \<in> {hd s, CHR ''_''}"
  by (induction s rule: replace_unsafe.induct) auto

lemma replace_unsafe_chars: "CHR ''/'' \<notin> set (replace_unsafe s) \<and> CHR 0x5C \<notin> set (replace_unsafe s)"
  by (induction s rule: replace_unsafe.induct) auto

lemma control_0: "control_at (c # s) 0 \<longleftrightarrow> code c < 32 \<or> code c = 127
    \<or> code c = 194 \<and> s \<noteq> [] \<and> 128 \<le> code (hd s) \<and> code (hd s) < 160"
  by (cases s) (auto simp: control_at_def)

lemma no_control_Cons: "find_control (c # s) = None \<longleftrightarrow> \<not> control_at (c # s) 0 \<and> find_control s = None"
  unfolding find_control_iff by (subst all_nat_cases) simp

lemma replace_unsafe_control: "find_control (replace_unsafe s) = None"
proof (induction s rule: replace_unsafe.induct)
  case 1
  then show ?case by (simp add: find_control.simps)
next
  case (2 c)
  have "code (CHR ''_'') = 95" by (simp add: code_def)
  then show ?case by (simp add: find_control.simps)
next
  case (3 c d s)
  have under: "code (CHR ''_'') = 95" by (simp add: code_def)
  have hd: "hd (replace_unsafe (d # s)) \<in> {d, CHR ''_''}" using replace_unsafe_hd [of "d # s"] by simp
  show ?case
  proof (cases "c = CHR ''/'' \<or> c = CHR 0x5C \<or> code c < 32 \<or> code c = 127")
    case True
    then show ?thesis using 3(1) by (simp add: no_control_Cons control_0 under)
  next
    case safe: False
    show ?thesis
    proof (cases "code c = 194 \<and> 128 \<le> code d \<and> code d < 160")
      case True
      then show ?thesis using 3(2) safe by (simp add: no_control_Cons control_0 under)
    next
      case False
      have "\<not> (128 \<le> code (hd (replace_unsafe (d # s))) \<and> code (hd (replace_unsafe (d # s))) < 160)" if "code c = 194"
        using hd False that under by auto
      with safe have "\<not> control_at (c # replace_unsafe (d # s)) 0" by (auto simp: control_0)
      moreover have "replace_unsafe (c # d # s) = c # replace_unsafe (d # s)" using safe False by auto
      ultimately show ?thesis using 3(3) [OF safe False] by (simp only: no_control_Cons) simp
    qed
  qed
qed

lemma replace_unsafe_id:
  "find_control s = None \<Longrightarrow> CHR ''/'' \<notin> set s \<Longrightarrow> CHR 0x5C \<notin> set s \<Longrightarrow> replace_unsafe s = s"
  by (induction s rule: replace_unsafe.induct) (auto simp: no_control_Cons control_0)

lemma sanitize_parts:
  assumes "sanitize name = Some d"
  shows "\<exists>p q. replace_unsafe name = p @ d @ q" "d \<noteq> []" "length d \<le> 128" "trim_dots (trim d) = d"
proof -
  let ?t = "trim_edges (replace_unsafe name)"
  let ?c = "take (cut_back ?t MAX_DIRNAME) ?t"
  obtain p q where t: "replace_unsafe name = p @ ?t @ q" using trim_edges_infix by blast
  obtain p' q' where c: "?c = p' @ trim_edges ?c @ q'" using trim_edges_infix by blast
  from c have "?t = p' @ trim_edges ?c @ (q' @ drop (cut_back ?t MAX_DIRNAME) ?t)" by (metis append.assoc append_take_drop_id)
  with t have tc: "replace_unsafe name = (p @ p') @ trim_edges ?c @ (q' @ drop (cut_back ?t MAX_DIRNAME) ?t @ q)"
    by (metis append.assoc)
  have "length (trim_edges ?c) \<le> length ?c" using c by (metis le_add1 le_add2 length_append order.trans)
  then have len: "length (trim_edges ?c) \<le> 128" using cut_back_le [of ?t MAX_DIRNAME] by (simp add: MAX_DIRNAME_def)
  have "d = ?t \<and> length ?t \<le> 128 \<or> d = trim_edges ?c" "d \<noteq> []"
    using assms by (auto simp: sanitize_def Let_def MAX_DIRNAME_def split: if_splits)
  with t tc len trim_edges_fixed show "\<exists>p q. replace_unsafe name = p @ d @ q" "d \<noteq> []" "length d \<le> 128" "trim_dots (trim d) = d"
    by metis+
qed

text \<open>C38. A directory name is safe. What \<open>sanitize\<close> returns is 1 to 128 bytes, has no slash,
  backslash or control character, no white space or dot at either end (so it is neither \<open>.\<close> nor
  \<open>..\<close> nor hidden), and sanitizing it again gives it back.\<close>

theorem sanitize_safe:
  assumes "sanitize name = Some d"
  shows "0 < length d \<and> length d \<le> 128 \<and> CHR ''/'' \<notin> set d \<and> CHR 0x5C \<notin> set d \<and> find_control d = None
    \<and> trim d = d \<and> hd d \<noteq> CHR ''.'' \<and> last d \<noteq> CHR ''.'' \<and> sanitize d = Some d"
proof -
  note parts = sanitize_parts [OF assms]
  obtain p q where pq: "replace_unsafe name = p @ d @ q" using parts(1) by blast
  have chars: "CHR ''/'' \<notin> set d" "CHR 0x5C \<notin> set d" using replace_unsafe_chars [of name] pq by auto
  have ctl: "find_control d = None" using no_control_infix [of p d q] replace_unsafe_control [of name] pq by simp
  have "trim_edges d = d" using parts(4) by (subst trim_edges.simps) simp
  then have "sanitize d = Some d"
    using parts(2,3) by (simp add: sanitize_def replace_unsafe_id [OF ctl chars] MAX_DIRNAME_def)
  with edges_fixed [OF parts(4)] chars ctl parts(2,3) show ?thesis by simp
qed

theorem sanitize_safe_witness:
  "\<exists>d. sanitize ''family/photos'' = Some d \<and> sanitize d = Some d"
proof -
  have plain: "plain_text ''family_photos''" by (simp add: plain_text_def is_ascii_upper_def code_def)
  have "replace_unsafe ''family/photos'' = ''family_photos''" by (simp add: code_def)
  then have s: "sanitize ''family/photos'' = Some ''family_photos''"
    by (simp add: sanitize_def trim_edges.simps trim_plain [OF plain] trim_dots_def MAX_DIRNAME_def)
  from sanitize_safe [OF s] s show ?thesis by blast
qed

end
