(* ===== verification/GroupOps.thy ===== *)
theory GroupOps
  imports GroupStore Hex
begin

text \<open>
  The writing operations of \<open>crates/ac-groups/src/store.rs\<close>. \<open>put\<close> and \<open>author\<close> come in two
  phases: what they work out from the store they read, and the \<open>IMMEDIATE\<close> transaction, which
  may find that another process has written since. \<open>store_put\<close> and \<open>store_author\<close> are the runs
  with no writer in between.
\<close>

section \<open>Resolving a reference\<close>

datatype resolved = ROne group_id | RNone | RAmbiguous "group_id list"

definition store_resolve :: "groups \<Rightarrow> string \<Rightarrow> resolved" where
  "store_resolve S needle =
     (if trim needle = [] then RNone
      else
        let hits = remdups_adj (map gr_id (filter
              (\<lambda>r. take (length (to_lowercase needle)) (group_id_show (gr_id r)) = to_lowercase needle
                 \<or> gr_name r = needle) (store_list S)))
        in case hits of
             [] \<Rightarrow> RNone
           | [g] \<Rightarrow> ROne g
           | _ \<Rightarrow> RAmbiguous hits)"

section \<open>Creating\<close>

definition fresh_row :: "env \<Rightarrow> chain \<Rightarrow> state \<Rightarrow> int \<Rightarrow> group_row" where
  "fresh_row E c st at =
     \<lparr>gr_id = ch_id c, gr_name = chain_name c, gr_admin = ch_admin c, gr_state = st,
      gr_head_seq = 0, gr_head_hash = of_body E [], gr_digest = replicate 32 0,
      gr_first_seen = at, gr_last_synced = at, gr_news = 0\<rparr>"

definition insert_group :: "group_row \<Rightarrow> groups \<Rightarrow> groups" where
  "insert_group r S = S\<lparr>t_groups := om_put (gr_id r) r (t_groups S)\<rparr>"

definition held_of :: "standing \<Rightarrow> standing_body \<Rightarrow> held" where
  "held_of s body = \<lparr>h_standing = s, h_seq = sb_seq body, h_position = sb_position body,
     h_username = sb_username body\<rparr>"

definition store_create ::
    "env \<Rightarrow> keypair \<Rightarrow> string \<Rightarrow> string \<Rightarrow> bytes option \<Rightarrow> int \<Rightarrow> groups \<Rightarrow> (store_error + group_id) \<times> groups" where
  "store_create E key name username nonce at S =
     (let prepared =
        bindE (ok_or nonce EEntropy) (\<lambda>nonce.
        bindE (map_err EChain (chain_create E key name nonce at)) (\<lambda>chain.
        bindE (guardE (store_get S (ch_id chain) = None) (EDuplicate (ch_id chain))) (\<lambda>_.
        bindE (map_err EStanding
                 (standing_author E key (ch_id chain) (next_standing_seq None) In username at)) (\<lambda>standing.
        bindE (map_err EStanding (standing_verify E (ch_id chain) standing)) (\<lambda>body.
          Inr (chain, standing, body))))))
      in case prepared of
           Inl err \<Rightarrow> (Inl err, S)
         | Inr (chain, standing, body) \<Rightarrow>
             let g = ch_id chain;
                 words = snd (set_insert (ch_admin chain) (held_of standing body) []);
                 S1 = insert_group (fresh_row E chain Active at) S;
                 S2 = write_entries E g 0 (chain_entries chain) S1;
                 S3 = snd (set_head g 0 (chain_len chain) (chain_head chain) S2);
                 S4 = write_standing g (ch_admin chain) standing (sb_seq body) (sb_position body) S3
             in (Inr g, rebuild_caches E g chain words S4))"

section \<open>Ingesting\<close>

text \<open>The loop over the part of the batch this node already holds.\<close>

fun check_overlap :: "env \<Rightarrow> group_id \<Rightarrow> chain \<Rightarrow> nat \<Rightarrow> entry list \<Rightarrow> store_error + unit" where
  "check_overlap E g c seq [] = Inr ()"
| "check_overlap E g c seq (e # es) =
     (if hash_at c seq \<noteq> Some (entry_hash_of E e) then Inl (EDiverged g seq)
      else check_overlap E g c (Suc seq) es)"

record put_plan =
  pp_chain :: chain
  pp_before :: members
  pp_head_seq :: nat
  pp_fresh :: "entry list"
  pp_accepted :: nat

definition put_read :: "env \<Rightarrow> group_id \<Rightarrow> nat \<Rightarrow> entry list \<Rightarrow> groups \<Rightarrow> store_error + put_plan" where
  "put_read E g from entries S =
     bindE (store_require S g) (\<lambda>_.
     bindE (store_chain E S g) (\<lambda>chain.
       let head_seq = chain_len chain;
           overlap = min (head_seq - from) (length entries) in
       bindE (check_overlap E g chain from (take overlap entries)) (\<lambda>_.
       bindE (guardE (from \<le> head_seq) (EGap head_seq from)) (\<lambda>_.
         let fresh = drop overlap entries in
         if fresh = []
         then Inr \<lparr>pp_chain = chain, pp_before = chain_fold E chain, pp_head_seq = head_seq,
                   pp_fresh = fresh, pp_accepted = 0\<rparr>
         else case chain_extend E chain fresh of
                (Inl err, _) \<Rightarrow> Inl (EChain err)
              | (Inr n, chain') \<Rightarrow>
                  Inr \<lparr>pp_chain = chain', pp_before = chain_fold E chain, pp_head_seq = head_seq,
                       pp_fresh = fresh, pp_accepted = n\<rparr>))))"

text \<open>One standing of the batch: verified, about someone the chain has named, and winning.\<close>

definition put_standing ::
    "env \<Rightarrow> group_id \<Rightarrow> chain \<Rightarrow> standing \<Rightarrow> standing_set \<times> groups \<times> peer_id list \<Rightarrow>
     standing_set \<times> groups \<times> peer_id list" where
  "put_standing E g chain s st =
     (case st of (words, S, departed) \<Rightarrow>
        case standing_verify E g s of
          Inl _ \<Rightarrow> st
        | Inr body \<Rightarrow>
            (case parse_peer E (sb_peer body) of
               None \<Rightarrow> st
             | Some p \<Rightarrow>
                 if \<not> ever_mentioned E chain p then st
                 else
                   let (won, words') = set_insert p (held_of s body) words in
                   if \<not> won then st
                   else (words', write_standing g p s (sb_seq body) (sb_position body) S,
                         if is_departure (sb_position body) \<and> members_contains (chain_fold E chain) p
                         then departed @ [p] else departed)))"

definition put_tx ::
    "env \<Rightarrow> group_id \<Rightarrow> put_plan \<Rightarrow> standing list \<Rightarrow> int \<Rightarrow> groups \<Rightarrow> (store_error + applied) \<times> groups" where
  "put_tx E g plan standings now S =
     (let chain = pp_chain plan;
          (moved, S1) =
            (if 0 < pp_accepted plan
             then set_head g (pp_head_seq plan) (chain_len chain) (chain_head chain)
                    (write_entries E g (pp_head_seq plan) (pp_fresh plan) S)
             else (1, S))
      in if moved = 0 then (Inl (ERaced g), S)
         else
           let after = chain_fold E chain;
               before = pp_before plan;
               (words, S2, departed) =
                 fold (put_standing E g chain) standings (load_standings E S1 g, S1, []);
               S3 = rebuild_caches E g chain words S2;
               S4 = update_row g (\<lambda>r. r\<lparr>gr_name := chain_name chain, gr_last_synced := now\<rparr>) S3
           in (Inr \<lparr>ap_accepted = pp_accepted plan, ap_head_seq = chain_len chain,
                    ap_added = members_diff after before, ap_removed = members_diff before after,
                    ap_we_joined = (\<not> members_contains before (gs_me S) \<and> members_contains after (gs_me S)),
                    ap_we_lost = (members_contains before (gs_me S) \<and> \<not> members_contains after (gs_me S)),
                    ap_departed = departed\<rparr>, S4))"

definition store_put ::
    "env \<Rightarrow> group_id \<Rightarrow> nat \<Rightarrow> entry list \<Rightarrow> standing list \<Rightarrow> int \<Rightarrow> groups \<Rightarrow> (store_error + applied) \<times> groups" where
  "store_put E g from entries standings now S =
     (case put_read E g from entries S of
        Inl err \<Rightarrow> (Inl err, S)
      | Inr plan \<Rightarrow> put_tx E g plan standings now S)"

definition store_adopt ::
    "env \<Rightarrow> entry list \<Rightarrow> standing list \<Rightarrow> int \<Rightarrow> groups \<Rightarrow> (store_error + applied) \<times> groups" where
  "store_adopt E entries standings now S =
     (case map_err EChain (chain_load E entries) of
        Inl err \<Rightarrow> (Inl err, S)
      | Inr chain \<Rightarrow>
          let g = ch_id chain in
          if store_get S g \<noteq> None then store_put E g 0 entries standings now S
          else
            let S1 = insert_group (fresh_row E chain Pending now) S;
                S2 = write_entries E g 0 (chain_entries chain) S1;
                S3 = snd (set_head g 0 (chain_len chain) (chain_head chain) S2);
                S4 = rebuild_caches E g chain [] S3
            in case store_put E g (chain_len chain) [] standings now S4 of
                 (Inl err, S5) \<Rightarrow> (Inl err, S5)
               | (Inr ap, S5) \<Rightarrow>
                   (Inr (ap\<lparr>ap_head_seq := chain_len chain, ap_accepted := chain_len chain,
                           ap_we_joined := members_contains (chain_fold E chain) (gs_me S)\<rparr>), S5))"

section \<open>Authoring\<close>

definition author_read ::
    "env \<Rightarrow> keypair \<Rightarrow> group_id \<Rightarrow> op \<Rightarrow> int \<Rightarrow> groups \<Rightarrow> store_error + (entry \<times> nat \<times> chain)" where
  "author_read E key g x at S =
     bindE (store_require S g) (\<lambda>_.
     bindE (store_chain E S g) (\<lambda>chain.
       case chain_author E key x at chain of
         (Inl err, _) \<Rightarrow> Inl (EChain err)
       | (Inr e, chain') \<Rightarrow> Inr (e, chain_len chain, chain')))"

definition author_tx ::
    "env \<Rightarrow> group_id \<Rightarrow> entry \<times> nat \<times> chain \<Rightarrow> int \<Rightarrow> groups \<Rightarrow> (store_error + entry) \<times> groups" where
  "author_tx E g prep at S =
     (case prep of (e, head_seq, chain) \<Rightarrow>
        let (moved, S1) = set_head g head_seq (chain_len chain) (chain_head chain)
                            (write_entries E g head_seq [e] S)
        in if moved = 0 then (Inl (ERaced g), S)
           else
             let S2 = rebuild_caches E g chain (load_standings E S1 g) S1;
                 S3 = update_row g (\<lambda>r. r\<lparr>gr_name := chain_name chain, gr_last_synced := at\<rparr>) S2
             in (Inr e, note_news g S3))"

definition store_author ::
    "env \<Rightarrow> keypair \<Rightarrow> group_id \<Rightarrow> op \<Rightarrow> int \<Rightarrow> groups \<Rightarrow> (store_error + entry) \<times> groups" where
  "store_author E key g x at S =
     (case author_read E key g x at S of
        Inl err \<Rightarrow> (Inl err, S)
      | Inr prep \<Rightarrow> author_tx E g prep at S)"

fun state_of_position :: "position \<Rightarrow> state" where
  "state_of_position Unanswered = Pending"
| "state_of_position In = Active"
| "state_of_position Out = Left"

definition refresh_digest :: "env \<Rightarrow> group_id \<Rightarrow> groups \<Rightarrow> (store_error + unit) \<times> groups" where
  "refresh_digest E g S =
     (case store_chain E S g of
        Inl err \<Rightarrow> (Inl err, S)
      | Inr chain \<Rightarrow> (Inr (), rebuild_caches E g chain (load_standings E S g) S))"

definition store_author_standing ::
    "env \<Rightarrow> keypair \<Rightarrow> group_id \<Rightarrow> position \<Rightarrow> string \<Rightarrow> int \<Rightarrow> groups \<Rightarrow> (store_error + standing) \<times> groups" where
  "store_author_standing E key g pos username at S =
     (case bindE (map_err EStanding
              (standing_author E key g (next_standing_seq (my_standing_seq S g)) pos username at)) (\<lambda>s.
            bindE (map_err EStanding (standing_verify E g s)) (\<lambda>body. Inr (s, body))) of
        Inl err \<Rightarrow> (Inl err, S)
      | Inr (s, body) \<Rightarrow>
          let S1 = write_standing g (gs_me S) s (sb_seq body) (sb_position body) S;
              S2 = note_news g (update_row g (\<lambda>r. r\<lparr>gr_state := state_of_position pos\<rparr>) S1)
          in case refresh_digest E g S2 of
               (Inl err, S3) \<Rightarrow> (Inl err, S3)
             | (Inr _, S3) \<Rightarrow> (Inr s, S3))"

definition store_news_told :: "group_id \<Rightarrow> groups \<Rightarrow> groups" where
  "store_news_told g = update_row g (\<lambda>r. r\<lparr>gr_news := 0\<rparr>)"

definition store_set_state :: "group_id \<Rightarrow> state \<Rightarrow> groups \<Rightarrow> groups" where
  "store_set_state g st = update_row g (\<lambda>r. r\<lparr>gr_state := st\<rparr>)"

definition store_forget :: "group_id \<Rightarrow> groups \<Rightarrow> groups" where
  "store_forget g S =
     S\<lparr>t_members := (t_members S)(g := []), t_standings := (t_standings S)(g := []),
       t_entries := (t_entries S)(g := []), t_groups := om_del g (t_groups S)\<rparr>"

end
