(* ===== verification/StoreInv.thy ===== *)
theory StoreInv
  imports GroupOps
begin

text \<open>
  The invariant of the group store and its preservation: every group's row, member cache and
  standings digest say what its chain and its standings table say. One lemma about
  \<open>rebuild_caches\<close> carries all the writing operations.
\<close>

section \<open>The standings table as a set of words\<close>

definition row_word :: "env \<Rightarrow> stand_row \<Rightarrow> held option" where
  "row_word E r =
     (case standing_body_of E (sr_standing r) of
        Inl _ \<Rightarrow> None
      | Inr body \<Rightarrow> Some \<lparr>h_standing = sr_standing r, h_seq = sr_seq r,
                         h_position = sr_position r, h_username = sb_username body\<rparr>)"

definition rows_ok :: "env \<Rightarrow> group_id \<Rightarrow> (peer_id, stand_row) omap \<Rightarrow> bool" where
  "rows_ok E g t \<longleftrightarrow> om_inv t \<and> (\<forall>p r. map_of t p = Some r \<longrightarrow>
     (\<exists>body. standing_verify E g (sr_standing r) = Inr body \<and> parse_peer E (sb_peer body) = Some p
        \<and> sr_seq r = sb_seq body \<and> sr_position r = sb_position body))"

lemma rows_ok_Nil [simp]: "rows_ok E g []"
  by (simp add: rows_ok_def)

lemma rows_ok_inv [simp]: "rows_ok E g t \<Longrightarrow> om_inv t"
  by (simp add: rows_ok_def)

lemma rows_ok_filter [simp]: "rows_ok E g t \<Longrightarrow> rows_ok E g (filter (\<lambda>(p, r). P p) t)"
  by (auto simp: rows_ok_def om_get_filter split: option.splits if_splits)

lemma rows_ok_put:
  "rows_ok E g t \<Longrightarrow> standing_verify E g s = Inr body \<Longrightarrow> parse_peer E (sb_peer body) = Some p \<Longrightarrow>
     rows_ok E g (om_put p \<lparr>sr_seq = sb_seq body, sr_position = sb_position body, sr_standing = s\<rparr> t)"
  by (auto simp: rows_ok_def om_simps split: if_splits)

definition load_step :: "env \<Rightarrow> peer_id \<times> stand_row \<Rightarrow> standing_set \<Rightarrow> standing_set" where
  "load_step E e words =
     (case row_word E (snd e) of None \<Rightarrow> words | Some h \<Rightarrow> snd (set_insert (fst e) h words))"

lemma load_standings_fold: "load_standings E S g = fold (load_step E) (t_standings S g) []"
  unfolding load_standings_def load_step_def row_word_def
  by (rule fold_cong) (auto split: sum.splits)

lemma load_fold_get:
  "om_inv t \<Longrightarrow> om_inv w \<Longrightarrow> (\<forall>e \<in> set t. map_of w (fst e) = None) \<Longrightarrow>
     om_inv (fold (load_step E) t w)
     \<and> map_of (fold (load_step E) t w) p =
        (case map_of t p of Some r \<Rightarrow> row_word E r | None \<Rightarrow> map_of w p)"
proof (induction t arbitrary: w)
  case (Cons e t)
  obtain q r where e: "e = (q, r)" by (cases e)
  let ?w = "load_step E e w"
  have inv: "om_inv ?w" using Cons.prems(2) by (auto simp: load_step_def split: option.splits)
  have get: "map_of ?w x = (if x = q then row_word E r else map_of w x)" for x
    using Cons.prems e by (auto simp: load_step_def get_set_insert stronger_def split: option.splits)
  have "\<forall>e' \<in> set t. map_of ?w (fst e') = None"
  proof
    fix e' assume "e' \<in> set t"
    with Cons.prems e have "fst e' \<noteq> q" "map_of w (fst e') = None" by (auto simp: om_inv_Cons)
    then show "map_of ?w (fst e') = None" by (simp add: get)
  qed
  from Cons.IH [OF _ inv this] Cons.prems(1) e get show ?case
    by (auto simp: om_inv_Cons map_of_None_om split: option.splits)
qed simp

lemma om_inv_load [simp]: "om_inv (t_standings S g) \<Longrightarrow> om_inv (load_standings E S g)"
  using load_fold_get [of "t_standings S g" "[]" E] by (simp add: load_standings_fold)

lemma get_load:
  "om_inv (t_standings S g) \<Longrightarrow>
     map_of (load_standings E S g) p = Option.bind (map_of (t_standings S g) p) (row_word E)"
  using load_fold_get [of "t_standings S g" "[]" E p]
  by (auto simp: load_standings_fold split: option.splits)

lemma row_word_ok:
  "rows_ok E g t \<Longrightarrow> map_of t p = Some r \<Longrightarrow>
     \<exists>body. standing_verify E g (sr_standing r) = Inr body \<and> parse_peer E (sb_peer body) = Some p
       \<and> row_word E r = Some (held_of (sr_standing r) body)"
  by (fastforce simp: rows_ok_def row_word_def held_of_def standing_verify_iff standing_body_of_def)

section \<open>Names and digests read only the members' words\<close>

definition same_on :: "members \<Rightarrow> standing_set \<Rightarrow> standing_set \<Rightarrow> bool" where
  "same_on m w w' \<longleftrightarrow> (\<forall>p. members_contains m p \<longrightarrow> map_of w p = map_of w' p)"

lemma members_set_peer: "members_inv m \<Longrightarrow> (p, x) \<in> set m \<Longrightarrow> m_peer x = p \<and> members_contains m p"
  by (auto simp: members_inv_def members_contains_def om_has_iff image_iff) (metis fst_conv)

lemma name_from_cong: "members_inv m \<Longrightarrow> same_on m w w' \<Longrightarrow> name_from w m = name_from w' m"
  unfolding name_from_def
  by (rule map_cong) (auto simp: same_on_def set_username_def dest!: members_set_peer)

lemma digest_part_cong:
  assumes "map_of w (m_peer x) = map_of w' (m_peer x)"
  shows "digest_part E w x = digest_part E w' x"
  unfolding digest_part_def set_latest_def set_username_def assms by (rule refl)

lemma digest_part_name [simp]: "digest_part E w (x\<lparr>m_username := u\<rparr>) = digest_part E w x"
  unfolding digest_part_def by (simp split: option.split)

lemma digest_cong:
  assumes "members_inv m" "same_on m w w'"
  shows "standings_digest E m w = standings_digest E m w'"
proof -
  have "map (\<lambda>(p, x). digest_part E w x) m = map (\<lambda>(p, x). digest_part E w' x) m"
    using assms by (auto simp: same_on_def dest!: members_set_peer intro!: digest_part_cong)
  then show ?thesis by (simp only: standings_digest_def)
qed

lemma name_from_facts:
  "members_inv m \<Longrightarrow> members_inv (name_from w m)"
  "members_contains (name_from w m) p \<longleftrightarrow> members_contains m p"
  "standings_digest E (name_from w m) w' = standings_digest E m w'"
proof -
  show "members_inv m \<Longrightarrow> members_inv (name_from w m)"
    by (auto simp: members_inv_def name_from_def)
  show "members_contains (name_from w m) p \<longleftrightarrow> members_contains m p"
    by (simp add: members_contains_def om_has_def name_from_def om_get_map_snd)
  show "standings_digest E (name_from w m) w' = standings_digest E m w'"
    by (simp add: standings_digest_def name_from_def comp_def case_prod_unfold)
qed

section \<open>The entries table\<close>

definition numbered :: "env \<Rightarrow> nat \<Rightarrow> entry list \<Rightarrow> (nat, entry_hash \<times> entry) omap" where
  "numbered E i es = map (\<lambda>(j, e). (j, entry_hash_of E e, e)) (enumerate i es)"

lemma numbered_simps [simp]:
  "numbered E i [] = []"
  "numbered E i (e # es) = (i, entry_hash_of E e, e) # numbered E (Suc i) es"
  by (simp_all add: numbered_def)

lemma numbered_append: "numbered E i (xs @ ys) = numbered E i xs @ numbered E (i + length xs) ys"
  by (induction xs arbitrary: i) auto

lemma numbered_entries [simp]: "map (\<lambda>(j, h, e). e) (numbered E i es) = es"
  by (induction es arbitrary: i) auto

lemma om_put_last: "\<forall>x \<in> set m. fst x < k \<Longrightarrow> om_put k v m = m @ [(k, v)]"
  by (induction k v m rule: om_put.induct) auto

lemma numbered_keys: "x \<in> set (numbered E i es) \<Longrightarrow> i \<le> fst x \<and> fst x < i + length es"
  by (induction es arbitrary: i) fastforce+

lemma insert_entries_numbered:
  "insert_entries E (i + length xs) ys (numbered E i xs) = numbered E i (xs @ ys)"
proof (induction ys arbitrary: xs)
  case (Cons y ys)
  have less: "\<forall>x \<in> set (numbered E i xs). fst x < i + length xs" using numbered_keys by blast
  then have "\<not> om_has (numbered E i xs) (i + length xs)" by (auto simp: om_has_iff)
  then show ?case
    using Cons.IH [of "xs @ [y]"] less by (simp add: om_put_last numbered_append)
qed simp

section \<open>The invariant\<close>

definition caches_fit :: "env \<Rightarrow> groups \<Rightarrow> group_id \<Rightarrow> group_row \<Rightarrow> chain \<Rightarrow> bool" where
  "caches_fit E S g r c \<longleftrightarrow>
     t_members S g = name_from (load_standings E S g) (chain_fold E c)
     \<and> (\<forall>p. om_has (t_standings S g) p \<longrightarrow> members_contains (chain_fold E c) p)
     \<and> gr_digest r = standings_digest E (chain_fold E c) (load_standings E S g)"

definition row_fits :: "group_id \<Rightarrow> group_row \<Rightarrow> chain \<Rightarrow> bool" where
  "row_fits g r c \<longleftrightarrow> gr_id r = g \<and> gr_admin r = ch_admin c \<and> gr_name r = chain_name c
     \<and> gr_head_seq r = chain_len c \<and> gr_head_hash r = chain_head c"

definition group_fits :: "env \<Rightarrow> groups \<Rightarrow> group_id \<Rightarrow> group_row \<Rightarrow> chain \<Rightarrow> bool" where
  "group_fits E S g r c \<longleftrightarrow> chain_ok E c \<and> ch_id c = g
     \<and> t_entries S g = numbered E 0 (chain_entries c) \<and> row_fits g r c \<and> caches_fit E S g r c"

text \<open>The part of \<open>group_fits\<close> that does not concern the caches.\<close>

definition core_fits :: "env \<Rightarrow> groups \<Rightarrow> group_id \<Rightarrow> group_row \<Rightarrow> chain \<Rightarrow> bool" where
  "core_fits E S g r c \<longleftrightarrow> chain_ok E c \<and> ch_id c = g
     \<and> t_entries S g = numbered E 0 (chain_entries c) \<and> row_fits g r c"

lemma group_fits_core: "group_fits E S g r c \<longleftrightarrow> core_fits E S g r c \<and> caches_fit E S g r c"
  by (auto simp: group_fits_def core_fits_def)

definition group_inv :: "env \<Rightarrow> groups \<Rightarrow> group_id \<Rightarrow> bool" where
  "group_inv E S g \<longleftrightarrow> rows_ok E g (t_standings S g) \<and>
     (case map_of (t_groups S) g of
        Some r \<Rightarrow> \<exists>c. group_fits E S g r c
      | None \<Rightarrow> t_entries S g = [] \<and> t_members S g = [])"

definition store_inv :: "env \<Rightarrow> groups \<Rightarrow> bool" where
  "store_inv E S \<longleftrightarrow> om_inv (t_groups S) \<and> (\<forall>g. group_inv E S g)"

definition empty_store :: "peer_id \<Rightarrow> groups" where
  "empty_store me = \<lparr>gs_me = me, t_groups = [], t_entries = (\<lambda>_. []), t_standings = (\<lambda>_. []),
     t_members = (\<lambda>_. [])\<rparr>"

lemma store_inv_empty: "store_inv E (empty_store me)"
  by (simp add: store_inv_def group_inv_def empty_store_def)

lemma store_chain_core:
  assumes "core_fits E S g r c" shows "store_chain E S g = Inr c"
proof -
  from assms have c: "chain_ok E c" and t: "map (\<lambda>(i, h, e). e) (t_entries S g) = chain_entries c"
    by (simp_all add: core_fits_def)
  from chain_ok_nonempty [OF c] have "chain_entries c \<noteq> []" by (simp add: chain_entries_def)
  then show ?thesis by (simp add: store_chain_def t chain_ok_load [OF c] map_err_def)
qed

lemma store_chain_fits: "group_fits E S g r c \<Longrightarrow> store_chain E S g = Inr c"
  by (auto simp: group_fits_core intro: store_chain_core)

lemma store_inv_group: "store_inv E S \<Longrightarrow> group_inv E S g"
  by (simp add: store_inv_def)

lemma store_inv_known:
  assumes "store_inv E S" "store_get S g = Some r"
  obtains c where "group_fits E S g r c" "store_chain E S g = Inr c" "rows_ok E g (t_standings S g)"
proof -
  from store_inv_group [OF assms(1), of g] assms(2) obtain c
    where "group_fits E S g r c" "rows_ok E g (t_standings S g)"
    by (auto simp: group_inv_def store_get_def)
  with that store_chain_fits show thesis by blast
qed

lemma store_inv_unknown:
  assumes "store_inv E S" "store_get S g = None"
  shows "t_entries S g = []" "t_members S g = []" "rows_ok E g (t_standings S g)"
  using store_inv_group [OF assms(1), of g] assms(2) by (auto simp: group_inv_def store_get_def)

section \<open>Writing\<close>

text \<open>Only the group an operation names is touched.\<close>

definition only_group :: "group_id \<Rightarrow> groups \<Rightarrow> groups \<Rightarrow> bool" where
  "only_group g S S' \<longleftrightarrow> gs_me S' = gs_me S \<and> (om_inv (t_groups S) \<longrightarrow> om_inv (t_groups S'))
     \<and> (\<forall>x. x \<noteq> g \<longrightarrow> (om_inv (t_groups S) \<longrightarrow> map_of (t_groups S') x = map_of (t_groups S) x)
          \<and> t_entries S' x = t_entries S x \<and> t_standings S' x = t_standings S x
          \<and> t_members S' x = t_members S x)"

lemma only_group_refl [simp]: "only_group g S S"
  by (simp add: only_group_def)

lemma only_group_trans: "only_group g S T \<Longrightarrow> only_group g T U \<Longrightarrow> only_group g S U"
  by (simp add: only_group_def)

lemma caches_fit_frame:
  "t_members S' g = t_members S g \<Longrightarrow> t_standings S' g = t_standings S g \<Longrightarrow>
     caches_fit E S' g r c = caches_fit E S g r c"
  by (simp add: caches_fit_def load_standings_def)

lemma group_inv_frame:
  assumes "only_group g S S'" "om_inv (t_groups S)" "x \<noteq> g"
  shows "group_inv E S' x = group_inv E S x"
  using assms caches_fit_frame [of S' x S E]
  by (auto simp: only_group_def group_inv_def group_fits_def split: option.split)

lemma store_inv_only:
  assumes "store_inv E S" "only_group g S S'" "group_inv E S' g"
  shows "store_inv E S'"
  unfolding store_inv_def
proof (intro conjI allI)
  show "om_inv (t_groups S')" using assms by (simp add: store_inv_def only_group_def)
  fix x show "group_inv E S' x"
    using assms group_inv_frame [OF assms(2), of x E] by (cases "x = g") (auto simp: store_inv_def)
qed

text \<open>Everything but one group keeps the invariant.\<close>

definition others_inv :: "env \<Rightarrow> group_id \<Rightarrow> groups \<Rightarrow> bool" where
  "others_inv E g S \<longleftrightarrow> om_inv (t_groups S) \<and> (\<forall>x. x \<noteq> g \<longrightarrow> group_inv E S x)"

lemma store_inv_others: "store_inv E S \<Longrightarrow> others_inv E g S"
  by (simp add: store_inv_def others_inv_def)

lemma others_inv_only: "others_inv E g S \<Longrightarrow> only_group g S S' \<Longrightarrow> others_inv E g S'"
  using group_inv_frame [of g S S'] by (simp add: others_inv_def) (simp add: only_group_def)

lemma others_inv_store: "others_inv E g S \<Longrightarrow> group_inv E S g \<Longrightarrow> store_inv E S"
  unfolding store_inv_def others_inv_def by metis

lemma update_row_frame [simp]:
  "gs_me (update_row g f S) = gs_me S"
  "t_entries (update_row g f S) = t_entries S"
  "t_standings (update_row g f S) = t_standings S"
  "t_members (update_row g f S) = t_members S"
  by (simp_all add: update_row_def split: option.split)

lemma update_row_get:
  "om_inv (t_groups S) \<Longrightarrow> map_of (t_groups (update_row g f S)) x =
     (if x = g then map_option f (map_of (t_groups S) g) else map_of (t_groups S) x)"
  by (auto simp: update_row_def om_simps split: option.split)

lemma update_row_om [simp]: "om_inv (t_groups S) \<Longrightarrow> om_inv (t_groups (update_row g f S))"
  by (simp add: update_row_def split: option.split)

lemma only_update_row [simp]: "only_group g S (update_row g f S)"
  by (simp add: only_group_def update_row_get)

lemma only_write_entries [simp]: "only_group g S (write_entries E g i es S)"
  by (simp add: only_group_def write_entries_def)

lemma only_write_standing [simp]: "only_group g S (write_standing g p s q pos S)"
  by (simp add: only_group_def write_standing_def)

lemma only_set_head [simp]: "only_group g S (snd (set_head g o' q h S))"
  by (simp add: set_head_def split: option.split)

lemma only_insert_group [simp]: "only_group (gr_id r) S (insert_group r S)"
  by (simp add: only_group_def insert_group_def om_simps)

lemma only_rebuild [simp]: "only_group g S (rebuild_caches E g c w S)"
  unfolding rebuild_caches_def Let_def
  by (rule only_group_trans [OF _ only_update_row]) (simp add: only_group_def)

text \<open>
  The cache lemma: after \<open>rebuild_caches\<close> with a chain that the entries table holds and words
  that agree with the standings table on the members, the group fits.
\<close>

lemma rebuild_fits:
  assumes "om_inv (t_groups S)" "chain_ok E c" "ch_id c = g"
    and "t_entries S g = numbered E 0 (chain_entries c)"
    and "map_of (t_groups S) g = Some r" "row_fits g r c"
    and "rows_ok E g (t_standings S g)"
    and "same_on (chain_fold E c) w (load_standings E S g)"
  shows "group_inv E (rebuild_caches E g c w S) g
    \<and> (\<exists>r'. map_of (t_groups (rebuild_caches E g c w S)) g = Some r'
         \<and> group_fits E (rebuild_caches E g c w S) g r' c
         \<and> r' = r\<lparr>gr_digest := standings_digest E (chain_fold E c) w\<rparr>)"
proof -
  let ?m = "name_from w (chain_fold E c)"
  let ?t = "filter (\<lambda>(p, r). om_has ?m p) (t_standings S g)"
  let ?S = "rebuild_caches E g c w S"
  let ?r = "r\<lparr>gr_digest := standings_digest E (chain_fold E c) w\<rparr>"
  have has: "om_has ?m p \<longleftrightarrow> members_contains (chain_fold E c) p" for p
    using name_from_facts(2) [of w "chain_fold E c" p] by (simp add: members_contains_def)
  have tabs: "t_members ?S g = ?m" "t_standings ?S g = ?t" "t_entries ?S g = t_entries S g"
    by (simp_all add: rebuild_caches_def Let_def)
  have row: "map_of (t_groups ?S) g = Some ?r"
    using assms(1,5) by (simp add: rebuild_caches_def Let_def update_row_get name_from_facts(3))
  have rows: "rows_ok E g (t_standings ?S g)" using assms(7) by (simp add: tabs)
  have "map_of (load_standings E ?S g) p = map_of (load_standings E S g) p"
    if "members_contains (chain_fold E c) p" for p
    using that rows assms(7) by (simp add: get_load tabs om_get_filter has split: option.split)
  then have same: "same_on (chain_fold E c) w (load_standings E ?S g)"
    using assms(8) by (simp add: same_on_def)
  have "caches_fit E ?S g ?r c"
    unfolding caches_fit_def
  proof (intro conjI allI impI)
    show "t_members ?S g = name_from (load_standings E ?S g) (chain_fold E c)"
      unfolding tabs(1) using same by (intro name_from_cong) simp_all
    show "gr_digest ?r = standings_digest E (chain_fold E c) (load_standings E ?S g)"
      using digest_cong [OF members_inv_fold same] by simp
    fix p assume "om_has (t_standings ?S g) p"
    then show "members_contains (chain_fold E c) p"
      unfolding tabs(2) using has by (auto simp: om_has_iff)
  qed
  moreover have "row_fits g ?r c" using assms(6) by (simp add: row_fits_def)
  ultimately have "group_fits E ?S g ?r c" using assms tabs(3) by (simp add: group_fits_def)
  with row rows show ?thesis by (auto simp: group_inv_def)
qed

lemma same_on_refl [simp]: "same_on m w w"
  by (simp add: same_on_def)

lemma group_inv_row_update:
  assumes "group_inv E S g" "om_inv (t_groups S)"
    and "\<And>r c. row_fits g r c \<Longrightarrow> row_fits g (f r) c" "\<And>r. gr_digest (f r) = gr_digest r"
  shows "group_inv E (update_row g f S) g"
proof (cases "map_of (t_groups S) g")
  case None
  with assms show ?thesis by (simp add: group_inv_def update_row_get)
next
  case (Some r)
  with assms(1) obtain c where c: "group_fits E S g r c" and rows: "rows_ok E g (t_standings S g)"
    by (auto simp: group_inv_def)
  have "group_fits E (update_row g f S) g (f r) c"
    using c assms(3,4) by (auto simp: group_fits_def caches_fit_def load_standings_def)
  with Some rows assms(2) show ?thesis by (auto simp: group_inv_def update_row_get)
qed

lemma store_inv_row_update:
  assumes "store_inv E S"
    and "\<And>r c. row_fits g r c \<Longrightarrow> row_fits g (f r) c" "\<And>r. gr_digest (f r) = gr_digest r"
  shows "store_inv E (update_row g f S)"
  by (rule store_inv_only [OF assms(1) only_update_row group_inv_row_update])
    (use assms in \<open>auto simp: store_inv_def\<close>)

lemma store_inv_small:
  assumes "store_inv E S"
  shows "store_inv E (store_news_told g S)" "store_inv E (store_set_state g st S)" "store_inv E (note_news g S)"
  unfolding store_news_told_def store_set_state_def note_news_def
  using assms by (auto intro!: store_inv_row_update simp: row_fits_def)

lemma store_inv_forget: "store_inv E S \<Longrightarrow> store_inv E (store_forget g S)"
  by (rule store_inv_only [where g = g])
    (auto simp: store_forget_def only_group_def group_inv_def om_simps)

end
