(* ===== verification/GroupProps.thy ===== *)
theory GroupProps
  imports StoreInv
begin

text \<open>
  What the writing operations of the group store do, and that each keeps the invariant.
\<close>

section \<open>Planning a put\<close>

definition plan_ok :: "env \<Rightarrow> group_id \<Rightarrow> groups \<Rightarrow> put_plan \<Rightarrow> bool" where
  "plan_ok E g S plan \<longleftrightarrow> (\<exists>r c. map_of (t_groups S) g = Some r \<and> core_fits E S g r c
     \<and> rows_ok E g (t_standings S g)
     \<and> pp_before plan = chain_fold E c \<and> pp_head_seq plan = chain_len c
     \<and> chain_steps E c (pp_fresh plan) = Inr (pp_chain plan)
     \<and> pp_accepted plan = length (pp_fresh plan))"

lemma check_overlap_iff:
  "check_overlap E g c seq es = Inr () \<longleftrightarrow>
     (\<forall>i < length es. hash_at c (seq + i) = Some (entry_hash_of E (es ! i)))"
proof (induction es arbitrary: seq)
  case (Cons e es)
  show ?case
    by (auto simp: Cons.IH less_Suc_eq_0_disj)
qed simp

lemma put_read_plan:
  assumes "store_inv E S" "put_read E g from entries S = Inr plan"
  shows "plan_ok E g S plan"
proof -
  from assms(2) obtain r where r: "store_get S g = Some r"
    by (auto simp: put_read_def store_require_def bindE_Inr_iff)
  from store_inv_known [OF assms(1) r] obtain c where
    c: "group_fits E S g r c" "store_chain E S g = Inr c" "rows_ok E g (t_standings S g)" .
  from assms(2) c r show ?thesis
    unfolding plan_ok_def put_read_def store_get_def
    by (auto simp: group_fits_core store_require_def store_get_def bindE_Inr_iff Let_def chain_extend_steps
        split: if_splits sum.splits)
qed

section \<open>The transaction of a put\<close>

text \<open>The loop over standings keeps the words and the table in step.\<close>

definition put_step_ok :: "env \<Rightarrow> group_id \<Rightarrow> groups \<Rightarrow> standing_set \<times> groups \<times> peer_id list \<Rightarrow> bool" where
  "put_step_ok E g S0 st \<longleftrightarrow>
     (case st of (w, S, d) \<Rightarrow>
        om_inv w \<and> rows_ok E g (t_standings S g) \<and> (\<forall>p. map_of w p = map_of (load_standings E S g) p)
        \<and> t_groups S = t_groups S0 \<and> t_entries S = t_entries S0 \<and> t_members S = t_members S0
        \<and> gs_me S = gs_me S0 \<and> (\<forall>x. x \<noteq> g \<longrightarrow> t_standings S x = t_standings S0 x))"

lemma load_write_standing:
  assumes "rows_ok E g (t_standings S g)" "standing_verify E g s = Inr body"
    and "parse_peer E (sb_peer body) = Some p"
  shows "rows_ok E g (t_standings (write_standing g p s (sb_seq body) (sb_position body) S) g)"
    and "map_of (load_standings E (write_standing g p s (sb_seq body) (sb_position body) S) g) q =
      (if q = p then Some (held_of s body) else map_of (load_standings E S g) q)"
proof -
  let ?S = "write_standing g p s (sb_seq body) (sb_position body) S"
  show rows: "rows_ok E g (t_standings ?S g)"
    using rows_ok_put [OF assms] by (simp add: write_standing_def)
  have "row_word E \<lparr>sr_seq = sb_seq body, sr_position = sb_position body, sr_standing = s\<rparr>
      = Some (held_of s body)"
    using assms(2) by (simp add: row_word_def standing_body_of_def standing_verify_iff held_of_def)
  moreover have "map_of (t_standings ?S g) q =
      (if q = p then Some \<lparr>sr_seq = sb_seq body, sr_position = sb_position body, sr_standing = s\<rparr>
       else map_of (t_standings S g) q)"
    using assms(1) by (simp add: write_standing_def om_simps)
  ultimately show "map_of (load_standings E ?S g) q =
      (if q = p then Some (held_of s body) else map_of (load_standings E S g) q)"
    using rows assms(1) by (simp add: get_load)
qed

lemma put_standing_ok:
  assumes "put_step_ok E g S0 st"
  shows "put_step_ok E g S0 (put_standing E g c s st)"
proof -
  obtain w S d where st: "st = (w, S, d)" by (cases st)
  show ?thesis
  proof (cases "standing_verify E g s")
    case (Inl err)
    with assms st show ?thesis by (simp add: put_standing_def)
  next
    case (Inr body)
    show ?thesis
    proof (cases "parse_peer E (sb_peer body)")
      case None
      with Inr assms st show ?thesis by (simp add: put_standing_def)
    next
      case (Some p)
      let ?ins = "set_insert p (held_of s body) w"
      have w: "om_inv w" "rows_ok E g (t_standings S g)" "\<And>q. map_of w q = map_of (load_standings E S g) q"
        using assms st by (auto simp: put_step_ok_def)
      show ?thesis
      proof (cases "ever_mentioned E c p \<and> fst ?ins")
        case True
        then have "map_of (snd ?ins) q = (if q = p then Some (held_of s body) else map_of w q)" for q
          using w(1) by (auto simp: set_insert_def om_simps split: option.splits if_splits)
        with load_write_standing [OF w(2) Inr Some] w
        have "\<And>q. map_of (snd ?ins) q = map_of (load_standings E
            (write_standing g p s (sb_seq body) (sb_position body) S) g) q" by simp
        with True Inr Some st assms load_write_standing(1) [OF w(2) Inr Some] w(1) show ?thesis
          by (auto simp: put_standing_def put_step_ok_def Let_def case_prod_unfold write_standing_def)
      next
        case False
        with Inr Some st assms show ?thesis
          by (auto simp: put_standing_def case_prod_unfold)
      qed
    qed
  qed
qed

lemma put_standings_ok:
  "put_step_ok E g S0 st \<Longrightarrow> put_step_ok E g S0 (fold (put_standing E g c) ss st)"
  by (induction ss arbitrary: st) (auto simp: put_standing_ok)

lemma write_entries_fits:
  assumes "t_entries S g = numbered E 0 xs"
  shows "t_entries (write_entries E g (length xs) ys S) g = numbered E 0 (xs @ ys)"
  using assms insert_entries_numbered [of E 0 xs ys] by (simp add: write_entries_def)

lemma set_head_hit:
  assumes "map_of (t_groups S) g = Some r" "gr_head_seq r = o'"
  shows "set_head g o' q h S = (1, update_row g (\<lambda>r. r\<lparr>gr_head_seq := q, gr_head_hash := h\<rparr>) S)"
  using assms by (simp add: set_head_def)

lemma chain_steps_facts:
  assumes "chain_steps E c es = Inr c'"
  shows "ch_id c' = ch_id c" "ch_admin c' = ch_admin c"
    "chain_entries c' = chain_entries c @ es" "chain_len c' = chain_len c + length es"
  using chain_steps_grow [OF assms] by (auto simp: chain_entries_def chain_len_def)

lemma chain_steps_name: "chain_ok E c \<Longrightarrow> chain_steps E c es = Inr c' \<Longrightarrow> chain_name c' = chain_name c"
  using chain_steps_grow [of E c es c'] chain_ok_nonempty [of E c]
  by (auto simp: chain_name_def neq_Nil_conv)

text \<open>The state between writing the entries and reading the standings.\<close>

definition moved_store :: "env \<Rightarrow> group_id \<Rightarrow> put_plan \<Rightarrow> groups \<Rightarrow> groups" where
  "moved_store E g plan S =
     (if 0 < pp_accepted plan
      then update_row g (\<lambda>r. r\<lparr>gr_head_seq := chain_len (pp_chain plan), gr_head_hash := chain_head (pp_chain plan)\<rparr>)
             (write_entries E g (pp_head_seq plan) (pp_fresh plan) S)
      else S)"

lemma moved_store_facts:
  assumes "om_inv (t_groups S)" "plan_ok E g S plan"
  shows "\<exists>r c. map_of (t_groups (moved_store E g plan S)) g = Some r \<and> row_fits g r (pp_chain plan)
      \<and> chain_ok E (pp_chain plan) \<and> ch_id (pp_chain plan) = g
      \<and> t_entries (moved_store E g plan S) g = numbered E 0 (chain_entries (pp_chain plan))
      \<and> t_standings (moved_store E g plan S) = t_standings S
      \<and> rows_ok E g (t_standings S g)"
    and "only_group g S (moved_store E g plan S)"
proof -
  from assms(2) obtain r c where r: "map_of (t_groups S) g = Some r" and c: "core_fits E S g r c"
    and rows: "rows_ok E g (t_standings S g)"
    and plan: "pp_head_seq plan = chain_len c" "chain_steps E c (pp_fresh plan) = Inr (pp_chain plan)"
      "pp_accepted plan = length (pp_fresh plan)"
    by (auto simp: plan_ok_def)
  note facts = chain_steps_facts [OF plan(2)]
  have ok: "chain_ok E c" "t_entries S g = numbered E 0 (chain_entries c)" "row_fits g r c" "ch_id c = g"
    using c by (simp_all add: core_fits_def)
  have len: "length (chain_entries c) = chain_len c" by (simp add: chain_entries_def chain_len_def)
  note om = assms(1)
  show "only_group g S (moved_store E g plan S)"
    by (auto simp: moved_store_def intro: only_group_trans [OF only_write_entries only_update_row])
  show "\<exists>r c. map_of (t_groups (moved_store E g plan S)) g = Some r \<and> row_fits g r (pp_chain plan)
      \<and> chain_ok E (pp_chain plan) \<and> ch_id (pp_chain plan) = g
      \<and> t_entries (moved_store E g plan S) g = numbered E 0 (chain_entries (pp_chain plan))
      \<and> t_standings (moved_store E g plan S) = t_standings S \<and> rows_ok E g (t_standings S g)"
  proof (cases "pp_fresh plan = []")
    case True
    with plan have "pp_chain plan = c" "pp_accepted plan = 0" by simp_all
    with ok r rows show ?thesis by (simp add: moved_store_def)
  next
    case False
    with plan have acc: "0 < pp_accepted plan" by simp
    have "map_of (t_groups (write_entries E g (pp_head_seq plan) (pp_fresh plan) S)) g = Some r"
      "om_inv (t_groups (write_entries E g (pp_head_seq plan) (pp_fresh plan) S))"
      using r om by (simp_all add: write_entries_def)
    moreover have "t_entries (write_entries E g (pp_head_seq plan) (pp_fresh plan) S) g
        = numbered E 0 (chain_entries (pp_chain plan))"
      using write_entries_fits [OF ok(2), of "pp_fresh plan"] plan(1) len facts(3) by simp
    moreover have "row_fits g (r\<lparr>gr_head_seq := chain_len (pp_chain plan),
        gr_head_hash := chain_head (pp_chain plan)\<rparr>) (pp_chain plan)"
      using ok facts chain_steps_name [OF ok(1) plan(2)] by (simp add: row_fits_def)
    ultimately show ?thesis
      using acc rows facts ok chain_ok_steps [OF ok(1) plan(2)]
      by (auto simp: moved_store_def update_row_get write_entries_def)
  qed
qed

lemma put_tx_moved:
  assumes "plan_ok E g S plan"
  shows "put_tx E g plan ss now S =
    (let chain = pp_chain plan; after = chain_fold E chain; before = pp_before plan;
         S1 = moved_store E g plan S;
         (words, S2, departed) = fold (put_standing E g chain) ss (load_standings E S1 g, S1, []);
         S4 = update_row g (\<lambda>r. r\<lparr>gr_name := chain_name chain, gr_last_synced := now\<rparr>)
                (rebuild_caches E g chain words S2)
     in (Inr \<lparr>ap_accepted = pp_accepted plan, ap_head_seq = chain_len chain,
              ap_added = members_diff after before, ap_removed = members_diff before after,
              ap_we_joined = (\<not> members_contains before (gs_me S) \<and> members_contains after (gs_me S)),
              ap_we_lost = (members_contains before (gs_me S) \<and> \<not> members_contains after (gs_me S)),
              ap_departed = departed\<rparr>, S4))"
proof -
  from assms obtain r c where "map_of (t_groups S) g = Some r" "core_fits E S g r c"
    "pp_head_seq plan = chain_len c" by (auto simp: plan_ok_def)
  then have "set_head g (pp_head_seq plan) q h (write_entries E g i es S) =
      (1, update_row g (\<lambda>r. r\<lparr>gr_head_seq := q, gr_head_hash := h\<rparr>) (write_entries E g i es S))"
    for q h i es
    by (intro set_head_hit [of _ _ r]) (simp_all add: write_entries_def core_fits_def row_fits_def)
  then show ?thesis by (simp add: put_tx_def moved_store_def Let_def)
qed

text \<open>What one standing of a batch does to the words, apart from the tables.\<close>

definition absorb :: "env \<Rightarrow> group_id \<Rightarrow> chain \<Rightarrow> standing \<Rightarrow> standing_set \<Rightarrow> standing_set" where
  "absorb E g c s w =
     (case standing_verify E g s of
        Inl _ \<Rightarrow> w
      | Inr body \<Rightarrow>
          (case parse_peer E (sb_peer body) of
             None \<Rightarrow> w
           | Some p \<Rightarrow>
               if ever_mentioned E c p then snd (set_insert p (held_of s body) w) else w))"

lemma fst_put_standing: "fst (put_standing E g c s st) = absorb E g c s (fst st)"
  by (auto simp: put_standing_def absorb_def set_insert_def Let_def
      split: sum.split option.split prod.split)

lemma fst_put_standings: "fst (fold (put_standing E g c) ss st) = fold (absorb E g c) ss (fst st)"
  by (induction ss arbitrary: st) (auto simp: fst_put_standing)

lemma put_tx_ok:
  assumes inv: "others_inv E g S" and plan: "plan_ok E g S plan"
  shows "\<exists>ap S'. put_tx E g plan ss now S = (Inr ap, S') \<and> store_inv E S' \<and> only_group g S S'
    \<and> ap_accepted ap = pp_accepted plan \<and> ap_head_seq ap = chain_len (pp_chain plan)
    \<and> (\<exists>r r'. map_of (t_groups S) g = Some r \<and> map_of (t_groups S') g = Some r'
          \<and> group_fits E S' g r' (pp_chain plan)
          \<and> gr_state r' = gr_state r \<and> gr_first_seen r' = gr_first_seen r \<and> gr_news r' = gr_news r
          \<and> gr_last_synced r' = now
          \<and> gr_digest r' = standings_digest E (chain_fold E (pp_chain plan))
                (fold (absorb E g (pp_chain plan)) ss (load_standings E S g)))"
proof -
  let ?c = "pp_chain plan"
  let ?M = "moved_store E g plan S"
  obtain w T d where f: "fold (put_standing E g ?c) ss (load_standings E ?M g, ?M, []) = (w, T, d)"
    by (metis prod_cases3)
  have om: "om_inv (t_groups S)" using inv by (simp add: others_inv_def)
  from moved_store_facts [OF om plan] obtain r where
    r: "map_of (t_groups ?M) g = Some r" "row_fits g r ?c" and ok: "chain_ok E ?c" "ch_id ?c = g"
    and ent: "t_entries ?M g = numbered E 0 (chain_entries ?c)"
    and st: "t_standings ?M = t_standings S" and rows: "rows_ok E g (t_standings S g)"
    and only: "only_group g S ?M" by auto
  from om only have omM: "om_inv (t_groups ?M)" by (simp add: only_group_def)
  have load: "load_standings E ?M g = load_standings E S g" by (simp add: load_standings_def st)
  have "put_step_ok E g ?M (load_standings E ?M g, ?M, [])"
    using rows st by (simp add: put_step_ok_def)
  from put_standings_ok [OF this, of ?c ss]
  have step: "put_step_ok E g ?M (w, T, d)" by (simp add: f)
  have "w = fst (fold (put_standing E g ?c) ss (load_standings E ?M g, ?M, []))"
    unfolding f by simp
  then have w: "w = fold (absorb E g ?c) ss (load_standings E S g)"
    by (simp add: fst_put_standings load)
  let ?R = "rebuild_caches E g ?c w T"
  let ?U = "update_row g (\<lambda>r. r\<lparr>gr_name := chain_name ?c, gr_last_synced := now\<rparr>) ?R"
  have onlyT: "only_group g ?M T" using step by (simp add: put_step_ok_def only_group_def)
  from step r have "map_of (t_groups T) g = Some r" by (simp add: put_step_ok_def)
  from rebuild_fits [of T E ?c g r w] step ok ent r(2) this omM
  have R: "group_inv E ?R g" and fit: "\<exists>r'. map_of (t_groups ?R) g = Some r' \<and> group_fits E ?R g r' ?c
      \<and> r' = r\<lparr>gr_digest := standings_digest E (chain_fold E ?c) w\<rparr>"
    by (auto simp: put_step_ok_def same_on_def)
  have omR: "om_inv (t_groups ?R)"
    using step omM only_rebuild [of g T E ?c w] by (simp add: put_step_ok_def only_group_def)
  have onlyU: "only_group g S ?U"
    by (rule only_group_trans [OF only only_group_trans [OF onlyT only_group_trans [OF only_rebuild only_update_row]]])
  have "ch_id c' = g \<Longrightarrow> row_fits g x c' \<Longrightarrow> chain_name c' = chain_name ?c \<Longrightarrow>
      row_fits g (x\<lparr>gr_name := chain_name ?c, gr_last_synced := now\<rparr>) c'" for x c'
    by (simp add: row_fits_def)
  from fit omR ok obtain r' where r': "map_of (t_groups ?U) g = Some r'" "group_fits E ?U g r' ?c"
    and rr: "r' = r\<lparr>gr_digest := standings_digest E (chain_fold E ?c) w, gr_name := chain_name ?c,
        gr_last_synced := now\<rparr>"
    by (auto simp: update_row_get group_fits_def row_fits_def caches_fit_def load_standings_def)
  have "rows_ok E g (t_standings ?U g)" using R by (simp add: group_inv_def)
  with r' have "group_inv E ?U g" by (auto simp: group_inv_def)
  from others_inv_store [OF others_inv_only [OF inv onlyU] this] have invU: "store_inv E ?U" .
  from r(1) plan om obtain r0 where r0: "map_of (t_groups S) g = Some r0"
    and same: "gr_state r = gr_state r0" "gr_first_seen r = gr_first_seen r0" "gr_news r = gr_news r0"
    by (auto simp: plan_ok_def moved_store_def update_row_get write_entries_def split: if_splits)
  have "\<exists>ap. put_tx E g plan ss now S = (Inr ap, ?U) \<and> ap_accepted ap = pp_accepted plan
      \<and> ap_head_seq ap = chain_len ?c"
    by (simp add: put_tx_moved [OF plan] Let_def f)
  then obtain ap where "put_tx E g plan ss now S = (Inr ap, ?U)" "ap_accepted ap = pp_accepted plan"
    "ap_head_seq ap = chain_len ?c" by blast
  moreover have "gr_state r' = gr_state r0 \<and> gr_first_seen r' = gr_first_seen r0 \<and> gr_news r' = gr_news r0
      \<and> gr_last_synced r' = now \<and> gr_digest r' = standings_digest E (chain_fold E ?c) (fold (absorb E g ?c) ss (load_standings E S g))"
    using same rr w by simp
  ultimately show ?thesis using invU onlyU r0 r' by blast
qed

lemma store_put_cases:
  assumes "store_inv E S"
  obtains (err) e where "store_put E g from es ss now S = (Inl e, S)" "put_read E g from es S = Inl e"
  | (ok) plan ap S' where "put_read E g from es S = Inr plan" "plan_ok E g S plan"
      "store_put E g from es ss now S = (Inr ap, S')" "put_tx E g plan ss now S = (Inr ap, S')"
proof (cases "put_read E g from es S")
  case (Inl e)
  with err show thesis by (simp add: store_put_def)
next
  case (Inr plan)
  from put_read_plan [OF assms Inr] have plan: "plan_ok E g S plan" .
  from put_tx_ok [OF store_inv_others [OF assms] plan] obtain ap S' where "put_tx E g plan ss now S = (Inr ap, S')" by blast
  with ok [OF Inr plan] Inr show thesis by (simp add: store_put_def)
qed

lemma store_inv_put:
  assumes "store_inv E S" shows "store_inv E (snd (store_put E g from es ss now S))"
proof (cases rule: store_put_cases [OF assms, of g "from" es ss now, case_names err ok])
  case (err e)
  with assms show ?thesis by simp
next
  case (ok plan ap S')
  with put_tx_ok [OF store_inv_others [OF assms] ok(2), of ss now] show ?thesis by auto
qed

end
