(* ===== verification/StoreSteps.thy ===== *)
theory StoreSteps
  imports GroupProps
begin

text \<open>
  The remaining writing operations of the group store keep the invariant, so every state the
  store's operations can reach satisfies it: \<open>store_step\<close> is one call, \<open>reachable\<close> what a
  sequence of calls from an empty database leaves.
\<close>

section \<open>A group that is new to the store\<close>

definition installed :: "env \<Rightarrow> chain \<Rightarrow> state \<Rightarrow> int \<Rightarrow> groups \<Rightarrow> groups" where
  "installed E c st at S =
     snd (set_head (ch_id c) 0 (chain_len c) (chain_head c)
       (write_entries E (ch_id c) 0 (chain_entries c) (insert_group (fresh_row E c st at) S)))"

lemma installed_facts:
  assumes "store_inv E S" "store_get S (ch_id c) = None" "chain_ok E c"
  shows "\<exists>r. map_of (t_groups (installed E c st at S)) (ch_id c) = Some r
      \<and> core_fits E (installed E c st at S) (ch_id c) r c
      \<and> gr_state r = st \<and> gr_first_seen r = at \<and> gr_news r = 0"
    and "t_standings (installed E c st at S) = t_standings S"
    and "gs_me (installed E c st at S) = gs_me S"
    and "only_group (ch_id c) S (installed E c st at S)"
proof -
  let ?g = "ch_id c"
  let ?F = "fresh_row E c st at"
  let ?I = "write_entries E ?g 0 (chain_entries c) (insert_group ?F S)"
  have om: "om_inv (t_groups S)" using assms(1) by (simp add: store_inv_def)
  have row: "map_of (t_groups ?I) ?g = Some ?F" "gr_head_seq ?F = 0"
    using om by (simp_all add: write_entries_def insert_group_def om_simps fresh_row_def)
  have eq: "installed E c st at S =
      update_row ?g (\<lambda>r. r\<lparr>gr_head_seq := chain_len c, gr_head_hash := chain_head c\<rparr>) ?I"
    using set_head_hit [OF row] by (simp add: installed_def)
  have "t_entries S ?g = []" using store_inv_unknown [OF assms(1,2)] by simp
  then have ent: "t_entries ?I ?g = numbered E 0 (chain_entries c)"
    using insert_entries_numbered [of E 0 "[]" "chain_entries c"]
    by (simp add: write_entries_def insert_group_def)
  have omI: "om_inv (t_groups ?I)" using om by (simp add: write_entries_def insert_group_def)
  show "\<exists>r. map_of (t_groups (installed E c st at S)) ?g = Some r
      \<and> core_fits E (installed E c st at S) ?g r c
      \<and> gr_state r = st \<and> gr_first_seen r = at \<and> gr_news r = 0"
    unfolding eq using row omI ent assms(3)
    by (simp add: update_row_get core_fits_def row_fits_def fresh_row_def)
  show "t_standings (installed E c st at S) = t_standings S"
    "gs_me (installed E c st at S) = gs_me S"
    unfolding eq by (simp_all add: write_entries_def insert_group_def)
  have "gr_id ?F = ?g" by (simp add: fresh_row_def)
  then have "only_group ?g S (insert_group ?F S)" using only_insert_group [of ?F S] by simp
  then show "only_group ?g S (installed E c st at S)"
    unfolding eq by (rule only_group_trans [OF _ only_group_trans [OF only_write_entries only_update_row]])
qed

section \<open>Adopting\<close>

lemma put_read_nothing:
  assumes "map_of (t_groups S) g = Some r" "core_fits E S g r c" "rows_ok E g (t_standings S g)"
  shows "put_read E g (chain_len c) [] S = Inr \<lparr>pp_chain = c, pp_before = chain_fold E c,
      pp_head_seq = chain_len c, pp_fresh = [], pp_accepted = 0\<rparr>" (is "_ = Inr ?plan")
    and "plan_ok E g S \<lparr>pp_chain = c, pp_before = chain_fold E c,
      pp_head_seq = chain_len c, pp_fresh = [], pp_accepted = 0\<rparr>"
  using assms store_chain_core [OF assms(2)]
  by (auto simp: put_read_def store_require_def store_get_def plan_ok_def)

lemma rebuild_core:
  assumes "map_of (t_groups S) g = Some r" "core_fits E S g r c" "rows_ok E g (t_standings S g)"
    and "om_inv (t_groups S)"
  shows "\<exists>r'. map_of (t_groups (rebuild_caches E g c w S)) g = Some r'
      \<and> core_fits E (rebuild_caches E g c w S) g r' c
      \<and> gr_state r' = gr_state r \<and> gr_first_seen r' = gr_first_seen r \<and> gr_news r' = gr_news r"
    and "rows_ok E g (t_standings (rebuild_caches E g c w S) g)"
  using assms by (auto simp: rebuild_caches_def Let_def update_row_get core_fits_def row_fits_def)

text \<open>A group that was unknown: everything after the load succeeds.\<close>

lemma adopt_new:
  assumes inv: "store_inv E S" and load: "chain_load E es = Inr c" and new: "store_get S (ch_id c) = None"
  shows "\<exists>ap S' r. store_adopt E es ss now S = (Inr ap, S') \<and> store_inv E S' \<and> only_group (ch_id c) S S'
    \<and> ap_accepted ap = chain_len c \<and> ap_head_seq ap = chain_len c
    \<and> (ap_we_joined ap \<longleftrightarrow> members_contains (chain_fold E c) (gs_me S))
    \<and> map_of (t_groups S') (ch_id c) = Some r \<and> group_fits E S' (ch_id c) r c
    \<and> gr_state r = Pending \<and> gr_first_seen r = now"
proof -
  let ?g = "ch_id c"
  let ?I = "installed E c Pending now S"
  let ?R = "rebuild_caches E ?g c [] ?I"
  from load have ok: "chain_ok E c" by (simp add: chain_load_iff)
  note I = installed_facts [OF inv new ok, of Pending now]
  from I(1) obtain r where r: "map_of (t_groups ?I) ?g = Some r" "core_fits E ?I ?g r c"
    "gr_state r = Pending" "gr_first_seen r = now" by blast
  have rows: "rows_ok E ?g (t_standings ?I ?g)"
    using store_inv_unknown(3) [OF inv new] I(2) by simp
  have othI: "others_inv E ?g ?I" using others_inv_only [OF store_inv_others [OF inv] I(4)] .
  then have omI: "om_inv (t_groups ?I)" by (simp add: others_inv_def)
  note R = rebuild_core [OF r(1,2) rows omI, of "[]"]
  have othR: "others_inv E ?g ?R" using others_inv_only [OF othI only_rebuild] .
  from R(1) r obtain r1 where r1: "map_of (t_groups ?R) ?g = Some r1" "core_fits E ?R ?g r1 c"
    "gr_state r1 = Pending" "gr_first_seen r1 = now" by metis
  note plan = put_read_nothing [OF r1(1,2) R(2)]
  from put_tx_ok [OF othR plan(2), of ss now] r1 obtain ap S' r' where
    tx: "put_tx E ?g \<lparr>pp_chain = c, pp_before = chain_fold E c, pp_head_seq = chain_len c,
        pp_fresh = [], pp_accepted = 0\<rparr> ss now ?R = (Inr ap, S')"
    and S': "store_inv E S'" "only_group ?g ?R S'" "map_of (t_groups S') ?g = Some r'"
      "group_fits E S' ?g r' c" "gr_state r' = Pending" "gr_first_seen r' = now" by auto
  have only: "only_group ?g S S'"
    using only_group_trans [OF I(4) only_group_trans [OF only_rebuild S'(2)]] .
  have "store_put E ?g (chain_len c) [] ss now ?R = (Inr ap, S')"
    using plan(1) tx by (simp add: store_put_def)
  then have "store_adopt E es ss now S = (Inr (ap\<lparr>ap_head_seq := chain_len c,
      ap_accepted := chain_len c, ap_we_joined := members_contains (chain_fold E c) (gs_me S)\<rparr>), S')"
    using load new by (simp add: store_adopt_def map_err_def Let_def installed_def)
  with S' only show ?thesis by fastforce
qed

lemma store_inv_adopt:
  assumes "store_inv E S" shows "store_inv E (snd (store_adopt E es ss now S))"
proof (cases "chain_load E es")
  case (Inl err)
  with assms show ?thesis by (simp add: store_adopt_def map_err_def)
next
  case (Inr c)
  show ?thesis
  proof (cases "store_get S (ch_id c)")
    case None
    from adopt_new [OF assms Inr this, of ss now] show ?thesis by auto
  next
    case (Some r)
    with Inr assms show ?thesis by (simp add: store_adopt_def map_err_def Let_def store_inv_put)
  qed
qed

section \<open>Creating\<close>

lemma chain_create_ok:
  assumes "chain_create E key name nonce at = Inr c"
  shows "chain_ok E c \<and> length (ch_entries c) = 1"
proof -
  from assms obtain e where "chain_load E [e] = Inr c"
    by (auto simp: chain_create_def Let_def bindE_Inr_iff)
  then have "chain_ok E c" "chain_entries c = [e]" by (simp_all add: chain_load_iff)
  then show ?thesis using arg_cong [of _ _ length] by (force simp: chain_entries_def)
qed

lemma chain_create_admin:
  assumes "cbor_ok E" "base58_ok E" "chain_create E key name nonce at = Inr c"
  shows "ch_admin c = peer_of_key E key"
proof -
  let ?body = "\<lparr>eb_group = GROUP_ZERO, eb_seq = 0, eb_prev = NO_PARENT, eb_at = at,
      eb_op = Create (to_base58 E (peer_of_key E key)) nonce name\<rparr>"
  from assms(3) obtain e i adm v where e: "entry_sign E key ?body = Inr e"
    and g: "check_genesis E e = Inr (i, adm, v)" and c: "ch_admin c = adm"
    by (auto simp: chain_create_def Let_def bindE_Inr_iff chain_load_steps)
  from e have "dec_entry E (e_body e) = Some ?body"
    by (auto simp: entry_sign_def Let_def bindE_Inr_iff cbor_entry [OF assms(1)] split: if_splits)
  with g c show ?thesis by (auto simp: check_genesis_iff base58_parse [OF assms(2)])
qed

text \<open>A chain of one entry has one member.\<close>

lemma single_entry_members:
  assumes "chain_ok E c" "length (ch_entries c) = 1"
  shows "chain_fold E c = [(ch_admin c, \<lparr>m_peer = ch_admin c, m_username = None, m_is_admin = True\<rparr>)]"
  using assms
  by (cases rule: chain_ok.cases)
    (use chain_ok_nonempty in \<open>auto simp: check_genesis_iff chain_fold_def apply_op_def members_insert_def\<close>)

lemma authored_peer:
  assumes "cbor_ok E" "base58_ok E" "standing_author E key g seq pos name at = Inr s"
    and "standing_verify E g s = Inr body"
  shows "parse_peer E (sb_peer body) = Some (peer_of_key E key) \<and> sb_seq body = seq
    \<and> sb_position body = pos \<and> sb_group body = g"
proof -
  from assms(3) obtain n bs sg where
    "enc_standing E \<lparr>sb_group = g, sb_peer = to_base58 E (peer_of_key E key), sb_seq = seq,
      sb_position = pos, sb_username = n, sb_at = at\<rparr> = Some bs" (is "enc_standing E ?b = _")
    and s: "s = \<lparr>st_body = bs, st_signature = sg\<rparr>"
    by (auto simp: standing_author_def Let_def bindE_Inr_iff)
  then have "dec_standing E bs = Some ?b" by (simp add: cbor_standing [OF assms(1)])
  with assms(4) s have "body = ?b" by (simp add: standing_verify_iff)
  then show ?thesis by (simp add: base58_parse [OF assms(2)])
qed

lemma create_ok:
  assumes inv: "store_inv E S" and env: "cbor_ok E" "base58_ok E"
    and chain: "chain_create E key name nonce at = Inr c" and new: "store_get S (ch_id c) = None"
    and s: "standing_author E key (ch_id c) seq In username at = Inr s"
    and body: "standing_verify E (ch_id c) s = Inr body"
  shows "store_inv E (rebuild_caches E (ch_id c) c (snd (set_insert (ch_admin c) (held_of s body) []))
    (write_standing (ch_id c) (ch_admin c) s (sb_seq body) (sb_position body) (installed E c Active at S)))"
    (is "store_inv E (rebuild_caches E ?g c ?w ?W)")
proof -
  let ?I = "installed E c Active at S"
  from chain_create_ok [OF chain] have ok: "chain_ok E c" "length (ch_entries c) = 1" by auto
  note I = installed_facts [OF inv new ok(1), of Active at]
  from I(1) obtain r where r: "map_of (t_groups ?I) ?g = Some r" "core_fits E ?I ?g r c" by blast
  have rowsI: "rows_ok E ?g (t_standings ?I ?g)" using store_inv_unknown(3) [OF inv new] I(2) by simp
  have peer: "parse_peer E (sb_peer body) = Some (ch_admin c)"
    using authored_peer [OF env s body] chain_create_admin [OF env chain] by simp
  note W = load_write_standing [OF rowsI body peer]
  have tabs: "t_groups ?W = t_groups ?I" "t_entries ?W = t_entries ?I" by (simp_all add: write_standing_def)
  have oth: "others_inv E ?g ?W"
    by (rule others_inv_only [OF others_inv_only [OF store_inv_others [OF inv] I(4)] only_write_standing])
  then have om: "om_inv (t_groups ?W)" by (simp add: others_inv_def)
  have "same_on (chain_fold E c) ?w (load_standings E ?W ?g)"
    using single_entry_members [OF ok]
    by (auto simp: same_on_def W(2) members_contains_def om_has_def set_insert_def split: if_splits)
  with rebuild_fits [OF om ok(1) refl _ _ _ W(1), of r ?w] r tabs
  have "group_inv E (rebuild_caches E ?g c ?w ?W) ?g" by (simp add: core_fits_def)
  then show ?thesis by (rule others_inv_store [OF others_inv_only [OF oth only_rebuild]])
qed

lemma store_inv_create:
  assumes "store_inv E S" "cbor_ok E" "base58_ok E"
  shows "store_inv E (snd (store_create E key name username nonce at S))"
proof (cases "fst (store_create E key name username nonce at S)")
  case (Inl err)
  then have "snd (store_create E key name username nonce at S) = S"
    by (auto simp: store_create_def Let_def split: sum.splits)
  with assms show ?thesis by simp
next
  case (Inr g)
  then obtain n c s body where "nonce = Some n" "chain_create E key name n at = Inr c"
    "store_get S (ch_id c) = None"
    "standing_author E key (ch_id c) (next_standing_seq None) In username at = Inr s"
    "standing_verify E (ch_id c) s = Inr body"
    and "snd (store_create E key name username nonce at S) = rebuild_caches E (ch_id c) c
      (snd (set_insert (ch_admin c) (held_of s body) []))
      (write_standing (ch_id c) (ch_admin c) s (sb_seq body) (sb_position body) (installed E c Active at S))"
    by (auto simp: store_create_def Let_def bindE_Inr_iff installed_def split: sum.splits)
  with create_ok [OF assms, of key name n at c "next_standing_seq None" username s body]
  show ?thesis by simp
qed

section \<open>Authoring\<close>

lemma author_read_plan:
  assumes "store_inv E S" "author_read E key g x at S = Inr (e, n, c')"
  shows "\<exists>r c. map_of (t_groups S) g = Some r \<and> group_fits E S g r c \<and> rows_ok E g (t_standings S g)
    \<and> n = chain_len c \<and> chain_author E key x at c = (Inr e, c')"
proof -
  from assms(2) obtain r where r: "store_get S g = Some r"
    by (auto simp: author_read_def store_require_def bindE_Inr_iff)
  from store_inv_known [OF assms(1) r] obtain c where
    c: "group_fits E S g r c" "store_chain E S g = Inr c" "rows_ok E g (t_standings S g)" .
  with assms(2) r show ?thesis
    by (auto simp: author_read_def store_require_def store_get_def split: sum.splits prod.splits)
qed

lemma chain_author_steps:
  "chain_author E key x at c = (Inr e, c') \<Longrightarrow> chain_steps E c [e] = Inr c'"
  by (auto simp: chain_author_def Let_def chain_extend_steps split: if_splits sum.splits prod.splits)

text \<open>What the author of an entry writes is what a peer's \<open>put\<close> of that entry writes, with one
  more news item.\<close>

lemma author_tx_put:
  assumes "plan_ok E g S \<lparr>pp_chain = c', pp_before = b, pp_head_seq = n, pp_fresh = [e], pp_accepted = 1\<rparr>"
  shows "author_tx E g (e, n, c') at S = (Inr e, note_news g (snd (put_tx E g
      \<lparr>pp_chain = c', pp_before = b, pp_head_seq = n, pp_fresh = [e], pp_accepted = 1\<rparr> [] at S)))"
proof -
  from assms obtain r c where "map_of (t_groups S) g = Some r" "core_fits E S g r c" "n = chain_len c"
    by (auto simp: plan_ok_def)
  then have "set_head g n q h (write_entries E g i es S) =
      (1, update_row g (\<lambda>r. r\<lparr>gr_head_seq := q, gr_head_hash := h\<rparr>) (write_entries E g i es S))"
    for q h i es
    by (intro set_head_hit [of _ _ r]) (simp_all add: write_entries_def core_fits_def row_fits_def)
  then show ?thesis by (simp add: author_tx_def put_tx_def Let_def)
qed

text \<open>An entry the chain accepted is written, with the caches, and counted as news.\<close>

lemma author_done:
  assumes inv: "store_inv E S" and r: "store_get S g = Some r" and c: "store_chain E S g = Inr c"
    and author: "chain_author E key x at c = (Inr e, c')"
  shows "\<exists>S' r'. store_author E key g x at S = (Inr e, S') \<and> store_inv E S' \<and> only_group g S S'
    \<and> store_get S' g = Some r' \<and> group_fits E S' g r' c' \<and> gr_state r' = gr_state r
    \<and> gr_news r' = gr_news r + 1"
proof -
  from store_inv_known [OF inv r] c have fits: "group_fits E S g r c" and rows: "rows_ok E g (t_standings S g)"
    by (metis sum.inject(2))+
  let ?plan = "\<lparr>pp_chain = c', pp_before = chain_fold E c, pp_head_seq = chain_len c, pp_fresh = [e], pp_accepted = 1\<rparr>"
  have plan: "plan_ok E g S ?plan"
    unfolding plan_ok_def using r fits rows chain_author_steps [OF author]
    by (auto simp: group_fits_core store_get_def)
  have read: "author_read E key g x at S = Inr (e, chain_len c, c')"
    using r c author by (simp add: author_read_def store_require_def)
  from put_tx_ok [OF store_inv_others [OF inv] plan, of "[]" at] r obtain ap T r' where
    T: "put_tx E g ?plan [] at S = (Inr ap, T)" "store_inv E T" "only_group g S T"
      "map_of (t_groups T) g = Some r'" "group_fits E T g r' c'" "gr_state r' = gr_state r" "gr_news r' = gr_news r"
    by (auto simp: store_get_def)
  have "store_author E key g x at S = (Inr e, note_news g T)"
    unfolding store_author_def read sum.case author_tx_put [OF plan] T(1) snd_conv by (rule refl)
  moreover have om: "om_inv (t_groups T)" using T(2) by (simp add: store_inv_def)
  moreover have "group_fits E (note_news g T) g (r'\<lparr>gr_news := gr_news r' + 1\<rparr>) c'"
    using T(5) by (simp add: group_fits_def caches_fit_def row_fits_def note_news_def load_standings_def)
  moreover have "only_group g S (note_news g T)"
    unfolding note_news_def by (rule only_group_trans [OF T(3) only_update_row])
  moreover have "store_get (note_news g T) g = Some (r'\<lparr>gr_news := gr_news r' + 1\<rparr>)"
    using T(4) om by (simp add: store_get_def note_news_def update_row_get)
  ultimately show ?thesis using T store_inv_small(3) [OF T(2), of g] by (auto simp: store_get_def)
qed

lemma store_inv_author:
  assumes inv: "store_inv E S" shows "store_inv E (snd (store_author E key g x at S))"
proof (cases "author_read E key g x at S")
  case (Inl err)
  with assms show ?thesis by (simp add: store_author_def)
next
  case (Inr prep)
  obtain e n c' where prep: "prep = (e, n, c')" by (cases prep)
  from author_read_plan [OF inv] Inr prep obtain r c where
    r: "map_of (t_groups S) g = Some r" and c: "group_fits E S g r c"
    and author: "chain_author E key x at c = (Inr e, c')" by blast
  from author_done [OF inv r [folded store_get_def] store_chain_fits [OF c] author] show ?thesis by auto
qed

lemma refresh_digest_inv:
  assumes "others_inv E g S" "rows_ok E g (t_standings S g)"
    and "case map_of (t_groups S) g of Some r \<Rightarrow> \<exists>c. core_fits E S g r c
           | None \<Rightarrow> t_entries S g = [] \<and> t_members S g = []"
  shows "store_inv E (snd (refresh_digest E g S))"
proof (cases "map_of (t_groups S) g")
  case None
  with assms have "group_inv E S g" "t_entries S g = []" by (simp_all add: group_inv_def)
  with others_inv_store [OF assms(1)] show ?thesis by (simp add: refresh_digest_def store_chain_def)
next
  case (Some r)
  with assms(3) obtain c where c: "core_fits E S g r c" by auto
  have om: "om_inv (t_groups S)" using assms(1) by (simp add: others_inv_def)
  from rebuild_fits [OF om _ _ _ Some _ assms(2), of c "load_standings E S g"] c
  have "group_inv E (rebuild_caches E g c (load_standings E S g) S) g" by (simp add: core_fits_def)
  from others_inv_store [OF others_inv_only [OF assms(1) only_rebuild] this]
  show ?thesis by (simp add: refresh_digest_def store_chain_core [OF c])
qed

lemma store_inv_author_standing:
  assumes inv: "store_inv E S" and env: "cbor_ok E" "base58_ok E" and me: "gs_me S = peer_of_key E key"
  shows "store_inv E (snd (store_author_standing E key g pos username at S))"
proof -
  let ?q = "next_standing_seq (my_standing_seq S g)"
  let ?prep = "bindE (map_err EStanding (standing_author E key g ?q pos username at)) (\<lambda>s.
      bindE (map_err EStanding (standing_verify E g s)) (\<lambda>body. Inr (s, body)))"
  show ?thesis
  proof (cases ?prep)
    case (Inl err)
    show ?thesis unfolding store_author_standing_def Inl sum.case snd_conv by (rule inv)
  next
    case (Inr sb)
    obtain s body where sb: "sb = (s, body)" by (cases sb)
    have res: "snd (case x of (Inl err, S3) \<Rightarrow> (Inl err, S3) | (Inr _, S3) \<Rightarrow> (Inr s, S3)) = snd x"
      for x :: "(store_error + unit) \<times> groups" by (cases x) (simp split: sum.split)
    from Inr sb have "standing_author E key g ?q pos username at = Inr s" "standing_verify E g s = Inr body"
      by (auto simp: bindE_Inr_iff)
    moreover have "snd (store_author_standing E key g pos username at S) = snd (refresh_digest E g
         (note_news g (update_row g (\<lambda>r. r\<lparr>gr_state := state_of_position pos\<rparr>)
           (write_standing g (gs_me S) s (sb_seq body) (sb_position body) S))))"
      unfolding store_author_standing_def Inr sb sum.case prod.case Let_def by (rule res)
    ultimately have ok: "standing_author E key g ?q pos username at = Inr s" "standing_verify E g s = Inr body"
      "snd (store_author_standing E key g pos username at S) = snd (refresh_digest E g
         (note_news g (update_row g (\<lambda>r. r\<lparr>gr_state := state_of_position pos\<rparr>)
           (write_standing g (gs_me S) s (sb_seq body) (sb_position body) S))))" .
    let ?W = "write_standing g (gs_me S) s (sb_seq body) (sb_position body) S"
    let ?T = "note_news g (update_row g (\<lambda>r. r\<lparr>gr_state := state_of_position pos\<rparr>) ?W)"
    have om: "om_inv (t_groups S)" using inv by (simp add: store_inv_def)
    have only: "only_group g S ?T" unfolding note_news_def
      by (rule only_group_trans [OF only_write_standing only_group_trans [OF only_update_row only_update_row]])
    have rows: "rows_ok E g (t_standings S g)" using store_inv_group [OF inv, of g] by (simp add: group_inv_def)
    have peer: "parse_peer E (sb_peer body) = Some (gs_me S)"
      using authored_peer [OF env ok(1,2)] me by simp
    have "rows_ok E g (t_standings ?T g)"
      using load_write_standing(1) [OF rows ok(2) peer] by (simp add: note_news_def)
    moreover have "case map_of (t_groups ?T) g of Some r \<Rightarrow> \<exists>c. core_fits E ?T g r c
           | None \<Rightarrow> t_entries ?T g = [] \<and> t_members ?T g = []"
    proof (cases "map_of (t_groups S) g")
      case None
      with store_inv_group [OF inv, of g] om show ?thesis
        by (simp add: group_inv_def note_news_def update_row_get write_standing_def)
    next
      case (Some r)
      with store_inv_group [OF inv, of g] obtain c where "core_fits E S g r c"
        by (auto simp: group_inv_def group_fits_core)
      then have "core_fits E ?T g (r\<lparr>gr_state := state_of_position pos, gr_news := gr_news r + 1\<rparr>) c"
        by (simp add: core_fits_def row_fits_def note_news_def write_standing_def)
      with Some om show ?thesis by (auto simp: note_news_def update_row_get write_standing_def)
    qed
    ultimately show ?thesis
      unfolding ok(3) using others_inv_only [OF store_inv_others [OF inv] only] by (intro refresh_digest_inv)
  qed
qed

section \<open>Reachable stores\<close>

inductive store_step :: "env \<Rightarrow> keypair \<Rightarrow> groups \<Rightarrow> groups \<Rightarrow> bool" for E key where
  create: "store_step E key S (snd (store_create E key name username nonce at S))"
| put: "store_step E key S (snd (store_put E g from es ss now S))"
| adopt: "store_step E key S (snd (store_adopt E es ss now S))"
| author: "store_step E key S (snd (store_author E key g x at S))"
| author_standing: "store_step E key S (snd (store_author_standing E key g pos username at S))"
| news_told: "store_step E key S (store_news_told g S)"
| set_state: "store_step E key S (store_set_state g st S)"
| forget: "store_step E key S (store_forget g S)"

inductive_cases store_step_cases: "store_step E key S S'"

inductive reachable :: "env \<Rightarrow> keypair \<Rightarrow> groups \<Rightarrow> bool" for E key where
  start: "reachable E key (empty_store (peer_of_key E key))"
| step: "reachable E key S \<Longrightarrow> store_step E key S S' \<Longrightarrow> reachable E key S'"

lemma store_step_inv:
  assumes "store_step E key S S'" "store_inv E S" "cbor_ok E" "base58_ok E" "gs_me S = peer_of_key E key"
  shows "store_inv E S'"
  using assms
  by cases (auto simp: store_inv_create store_inv_put store_inv_adopt store_inv_author
      store_inv_author_standing store_inv_small store_inv_forget)

end
