(* ===== verification/Sample.thy ===== *)
theory Sample
  imports StoreSteps
begin

text \<open>
  A concrete instance of the third-party functions and a small history over it, used to show that
  the hypotheses of the properties can hold. Peers are numbered; a signature is the signer's
  number followed by the message; the hash is the identity; the encodings are tables of the
  bodies of the history: alice creates a group, adds bob, adds carol and removes bob.
\<close>

definition alice :: peer_id where "alice = PeerId 0"
definition bob :: peer_id where "bob = PeerId 1"
definition carol :: peer_id where "carol = PeerId 2"

lemmas peer_defs = alice_def bob_def carol_def

definition unary :: "peer_id \<Rightarrow> string" where
  "unary p = replicate (Suc (peer_no p)) CHR ''a''"

definition of_unary :: "string \<Rightarrow> peer_id option" where
  "of_unary s = (if s \<noteq> [] \<and> list_all (\<lambda>c. c = CHR ''a'') s then Some (PeerId (length s - 1)) else None)"

definition team :: group_id where "team = GroupId [1, 0]"

definition body0 :: entry_body where
  "body0 = \<lparr>eb_group = GROUP_ZERO, eb_seq = 0, eb_prev = NO_PARENT, eb_at = 0,
     eb_op = Create ''a'' [7] ''team''\<rparr>"
definition body1 :: entry_body where
  "body1 = \<lparr>eb_group = team, eb_seq = 1, eb_prev = EntryHash [0, 0], eb_at = 0, eb_op = Add ''aa''\<rparr>"
definition body2 :: entry_body where
  "body2 = \<lparr>eb_group = team, eb_seq = 2, eb_prev = EntryHash [0, 1], eb_at = 0, eb_op = Add ''aaa''\<rparr>"
definition body3 :: entry_body where
  "body3 = \<lparr>eb_group = team, eb_seq = 3, eb_prev = EntryHash [0, 2], eb_at = 0, eb_op = Remove ''aa''\<rparr>"

definition word0 :: standing_body where
  "word0 = \<lparr>sb_group = team, sb_peer = ''a'', sb_seq = 1, sb_position = In, sb_username = ''alice'', sb_at = 0\<rparr>"
definition word1 :: standing_body where
  "word1 = \<lparr>sb_group = team, sb_peer = ''aa'', sb_seq = 1, sb_position = In, sb_username = ''bob'', sb_at = 0\<rparr>"
definition word2 :: standing_body where
  "word2 = \<lparr>sb_group = team, sb_peer = ''aa'', sb_seq = 2, sb_position = Out, sb_username = ''bob'', sb_at = 0\<rparr>"

lemmas body_defs = body0_def body1_def body2_def body3_def word0_def word1_def word2_def team_def

definition table_enc :: "('a \<times> bytes) list \<Rightarrow> 'a \<Rightarrow> bytes option" where
  "table_enc t x = map_of t x"

definition table_dec :: "('a \<times> bytes) list \<Rightarrow> bytes \<Rightarrow> 'a option" where
  "table_dec t bs = map_of (map (\<lambda>(a, b). (b, a)) t) bs"

definition entry_table :: "(entry_body \<times> bytes) list" where
  "entry_table = [(body0, [0]), (body1, [1]), (body2, [2]), (body3, [3])]"

definition word_table :: "(standing_body \<times> bytes) list" where
  "word_table = [(word0, [4]), (word1, [5]), (word2, [6])]"

definition sample :: env where
  "sample = \<lparr>parse_peer = of_unary, to_base58 = unary,
     peer_to_bytes = (\<lambda>p. replicate (peer_no p) 1 @ [0]),
     public_key_of = (\<lambda>p. Some (PubKey (peer_no p))),
     peer_of_key = (\<lambda>k. case k of Keypair n \<Rightarrow> PeerId n),
     sign_bytes = (\<lambda>k m. case k of Keypair n \<Rightarrow> Some (of_nat n # m)),
     verifies = (\<lambda>pk m s. case pk of PubKey n \<Rightarrow> s = of_nat n # m),
     sha256 = (\<lambda>bs. bs),
     enc_entry = table_enc entry_table, dec_entry = table_dec entry_table,
     enc_standing = table_enc word_table, dec_standing = table_dec word_table\<rparr>"

lemma sample_simps [simp]:
  "parse_peer sample = of_unary" "to_base58 sample = unary"
  "peer_to_bytes sample p = replicate (peer_no p) 1 @ [0]"
  "public_key_of sample p = Some (PubKey (peer_no p))"
  "peer_of_key sample (Keypair n) = PeerId n"
  "sign_bytes sample (Keypair n) m = Some (of_nat n # m)"
  "verifies sample (PubKey n) m s \<longleftrightarrow> s = of_nat n # m"
  "sha256 sample bs = bs"
  by (simp_all add: sample_def)

lemma of_unary_unary [simp]: "of_unary (unary p) = Some p"
  by (cases p) (simp add: unary_def of_unary_def list_all_iff)

lemma unary_of_unary: "of_unary s = Some p \<Longrightarrow> unary p = s"
proof -
  assume "of_unary s = Some p"
  then have "s \<noteq> []" "\<forall>c \<in> set s. c = CHR ''a''" "p = PeerId (length s - 1)"
    by (simp_all add: of_unary_def list_all_iff split: if_splits)
  then show "unary p = s" by (simp add: unary_def replicate_length_same)
qed

lemma sample_base58: "base58_ok sample"
  by (simp add: base58_ok_def unary_of_unary)

lemma table_roundtrip:
  "distinct (map snd t) \<Longrightarrow> table_enc t b = Some bs \<Longrightarrow> table_dec t bs = Some b"
proof -
  assume d: "distinct (map snd t)" and "table_enc t b = Some bs"
  then have "(b, bs) \<in> set t" by (simp add: table_enc_def map_of_SomeD)
  then have "(bs, b) \<in> set (map (\<lambda>(a, b). (b, a)) t)" by force
  moreover have "map fst (map (\<lambda>(a, b). (b, a)) t) = map snd t" by (induction t) auto
  ultimately show ?thesis unfolding table_dec_def using d by (metis map_of_is_SomeI)
qed

lemma sample_cbor: "cbor_ok sample"
  unfolding cbor_ok_def sample_def
  by (auto intro!: table_roundtrip simp: entry_table_def word_table_def)

lemma sample_sign: "sign_ok sample"
  by (auto simp: sign_ok_def sample_def split: keypair.split)

lemma sample_inj: "inj (sha256 sample)"
  by (rule injI) simp

lemma unary_prefix: "replicate m (1 :: 8 word) @ 0 # a = replicate n 1 @ 0 # b \<Longrightarrow> m = n"
proof (induction m arbitrary: n)
  case 0
  then show ?case by (cases n) auto
next
  case (Suc m)
  then show ?case by (cases n) auto
qed

lemma sample_prefix_free: "peer_prefix_free sample"
  unfolding peer_prefix_free_def
proof (intro allI impI)
  fix p q a b assume "peer_to_bytes sample p @ a = peer_to_bytes sample q @ b"
  then have "replicate (peer_no p) 1 @ 0 # a = replicate (peer_no q) 1 @ 0 # b"
    unfolding sample_simps append_assoc append.simps .
  then have "peer_no p = peer_no q" by (rule unary_prefix)
  then show "p = q" by (rule peer_id.expand)
qed

definition ent :: "nat \<Rightarrow> entry" where
  "ent n = \<lparr>e_body = [of_nat n], e_signature = [0, of_nat n]\<rparr>"

definition stand_alice :: standing where "stand_alice = \<lparr>st_body = [4], st_signature = [0, 4]\<rparr>"
definition stand_bob :: standing where "stand_bob = \<lparr>st_body = [5], st_signature = [1, 5]\<rparr>"
definition stand_bob_out :: standing where "stand_bob_out = \<lparr>st_body = [6], st_signature = [1, 6]\<rparr>"

lemmas stand_defs = stand_alice_def stand_bob_def stand_bob_out_def

lemma dec_sample [simp]:
  "dec_entry sample [0] = Some body0" "dec_entry sample [1] = Some body1"
  "dec_entry sample [2] = Some body2" "dec_entry sample [3] = Some body3"
  "dec_standing sample [4] = Some word0" "dec_standing sample [5] = Some word1"
  "dec_standing sample [6] = Some word2"
  by (simp_all add: sample_def table_dec_def entry_table_def word_table_def)

lemma enc_sample [simp]:
  "enc_entry sample body0 = Some [0]" "enc_entry sample body1 = Some [1]"
  "enc_entry sample body2 = Some [2]" "enc_entry sample body3 = Some [3]"
  "enc_standing sample word0 = Some [4]" "enc_standing sample word1 = Some [5]"
  "enc_standing sample word2 = Some [6]"
  by (simp_all add: sample_def table_enc_def entry_table_def word_table_def body_defs)

lemma unary_small [simp]:
  "of_unary ''a'' = Some alice" "of_unary ''aa'' = Some bob" "of_unary ''aaa'' = Some carol"
  "unary alice = ''a''" "unary bob = ''aa''" "unary carol = ''aaa''"
  by (simp_all add: of_unary_def unary_def peer_defs numeral_2_eq_2)

lemma peers_distinct [simp]:
  "alice \<noteq> bob" "bob \<noteq> alice" "alice \<noteq> carol" "carol \<noteq> alice" "bob \<noteq> carol" "carol \<noteq> bob"
  by (simp_all add: peer_defs)

lemma peers_less [simp]: "alice < bob" "bob < carol" "alice < carol"
  "\<not> bob < alice" "\<not> carol < bob" "\<not> carol < alice"
  by (simp_all add: peer_defs less_peer_id_def)

lemma peers_no [simp]: "peer_no alice = 0" "peer_no bob = 1" "peer_no carol = 2"
  by (simp_all add: peer_defs)

section \<open>The history as chains\<close>

definition ver :: "nat \<Rightarrow> entry_body \<Rightarrow> verified" where
  "ver n b = \<lparr>v_entry = ent n, v_body = b, v_hash = EntryHash [0, of_nat n]\<rparr>"

definition chain1 :: chain where
  "chain1 = \<lparr>ch_id = team, ch_admin = alice, ch_entries = [ver 0 body0]\<rparr>"
definition chain2 :: chain where
  "chain2 = \<lparr>ch_id = team, ch_admin = alice, ch_entries = [ver 0 body0, ver 1 body1]\<rparr>"
definition chain3 :: chain where
  "chain3 = \<lparr>ch_id = team, ch_admin = alice, ch_entries = [ver 0 body0, ver 1 body1, ver 2 body2]\<rparr>"
definition chain4 :: chain where
  "chain4 = \<lparr>ch_id = team, ch_admin = alice,
     ch_entries = [ver 0 body0, ver 1 body1, ver 2 body2, ver 3 body3]\<rparr>"

lemmas chain_defs = chain1_def chain2_def chain3_def chain4_def ver_def

definition mem :: "peer_id \<Rightarrow> bool \<Rightarrow> peer_id \<times> member" where
  "mem p adm = (p, \<lparr>m_peer = p, m_username = None, m_is_admin = adm\<rparr>)"

lemma fold_samples:
  "chain_fold sample chain1 = [mem alice True]"
  "chain_fold sample chain2 = [mem alice True, mem bob False]"
  "chain_fold sample chain3 = [mem alice True, mem bob False, mem carol False]"
  "chain_fold sample chain4 = [mem alice True, mem carol False]"
  by (simp_all add: chain_fold_def chain_defs body_defs apply_op_def members_insert_def
      members_remove_def mem_def om_del_def)

lemma ent_simps: "e_body (ent n) = [of_nat n]" "e_signature (ent n) = [0, of_nat n]"
  by (simp_all add: ent_def)

lemmas chain_eval = check_genesis_iff check_next_iff chain_defs body_defs ent_simps entry_wire_len_def
  MAX_ENTRY_BYTES_def MAX_NAME_LEN_def entry_hash_of_def of_body_def of_genesis_def tagged_def
  TAG_GROUP_def TAG_ENTRY_def chain_len_def chain_head_def signed_by_def op_allowed_def chain_push_def

lemma load1: "check_genesis sample (ent 0) = Inr (team, alice, ver 0 body0)"
  by (simp add: chain_eval dec_sample [unfolded body_defs])

lemma next2: "check_next sample chain1 (ent 1) = Inr (ver 1 body1)"
  by (simp add: chain_eval dec_sample [unfolded body_defs])

lemma next3: "check_next sample chain2 (ent 2) = Inr (ver 2 body2)"
  by (simp add: chain_eval dec_sample [unfolded body_defs])

lemma next4: "check_next sample chain3 (ent 3) = Inr (ver 3 body3)"
  using fold_samples(3)
  by (simp add: chain_eval dec_sample [unfolded body_defs] members_contains_def om_has_def mem_def)

lemma steps_sample:
  "chain_push chain1 (ver 1 body1) = chain2" "chain_push chain2 (ver 2 body2) = chain3"
  "chain_push chain3 (ver 3 body3) = chain4"
  by (simp_all add: chain_defs chain_push_def)

lemma chains_ok: "chain_ok sample chain1" "chain_ok sample chain2" "chain_ok sample chain3" "chain_ok sample chain4"
proof -
  show 1: "chain_ok sample chain1" unfolding chain1_def using load1 by (rule chain_ok.genesis)
  show 2: "chain_ok sample chain2" using chain_ok.push [OF 1 next2] unfolding steps_sample .
  show 3: "chain_ok sample chain3" using chain_ok.push [OF 2 next3] unfolding steps_sample .
  show "chain_ok sample chain4" using chain_ok.push [OF 3 next4] unfolding steps_sample .
qed

lemma entries_samples:
  "chain_entries chain1 = [ent 0]" "chain_entries chain2 = [ent 0, ent 1]"
  "chain_entries chain3 = [ent 0, ent 1, ent 2]" "chain_entries chain4 = [ent 0, ent 1, ent 2, ent 3]"
  by (simp_all add: chain_defs chain_entries_def)

lemma len_samples: "chain_len chain1 = 1" "chain_len chain2 = 2" "chain_len chain3 = 3" "chain_len chain4 = 4"
  by (simp_all add: chain_defs chain_len_def)

lemma id_samples: "ch_id chain1 = team" "ch_id chain2 = team" "ch_id chain3 = team" "ch_id chain4 = team"
  "ch_admin chain1 = alice" "ch_admin chain2 = alice" "ch_admin chain3 = alice" "ch_admin chain4 = alice"
  by (simp_all add: chain_defs)

lemma loads:
  "chain_load sample [ent 0] = Inr chain1" "chain_load sample [ent 0, ent 1] = Inr chain2"
  "chain_load sample [ent 0, ent 1, ent 2] = Inr chain3"
  "chain_load sample [ent 0, ent 1, ent 2, ent 3] = Inr chain4"
  using chains_ok entries_samples by (simp_all add: chain_load_iff)

end
