(* ===== verification/FileRowTheorems.thy ===== *)
theory FileRowTheorems
  imports FileRows PathTheorems Sample
begin

text \<open>
  Round trips of a file row: through the columns it is stored in, through the manifest entry that
  crosses the wire, and of the bitmap that answers which files are held.
\<close>

section \<open>Paths are valid\<close>

definition path_ok :: "relpath \<Rightarrow> bool" where
  "path_ok p \<longleftrightarrow> relpath_parse (path_str p) = Inr p"

lemma parse_path_ok: "relpath_parse raw = Inr p \<Longrightarrow> path_ok p \<and> path_str p = raw"
  by (auto simp: path_ok_def parse_iff)

section \<open>Stored rows\<close>

text \<open>A stored row reads back. Writing a row fails exactly when its size does not fit SQLite's
  signed integer (or the position does not); otherwise what is stored reads back as the row, with the
  held flag and the position it was written with.\<close>

theorem columns_roundtrip:
  assumes "base58_ok E" "path_ok (fl_path row)"
  shows "(row_columns E row h seq = Inl FCorruptRow \<longleftrightarrow> 2 ^ 63 \<le> unat (fl_size row) \<or> 2 ^ 63 \<le> seq)
    \<and> (row_columns E row h seq = Inr c \<longrightarrow> row_to_file E c = Inr (row\<lparr>fl_have := h, fl_seen_seq := seq\<rparr>))"
proof (intro conjI impI)
  show "row_columns E row h seq = Inl FCorruptRow \<longleftrightarrow> 2 ^ 63 \<le> unat (fl_size row) \<or> 2 ^ 63 \<le> seq"
    by (auto simp: row_columns_def i64_of_def I64_MAX_def bindE_def)
  assume "row_columns E row h seq = Inr c"
  then have "c = \<lparr>fc_path = path_str (fl_path row), fc_size = int (unat (fl_size row)), fc_hash = fl_hash row,
      fc_modified = fl_modified row, fc_added_at = fl_added_at row, fc_added_by = to_base58 E (fl_added_by row),
      fc_removed_at = fl_removed_at row, fc_have = (if h then 1 else 0), fc_seen_seq = int seq\<rparr>"
    by (auto simp: row_columns_def i64_of_def bindE_Inr_iff split: if_splits)
  with assms show "row_to_file E c = Inr (row\<lparr>fl_have := h, fl_seen_seq := seq\<rparr>)"
    by (simp add: row_to_file_def u64_of_def path_ok_def map_err_def base58_parse)
qed

definition note_row :: file_row where
  "note_row = \<lparr>fl_path = RelPath ''a'', fl_size = 5, fl_hash = hex_encode (replicate 32 9), fl_modified = 0,
     fl_added_at = 7, fl_added_by = bob, fl_removed_at = None, fl_have = True, fl_seen_seq = 3\<rparr>"

lemma a_path: "path_ok (RelPath ''a'')"
  by (simp add: path_ok_def parse_iff safe_component_def no_control_samples)

theorem columns_roundtrip_witness:
  "\<exists>c. row_columns sample note_row True 3 = Inr c \<and> row_to_file sample c = Inr note_row"
proof -
  have ok: "path_ok (fl_path note_row)" by (simp add: note_row_def a_path)
  obtain c where c: "row_columns sample note_row True 3 = Inr c"
    by (simp add: row_columns_def i64_of_def I64_MAX_def note_row_def)
  with columns_roundtrip [OF sample_base58 ok, of True 3 c] show ?thesis by (auto simp: note_row_def)
qed

section \<open>Entries on the wire\<close>

text \<open>C39. A catalogue row survives the wire. An entry made of a row whose hash is 32 bytes in hex turns
  back into that row without what is local to the sender (the held flag and the log position), and
  an entry a peer sends is accepted exactly when its path is valid and its author is a peer id; the
  row it becomes, when the hash has 32 bytes, is advertised as that very entry.\<close>

theorem entry_roundtrip:
  assumes "base58_ok E" "path_ok (fl_path row)" "length hash = 32" "fl_hash row = hex_encode hash"
  shows "(\<exists>e. manifest_entry_of E row = Some e \<and> into_row E e = Some (row\<lparr>fl_have := False, fl_seen_seq := 0\<rparr>))
    \<and> (\<forall>e r. length (me_hash e) = 32 \<and> into_row E e = Some r \<longrightarrow>
        manifest_entry_of E r = Some e \<and> path_ok (fl_path r) \<and> \<not> fl_have r)
    \<and> (\<forall>e. (\<exists>r. into_row E e = Some r) \<longleftrightarrow>
        (\<exists>p. relpath_parse (me_path e) = Inr p) \<and> (\<exists>q. parse_peer E (me_added_by e) = Some q))"
proof (intro conjI allI impI)
  show "(\<exists>r. into_row E e = Some r) \<longleftrightarrow>
      (\<exists>p. relpath_parse (me_path e) = Inr p) \<and> (\<exists>q. parse_peer E (me_added_by e) = Some q)" for e
    by (simp add: into_row_def split: sum.split option.split)
  have "hash_parse (fl_hash row) = Some hash" using assms(3,4) by (simp add: hash_parse_def hex_decode_encode)
  then show "\<exists>e. manifest_entry_of E row = Some e \<and> into_row E e = Some (row\<lparr>fl_have := False, fl_seen_seq := 0\<rparr>)"
    using assms by (simp add: manifest_entry_of_def into_row_def path_ok_def base58_parse)
  fix e r assume a: "length (me_hash e) = 32 \<and> into_row E e = Some r"
  then show e: "manifest_entry_of E r = Some e" and "path_ok (fl_path r)" and "\<not> fl_have r"
    using assms(1) by (auto simp: into_row_def manifest_entry_of_def hash_parse_def hex_decode_encode base58_iff [symmetric]
        parse_iff path_ok_def split: sum.splits option.splits)
qed

theorem entry_roundtrip_witness:
  "\<exists>e. manifest_entry_of sample note_row = Some e
     \<and> into_row sample e = Some (note_row\<lparr>fl_have := False, fl_seen_seq := 0\<rparr>)"
proof -
  have "path_ok (fl_path note_row)" "length (replicate 32 (9 :: 8 word)) = 32"
    "fl_hash note_row = hex_encode (replicate 32 9)" by (simp_all add: note_row_def a_path)
  from entry_roundtrip [OF sample_base58 this] show ?thesis by blast
qed

section \<open>The held bitmap\<close>

lemma holds_bit: "holds bm i \<longleftrightarrow> i div 8 < length bm \<and> bit (bm ! (i div 8)) (i mod 8)"
  by (simp add: holds_def push_bit_of_1 and_exp_eq_0_iff_not_bit)

lemma pack_step:
  assumes len: "length out = (i + 7) div 8" and none: "\<And>j. i \<le> j \<Longrightarrow> \<not> holds out j"
    and out': "out' = (let out = (if i mod 8 = 0 then out @ [0] else out)
      in if yes then out[length out - 1 := last out OR push_bit (i mod 8) 1] else out)"
  shows "length out' = (Suc i + 7) div 8" "holds out' j \<longleftrightarrow> holds out j \<or> j = i \<and> yes"
proof -
  define o1 where "o1 = (if i mod 8 = 0 then out @ [0] else out)"
  have l1: "length o1 = i div 8 + 1"
    using len by (auto simp: o1_def) presburger+
  have h1: "holds o1 j \<longleftrightarrow> holds out j" for j
    by (auto simp: o1_def holds_bit nth_append)
  have out1: "out' = (if yes then o1[length o1 - 1 := last o1 OR push_bit (i mod 8) 1] else o1)"
    using out' by (simp add: o1_def Let_def)
  have last: "last o1 = o1 ! (i div 8)" using l1 by (metis add_diff_cancel_right' last_conv_nth length_0_conv nat.simps(3) Suc_eq_plus1)
  have "length out' = i div 8 + 1" using out1 l1 by simp
  then show "length out' = (Suc i + 7) div 8" by simp
  show "holds out' j \<longleftrightarrow> holds out j \<or> j = i \<and> yes"
  proof (cases yes)
    case True
    have o: "out' = o1[i div 8 := o1 ! (i div 8) OR push_bit (i mod 8) 1]" using True out1 last l1 by simp
    have "holds out' j \<longleftrightarrow> holds o1 j \<or> j div 8 = i div 8 \<and> j mod 8 = i mod 8"
      unfolding holds_bit o using l1
      by (cases "j div 8 = i div 8") (auto simp: nth_list_update bit_or_iff push_bit_of_1 bit_exp_iff)
    also have "(j div 8 = i div 8 \<and> j mod 8 = i mod 8) = (j = i)"
      by (metis div_mult_mod_eq)
    finally show ?thesis using True h1 by simp
  next
    case False
    then show ?thesis using out1 h1 by simp
  qed
qed

lemma pack_loop_holds:
  assumes "length out = (i + 7) div 8" "\<And>j. i \<le> j \<Longrightarrow> \<not> holds out j"
  shows "length (pack_loop i hs out) = (i + length hs + 7) div 8
    \<and> (holds (pack_loop i hs out) j \<longleftrightarrow> (if j < i then holds out j else j - i < length hs \<and> hs ! (j - i)))"
  using assms
proof (induction i hs out rule: pack_loop.induct)
  case (1 i out)
  then show ?case by auto
next
  case (2 i yes held out)
  let ?out = "let out = (if i mod 8 = 0 then out @ [0] else out)
      in if yes then out[length out - 1 := last out OR push_bit (i mod 8) 1] else out"
  note step = pack_step [OF 2(2,3) refl, of yes]
  have none: "\<not> holds ?out j" if "Suc i \<le> j" for j using step(2) [of j] 2(3) [of j] that by simp
  have eq: "pack_loop i (yes # held) out = pack_loop (Suc i) held ?out" by (simp add: Let_def)
  from 2(1) [OF refl refl] step(1) none have
    "length (pack_loop (Suc i) held ?out) = (Suc i + length held + 7) div 8"
    "holds (pack_loop (Suc i) held ?out) j \<longleftrightarrow> (if j < Suc i then holds ?out j else j - Suc i < length held \<and> held ! (j - Suc i))"
    by (simp_all add: Let_def)
  then show ?case unfolding eq using step(2) [of j] 2(3) [of j]
    by (auto simp: not_less less_Suc_eq nth_Cons' Suc_diff_le)
qed

text \<open>C40. The bitmap answers what it was asked. It has one bit for each answer, in as many bytes as
  they need; reading a bit gives the answer back, and a bit past the end reads as not held.\<close>

theorem holdings_roundtrip:
  "length (pack_holdings held) = (length held + 7) div 8
   \<and> (holds (pack_holdings held) i \<longleftrightarrow> i < length held \<and> held ! i)"
proof -
  have "\<not> holds [] j" for j by (simp add: holds_def)
  from pack_loop_holds [of "[]" 0, OF _ this] show ?thesis by (simp add: pack_holdings_def)
qed

end
