(* ===== verification/FileProps.thy ===== *)
theory FileProps
  imports FileStore FileRowTheorems
begin

text \<open>
  What every operation of the file index keeps: each row is stored under its own valid path, the
  positions of a group's log are distinct and none is ahead of the counter, no two groups share a
  directory, and a cached digest that is still current is the digest of the rows.
\<close>

section \<open>Lookup and frame facts\<close>

lemma f_state_upsert [simp]:
  "f_rows (state_upsert g u F) = f_rows F" "f_roots (state_upsert g u F) = f_roots F"
  "f_sync (state_upsert g u F) = f_sync F" "f_me (state_upsert g u F) = f_me F"
  by (simp_all add: state_upsert_def)

lemma rows_in_upsert [simp]: "rows_in (state_upsert g u F) h = rows_in F h"
  by (simp add: rows_in_def)

lemma om_inv_upsert [simp]: "om_inv (f_state F) \<Longrightarrow> om_inv (f_state (state_upsert g u F))"
  by (simp add: state_upsert_def)

lemma state_of_upsert: "om_inv (f_state F) \<Longrightarrow>
    state_of (state_upsert g u F) h = (if h = g then u (state_of F g) else state_of F h)"
  by (simp add: state_upsert_def state_of_def om_simps)

lemma seq_in_state: "seq_in F g = fs_seq (state_of F g)"
  by (simp add: seq_in_def state_of_def file_state_default_def split: option.split)

lemma served_seq_state: "served_seq F g = fs_served_seq (state_of F g)"
  by (simp add: served_seq_def state_of_def file_state_default_def split: option.split)

lemma next_seq_facts:
  assumes "om_inv (f_state F)"
  shows "fst (next_seq g F) = Suc (seq_in F g)"
    "snd (next_seq g F) = state_upsert g (\<lambda>s. s\<lparr>fs_seq := fs_seq s + 1\<rparr>) F"
    "seq_in (snd (next_seq g F)) h = (if h = g then Suc (seq_in F g) else seq_in F h)"
  using assms by (simp_all add: next_seq_def Let_def seq_in_state state_of_upsert)

lemma rows_in_iff:
  assumes "om_inv (f_rows F)"
  shows "r \<in> set (rows_in F g) \<longleftrightarrow> (\<exists>p. read_row F g p = Some r)"
  using om_in_set_iff [OF assms] by (force simp: rows_in_def read_row_def)

lemma read_put_row [simp]:
  "om_inv (f_rows F) \<Longrightarrow> read_row (put_row g row F) h p = (if h = g \<and> p = fl_path row then Some row else read_row F h p)"
  by (auto simp: read_row_def put_row_def om_simps)

lemma read_delete_row [simp]:
  "om_inv (f_rows F) \<Longrightarrow> read_row (delete_row g q F) h p = (if h = g \<and> p = q then None else read_row F h p)"
  by (auto simp: read_row_def delete_row_def om_simps)

lemma read_tombstone [simp]:
  "om_inv (f_rows F) \<Longrightarrow> read_row (tombstone_at g q at n F) h p =
     (if h = g \<and> p = q then map_option (\<lambda>r. r\<lparr>fl_removed_at := Some at, fl_have := False, fl_seen_seq := n\<rparr>) (read_row F g q)
      else read_row F h p)"
  by (auto simp: read_row_def tombstone_at_def om_simps split: option.split)

lemma read_mark_have [simp]:
  "om_inv (f_rows F) \<Longrightarrow> read_row (mark_have g q b F) h p =
     (if h = g \<and> p = q then map_option (\<lambda>r. r\<lparr>fl_have := b\<rparr>) (read_row F g q) else read_row F h p)"
  by (auto simp: read_row_def mark_have_def om_simps split: option.split)

lemma read_upsert [simp]: "read_row (state_upsert h u F) g p = read_row F g p"
  by (simp add: read_row_def)

lemma put_row_frame [simp]:
  "f_state (put_row g row F) = f_state F" "f_roots (put_row g row F) = f_roots F" "f_sync (put_row g row F) = f_sync F"
  "f_me (put_row g row F) = f_me F" "om_inv (f_rows F) \<Longrightarrow> om_inv (f_rows (put_row g row F))"
  by (simp_all add: put_row_def)

lemma delete_row_frame [simp]:
  "f_state (delete_row g p F) = f_state F" "f_roots (delete_row g p F) = f_roots F" "f_sync (delete_row g p F) = f_sync F"
  "f_me (delete_row g p F) = f_me F" "om_inv (f_rows F) \<Longrightarrow> om_inv (f_rows (delete_row g p F))"
  by (simp_all add: delete_row_def)

lemma tombstone_frame [simp]:
  "f_state (tombstone_at g p at n F) = f_state F" "f_roots (tombstone_at g p at n F) = f_roots F"
  "f_sync (tombstone_at g p at n F) = f_sync F" "f_me (tombstone_at g p at n F) = f_me F"
  "om_inv (f_rows F) \<Longrightarrow> om_inv (f_rows (tombstone_at g p at n F))"
  by (auto simp: tombstone_at_def split: option.split)

lemma mark_have_frame [simp]:
  "f_state (mark_have g p b F) = f_state F" "f_roots (mark_have g p b F) = f_roots F"
  "f_sync (mark_have g p b F) = f_sync F" "f_me (mark_have g p b F) = f_me F"
  "om_inv (f_rows F) \<Longrightarrow> om_inv (f_rows (mark_have g p b F))"
  by (auto simp: mark_have_def split: option.split)

lemma rows_in_other:
  assumes "om_inv (f_rows F)" "om_inv (f_rows F')" "\<And>p. read_row F' h p = read_row F h p"
  shows "rows_in F' h = rows_in F h"
proof -
  have "map_of (filter (\<lambda>e. fst (fst e) = h) m) k = (if fst k = h then map_of m k else None)"
    for m :: "(group_id \<times> relpath, file_row) omap" and k
    by (induction m) auto
  with assms have "filter (\<lambda>e. fst (fst e) = h) (f_rows F') = filter (\<lambda>e. fst (fst e) = h) (f_rows F)"
    by (intro om_ext) (auto simp: fun_eq_iff read_row_def)
  then show ?thesis by (simp add: rows_in_def case_prod_unfold)
qed

section \<open>The invariant\<close>

definition row_ok :: "files \<Rightarrow> group_id \<Rightarrow> relpath \<Rightarrow> file_row \<Rightarrow> bool" where
  "row_ok F g p r \<longleftrightarrow> fl_path r = p \<and> path_ok p \<and> 0 < fl_seen_seq r \<and> fl_seen_seq r \<le> seq_in F g
     \<and> fl_seen_seq r \<le> I64_MAX \<and> unat (fl_size r) \<le> I64_MAX"

definition cache_ok :: "env \<Rightarrow> files \<Rightarrow> group_id \<Rightarrow> bool" where
  "cache_ok E F g \<longleftrightarrow> fs_digest_seq (state_of F g) \<le> seq_in F g
     \<and> (\<forall>d. fs_digest (state_of F g) = Some d \<and> fs_digest_seq (state_of F g) = seq_in F g \<longrightarrow>
          d = catalogue_digest E (rows_in F g))"

definition files_inv :: "env \<Rightarrow> files \<Rightarrow> bool" where
  "files_inv E F \<longleftrightarrow> om_inv (f_roots F) \<and> om_inv (f_rows F) \<and> om_inv (f_sync F) \<and> om_inv (f_state F)
     \<and> distinct (map snd (f_roots F))
     \<and> (\<forall>g p r. read_row F g p = Some r \<longrightarrow> row_ok F g p r)
     \<and> (\<forall>g p q r s. read_row F g p = Some r \<and> read_row F g q = Some s \<and> fl_seen_seq r = fl_seen_seq s \<longrightarrow> p = q)
     \<and> (\<forall>g. cache_ok E F g)"

lemma files_inv_new: "files_inv E (files_new me)"
  by (simp add: files_inv_def files_new_def read_row_def cache_ok_def state_of_def file_state_default_def seq_in_def)

lemma files_invD:
  assumes "files_inv E F"
  shows "om_inv (f_roots F)" "om_inv (f_rows F)" "om_inv (f_sync F)" "om_inv (f_state F)"
    "distinct (map snd (f_roots F))" "read_row F g p = Some r \<Longrightarrow> row_ok F g p r" "cache_ok E F g"
    "read_row F g p = Some r \<Longrightarrow> read_row F g q = Some s \<Longrightarrow> fl_seen_seq r = fl_seen_seq s \<Longrightarrow> p = q"
  using assms unfolding files_inv_def by (simp_all, blast)

text \<open>An operation that hands out a position and then changes one row, which takes that position or goes.\<close>

lemma files_inv_step:
  assumes inv: "files_inv E F" and n: "n = Suc (seq_in F g)"
    and F1: "F1 = snd (next_seq g F)"
    and tabs: "f_state F' = f_state F1" "f_roots F' = f_roots F" "f_sync F' = f_sync F" "om_inv (f_rows F')"
    and other: "\<And>h p. (h, p) \<noteq> (g, q) \<Longrightarrow> read_row F' h p = read_row F h p"
    and new: "\<And>r. read_row F' g q = Some r \<Longrightarrow> fl_path r = q \<and> path_ok q \<and> fl_seen_seq r = n \<and> n \<le> I64_MAX \<and> unat (fl_size r) \<le> I64_MAX"
  shows "files_inv E F'"
proof -
  note d = files_invD [OF inv]
  have state: "state_of F' h = (if h = g then (state_of F g)\<lparr>fs_seq := n\<rparr> else state_of F h)" for h
    using state_of_upsert [OF d(4), of g "\<lambda>s. s\<lparr>fs_seq := fs_seq s + 1\<rparr>" h] n
    by (simp add: F1 next_seq_facts(2) [OF d(4)] state_of_def tabs(1) seq_in_state)
  then have seq: "seq_in F' h = (if h = g then n else seq_in F h)" for h by (simp add: seq_in_state)
  have row: "row_ok F' h p r" if "read_row F' h p = Some r" for h p r
  proof (cases "(h, p) = (g, q)")
    case True
    with new [of r] that n show ?thesis by (simp add: row_ok_def seq)
  next
    case False
    with other that d(6) [of h p r] n show ?thesis by (auto simp: row_ok_def seq)
  qed
  have old: "fl_seen_seq r < n" if "read_row F g p = Some r" for p r
    using d(6) [OF that] n by (simp add: row_ok_def)
  have inj: "p = p'" if a: "read_row F' h p = Some r" "read_row F' h p' = Some s" "fl_seen_seq r = fl_seen_seq s" for h p p' r s
  proof (cases "h = g")
    case False
    with a other d(8) [of h p r p' s] show ?thesis by simp
  next
    case True
    show ?thesis
    proof (rule ccontr)
      assume "p \<noteq> p'"
      then show False
        using a other d(8) [of h p r p' s] new old True by (cases "p = q"; cases "p' = q") fastforce+
    qed
  qed
  have cache: "cache_ok E F' h" for h
  proof (cases "h = g")
    case True
    with d(7) [of g] n show ?thesis by (simp add: cache_ok_def state seq)
  next
    case False
    then have "rows_in F' h = rows_in F h" using other d(2) tabs(4) by (intro rows_in_other) auto
    with False d(7) [of h] show ?thesis by (simp add: cache_ok_def state seq)
  qed
  have "om_inv (f_state F')" using tabs(1) d(4) by (simp add: F1 next_seq_facts(2) [OF d(4)])
  with row inj cache tabs(4) d(1,3,5) show ?thesis unfolding files_inv_def tabs(2,3) by blast
qed

lemma om_put_existing:
  "om_inv m \<Longrightarrow> om_has m k \<Longrightarrow> om_put k v m = map (\<lambda>(a, b). (a, if a = k then v else b)) m"
  by (rule om_ext) (auto simp: fun_eq_iff om_simps om_get_map_snd om_has_def option.map_ident)

lemma map_rows_put:
  assumes "om_inv (f_rows F)" "read_row F g p = Some r" "d r' = d r"
  shows "map d (rows_in (F\<lparr>f_rows := om_put (g, p) r' (f_rows F)\<rparr>) h) = map d (rows_in F h)"
proof -
  have has: "om_has (f_rows F) (g, p)" using assms(2) by (simp add: om_has_def read_row_def)
  have "d b = d r" if "((g, p), b) \<in> set (f_rows F)" for b
    using that assms(1,2) by (simp add: om_in_set_iff read_row_def)
  then have all: "\<forall>(a, b) \<in> set (f_rows F). d (if a = (g, p) then r' else b) = d b" using assms(3) by auto
  have eq: "\<forall>(a, b) \<in> set m. d (if a = (g, p) then r' else b) = d b \<Longrightarrow>
      map d (map snd (filter (\<lambda>((h', p), r). h' = h) (map (\<lambda>(a, b). (a, if a = (g, p) then r' else b)) m)))
      = map d (map snd (filter (\<lambda>((h', p), r). h' = h) m))" for m by (induction m) auto
  from eq [OF all] show ?thesis by (simp add: rows_in_def om_put_existing [OF assms(1) has])
qed

text \<open>Counters, and operations that leave rows and positions alone.\<close>

lemma files_inv_upsert:
  assumes inv: "files_inv E F" and u: "\<And>s. fs_seq (u s) = fs_seq s \<and> fs_digest (u s) = fs_digest s \<and> fs_digest_seq (u s) = fs_digest_seq s"
  shows "files_inv E (state_upsert g u F)"
proof -
  note d = files_invD [OF inv]
  have seq: "seq_in (state_upsert g u F) h = seq_in F h" for h
    using u by (simp add: seq_in_state state_of_upsert [OF d(4)])
  have "row_ok (state_upsert g u F) h p r" if "read_row F h p = Some r" for h p r
    using d(6) [OF that] by (simp add: row_ok_def seq)
  moreover have "cache_ok E (state_upsert g u F) h" for h
    using d(7) [of h] u by (cases "h = g") (simp_all add: cache_ok_def seq state_of_upsert [OF d(4)])
  ultimately show ?thesis using d(1-5,8) unfolding files_inv_def f_state_upsert read_upsert by auto
qed

lemma files_inv_mark_have: "files_inv E F \<Longrightarrow> files_inv E (mark_have g q b F)"
proof -
  assume inv: "files_inv E F"
  note d = files_invD [OF inv]
  let ?F = "mark_have g q b F"
  have seq: "seq_in ?F h = seq_in F h" "state_of ?F h = state_of F h" for h by (simp_all add: seq_in_def state_of_def)
  have old: "\<exists>r0. read_row F h p = Some r0 \<and> r = r0\<lparr>fl_have := fl_have r\<rparr>" if "read_row ?F h p = Some r" for h p r
  proof (cases "h = g \<and> p = q")
    case True
    with that read_mark_have [OF d(2), of g q b h p] show ?thesis by (cases "read_row F g q") auto
  next
    case False
    with that read_mark_have [OF d(2), of g q b h p] show ?thesis by (intro exI [of _ r]) simp
  qed
  have "row_ok ?F h p r" if r: "read_row ?F h p = Some r" for h p r
  proof -
    from old [OF r] obtain r0 where "read_row F h p = Some r0" "r = r0\<lparr>fl_have := fl_have r\<rparr>" by blast
    with d(6) [of h p r0] show ?thesis by (cases r0; cases r) (simp add: row_ok_def seq)
  qed
  moreover have "p = p'" if "read_row ?F h p = Some r" "read_row ?F h p' = Some s" "fl_seen_seq r = fl_seen_seq s" for h p p' r s
  proof -
    from old [OF that(1)] old [OF that(2)] obtain r0 s0 where
      "read_row F h p = Some r0" "read_row F h p' = Some s0" "r = r0\<lparr>fl_have := fl_have r\<rparr>" "s = s0\<lparr>fl_have := fl_have s\<rparr>" by blast
    moreover from this(3,4) that(3) have "fl_seen_seq r0 = fl_seen_seq s0" by (cases r0; cases s0; cases r; cases s) simp
    ultimately show ?thesis using d(8) by blast
  qed
  moreover have "cache_ok E ?F h" for h
  proof -
    have "map row_digest_bytes (rows_in ?F h) = map row_digest_bytes (rows_in F h)"
      by (cases "read_row F g q") (simp_all add: mark_have_def map_rows_put [OF d(2)] row_digest_bytes_def)
    then have "catalogue_digest E (rows_in ?F h) = catalogue_digest E (rows_in F h)"
      by (simp add: catalogue_digest_def)
    with d(7) [of h] show ?thesis by (simp add: cache_ok_def seq)
  qed
  moreover have "om_inv (f_rows ?F)" "f_state ?F = f_state F" "f_roots ?F = f_roots F" "f_sync ?F = f_sync F"
    using d(2) by simp_all
  ultimately show ?thesis using d(1,3-5) unfolding files_inv_def by metis
qed

section \<open>Transactions\<close>

text \<open>A step keeps \<open>P\<close> of the tables when it succeeds, and its result satisfies \<open>Q\<close>.\<close>

definition tx_ok :: "(files \<Rightarrow> bool) \<Rightarrow> 'a tx \<Rightarrow> ('a \<Rightarrow> bool) \<Rightarrow> bool" where
  "tx_ok P m Q \<longleftrightarrow> (\<forall>s x s'. P (fst s) \<longrightarrow> m s = (Inr x, s') \<longrightarrow> P (fst s') \<and> Q x)"

lemma tx_okD: "tx_ok P m Q \<Longrightarrow> P (fst s) \<Longrightarrow> m s = (Inr x, s') \<Longrightarrow> P (fst s') \<and> Q x"
  unfolding tx_ok_def by blast

lemma tx_okI: "(\<And>s x s'. P (fst s) \<Longrightarrow> m s = (Inr x, s') \<Longrightarrow> P (fst s') \<and> Q x) \<Longrightarrow> tx_ok P m Q"
  unfolding tx_ok_def by blast

lemma tx_ok_bind: "tx_ok P m Q \<Longrightarrow> (\<And>x. Q x \<Longrightarrow> tx_ok P (k x) R) \<Longrightarrow> tx_ok P (tx_bind m k) R"
proof -
  assume m: "tx_ok P m Q" and k: "\<And>x. Q x \<Longrightarrow> tx_ok P (k x) R"
  have "P (fst s') \<and> R x" if s: "P (fst s)" "tx_bind m k s = (Inr x, s')" for s x s'
  proof -
    from s(2) obtain y t where y: "m s = (Inr y, t)" "k y t = (Inr x, s')"
      by (auto simp: tx_bind_def split: prod.splits sum.splits)
    from tx_okD [OF m s(1) y(1)] have "P (fst t)" "Q y" by simp_all
    from tx_okD [OF k [OF this(2)] this(1) y(2)] show ?thesis .
  qed
  then show ?thesis by (rule tx_okI)
qed

lemma tx_ok_return: "Q x \<Longrightarrow> tx_ok P (tx_return x) Q"
  by (simp add: tx_ok_def tx_return_def)

lemma tx_ok_fail: "tx_ok P (tx_fail e) Q"
  by (simp add: tx_ok_def tx_fail_def)

lemma tx_ok_get: "(\<And>F. P F \<Longrightarrow> Q (q F)) \<Longrightarrow> tx_ok P (tx_get q) Q"
  by (auto simp: tx_ok_def tx_get_def)

lemma tx_ok_update: "(\<And>F. P F \<Longrightarrow> P (u F)) \<Longrightarrow> tx_ok P (tx_update u) (\<lambda>_. True)"
  by (auto simp: tx_ok_def tx_update_def)

lemma tx_ok_if: "(b \<Longrightarrow> tx_ok P m Q) \<Longrightarrow> (\<not> b \<Longrightarrow> tx_ok P n Q) \<Longrightarrow> tx_ok P (if b then m else n) Q"
  by simp

lemma transaction_keeps: "tx_ok P m (\<lambda>_. True) \<Longrightarrow> P (fst s) \<Longrightarrow> P (fst (snd (transaction m s)))"
proof -
  assume m: "tx_ok P m (\<lambda>_. True)" and s: "P (fst s)"
  obtain r s' where r: "m s = (r, s')" by (cases "m s")
  show ?thesis
  proof (cases r)
    case (Inl e)
    with r s show ?thesis by (simp add: transaction_def)
  next
    case (Inr x)
    with r tx_okD [OF m s] show ?thesis by (simp add: transaction_def)
  qed
qed

lemma tx_ok_move_bytes: "tx_ok P (move_bytes root dir p q) (\<lambda>_. True)"
  by (auto simp: tx_ok_def move_bytes_def split: prod.splits sum.splits io_error.splits)

lemma tx_ok_remove_bytes: "tx_ok P (remove_bytes root dir p) (\<lambda>_. True)"
  by (auto simp: tx_ok_def remove_bytes_def split: prod.splits sum.splits)

lemma tx_ok_write_row:
  assumes "path_ok (fl_path row)"
  shows "tx_ok (files_inv E) (write_row g row h) (\<lambda>_. True)"
proof -
  have "files_inv E (fst s')" if inv: "files_inv E (fst s)" and w: "write_row g row h s = (Inr n, s')" for s n s'
  proof -
    let ?F = "fst s"
    note d = files_invD [OF inv]
    have seq: "fst (next_seq g ?F) = Suc (seq_in ?F g)" using d(4) by (rule next_seq_facts(1))
    let ?F1 = "snd (next_seq g ?F)"
    have F1: "om_inv (f_rows ?F1)" "f_roots ?F1 = f_roots ?F" "f_sync ?F1 = f_sync ?F"
      "\<And>h p. read_row ?F1 h p = read_row ?F h p" using d(2) by (simp_all add: next_seq_facts(2) [OF d(4)])
    from w have s': "fst s' = put_row g (row\<lparr>fl_have := h, fl_seen_seq := Suc (seq_in ?F g)\<rparr>) ?F1"
      and size: "Suc (seq_in ?F g) \<le> I64_MAX" "unat (fl_size row) \<le> I64_MAX"
      by (auto simp: write_row_def seq case_prod_unfold Let_def not_less split: if_splits)
    show ?thesis
    proof (rule files_inv_step [OF inv refl refl, where q = "fl_path row"])
      show "f_state (fst s') = f_state ?F1" "f_roots (fst s') = f_roots ?F" "f_sync (fst s') = f_sync ?F"
        "om_inv (f_rows (fst s'))" using F1 by (simp_all add: s')
      show "read_row (fst s') h' p = read_row ?F h' p" if "(h', p) \<noteq> (g, fl_path row)" for h' p
        using that F1 by (auto simp: s')
      show "fl_path r = fl_path row \<and> path_ok (fl_path row) \<and> fl_seen_seq r = Suc (seq_in ?F g)
          \<and> Suc (seq_in ?F g) \<le> I64_MAX \<and> unat (fl_size r) \<le> I64_MAX"
        if "read_row (fst s') g (fl_path row) = Some r" for r
        using that F1 assms size by (auto simp: s')
    qed
  qed
  then show ?thesis by (intro tx_okI) blast
qed

section \<open>The operations\<close>

lemma files_inv_note:
  "files_inv E F \<Longrightarrow> files_inv E (note_local g at F)" "files_inv E F \<Longrightarrow> files_inv E (note_wanted g F)"
  "files_inv E F \<Longrightarrow> files_inv E (news_told g F)" "files_inv E F \<Longrightarrow> files_inv E (wanted_again g F)"
  by (simp_all add: note_local_def note_wanted_def news_told_def wanted_again_def files_inv_upsert)

lemma files_inv_record:
  assumes "files_inv E (fst s)" "path_ok (fl_path row)"
  shows "files_inv E (fst (snd (files_record g row replace s)))"
proof -
  have w: "tx_ok (files_inv E) (tx_bind (write_row g row (fl_have row)) (\<lambda>_.
      tx_bind (tx_update (note_local g (fl_added_at row))) (\<lambda>_. tx_return out))) (\<lambda>_. True)" for out
    by (rule tx_ok_bind [OF tx_ok_write_row [OF assms(2)]], rule tx_ok_bind [OF tx_ok_update])
      (simp_all add: files_inv_note tx_ok_return)
  show ?thesis
    unfolding files_record_def
    by (rule transaction_keeps [OF tx_ok_bind [OF tx_ok_get [where Q = "\<lambda>_. True"]]], simp)
      (auto simp: Let_def assms(1) w intro!: tx_ok_if tx_ok_return tx_ok_fail split: option.split)
qed

lemma conflict_valid: "path_ok p \<Longrightarrow> path_ok (conflict_name p hash)"
proof -
  assume p: "path_ok p"
  obtain d n st e where parts: "split_dir (path_str p) = (d, n)" "split_ext n = (st, e)" by (metis surj_pair)
  from conflict_name_cases [OF parts, of hash] obtain k where
    "conflict_name p hash = (case relpath_parse (d @ take k st @ conflict_mark hash @ e) of Inr q \<Rightarrow> q | Inl _ \<Rightarrow> p)"
    by metis
  with p show ?thesis by (auto dest: parse_path_ok split: sum.splits)
qed

lemma tx_ok_displace:
  assumes "\<And>l. displaced = Some l \<Longrightarrow> path_ok (fl_path l)"
  shows "tx_ok (files_inv E) (merge_displace root dir g displaced outcome) (\<lambda>_. True)"
proof (cases displaced)
  case None
  then show ?thesis by (simp add: merge_displace_def tx_ok_return)
next
  case (Some l)
  then have ok: "path_ok (conflict_name (fl_path l) (fl_hash l))" using assms by (simp add: conflict_valid)
  have "tx_ok (files_inv E) (if fl_have l then move_bytes root dir (fl_path l) q else tx_return False) (\<lambda>_. True)" for q
    by (simp add: tx_ok_move_bytes tx_ok_return)
  then show ?thesis unfolding merge_displace_def Some option.case Let_def
    by (rule tx_ok_bind) (rule tx_ok_bind [OF tx_ok_write_row], simp_all add: ok tx_ok_return)
qed

lemma tx_ok_store:
  assumes "path_ok (fl_path settled)"
  shows "tx_ok (files_inv E) (merge_store g local_row settled outcome) (\<lambda>_. True)"
  unfolding merge_store_def Let_def
  by (intro tx_ok_if tx_ok_return TrueI tx_ok_bind [OF tx_ok_write_row [OF assms]] tx_ok_update)
    (simp add: files_inv_note)

lemma tx_ok_tombstone: "tx_ok (files_inv E) (tombstone_tx g p at) (\<lambda>_. True)"
proof (rule tx_okI)
  fix s s' u
  assume inv: "files_inv E (fst s)" and m: "tombstone_tx g p at s = (Inr u, s')"
  note d = files_invD [OF inv]
  let ?F1 = "snd (next_seq g (fst s))"
  have F1: "om_inv (f_rows ?F1)" "f_roots ?F1 = f_roots (fst s)" "f_sync ?F1 = f_sync (fst s)"
    "\<And>h p. read_row ?F1 h p = read_row (fst s) h p" using d(2) by (simp_all add: next_seq_facts(2) [OF d(4)])
  from m have s': "fst s' = tombstone_at g p at (Suc (seq_in (fst s) g)) ?F1" and seq: "Suc (seq_in (fst s) g) \<le> I64_MAX"
    by (auto simp: tombstone_tx_def case_prod_unfold Let_def next_seq_facts(1) [OF d(4)] split: if_splits)
  have "files_inv E (fst s')"
  proof (rule files_inv_step [OF inv refl refl, where q = p])
    show "f_state (fst s') = f_state ?F1" "f_roots (fst s') = f_roots (fst s)" "f_sync (fst s') = f_sync (fst s)"
      "om_inv (f_rows (fst s'))" using F1 by (simp_all add: s')
    show "read_row (fst s') h q = read_row (fst s) h q" if "(h, q) \<noteq> (g, p)" for h q
      using that F1 by (auto simp: s')
    show "fl_path r = p \<and> path_ok p \<and> fl_seen_seq r = Suc (seq_in (fst s) g)
        \<and> Suc (seq_in (fst s) g) \<le> I64_MAX \<and> unat (fl_size r) \<le> I64_MAX"
      if "read_row (fst s') g p = Some r" for r
    proof -
      from that F1 obtain r0 where "read_row (fst s) g p = Some r0"
        "r = r0\<lparr>fl_removed_at := Some at, fl_have := False, fl_seen_seq := Suc (seq_in (fst s) g)\<rparr>" by (auto simp: s')
      with d(6) [of g p r0] seq show ?thesis by (simp add: row_ok_def)
    qed
  qed
  then show "files_inv E (fst s') \<and> True" by simp
qed

lemma read_twin_row: "files_inv E F \<Longrightarrow> read_twin F g row = Some t \<Longrightarrow>
    read_row F g (fl_path t) = Some t \<and> fl_hash t = fl_hash row \<and> fl_path t \<noteq> fl_path row \<and> \<not> is_removed t \<and> path_ok (fl_path t)"
proof -
  assume inv: "files_inv E F" and t: "read_twin F g row = Some t"
  note d = files_invD [OF inv]
  let ?P = "\<lambda>r. fl_hash r = fl_hash row \<and> fl_path r \<noteq> fl_path row \<and> \<not> is_removed r"
  from t have "t \<in> set (oldest_first (filter ?P (rows_in F g)))" by (auto simp: read_twin_def split: list.splits)
  then have "t \<in> set (rows_in F g)" "?P t" by (simp_all add: oldest_first_def)
  then obtain p where "read_row F g p = Some t" using d(2) by (auto simp: rows_in_iff)
  with d(6) [OF this] \<open>?P t\<close> show ?thesis by (simp add: row_ok_def)
qed

lemma tx_ok_drop:
  assumes "path_ok (fl_path keep)"
  shows "tx_ok (files_inv E) (merge_drop root dir g keep gone) (\<lambda>_. True)"
proof -
  have move: "tx_ok (files_inv E)
      (if a then tx_bind (move_bytes root dir p q) (\<lambda>moved. if moved then tx_bind (write_row g keep True) (\<lambda>_. tx_return ()) else tx_return ())
       else if b then remove_bytes root dir p else tx_return ()) (\<lambda>_. True)" for a b p q
    by (intro tx_ok_if tx_ok_bind [OF tx_ok_move_bytes] tx_ok_bind [OF tx_ok_write_row [OF assms]] tx_ok_return TrueI tx_ok_remove_bytes)
  show ?thesis
    unfolding merge_drop_def
    by (rule tx_ok_bind [OF tx_ok_get [where Q = "\<lambda>_. True"]], rule TrueI,
        rule tx_ok_bind [OF tx_ok_get [where Q = "\<lambda>_. True"]], rule TrueI,
        rule tx_ok_bind [OF move], rule tx_ok_bind [OF tx_ok_tombstone], rule tx_ok_return, rule TrueI)
qed

lemma tx_ok_twin:
  assumes "path_ok (fl_path settled)"
  shows "tx_ok (files_inv E) (merge_twin root dir g settled outcome) (\<lambda>_. True)"
proof -
  have "tx_ok (files_inv E) (case found of None \<Rightarrow> tx_return outcome
        | Some twin \<Rightarrow> if wins_hash settled twin then merge_drop root dir g settled twin
            else merge_drop root dir g twin settled) (\<lambda>_. True)"
    if "\<forall>t. found = Some t \<longrightarrow> path_ok (fl_path t)" for found
    using that assms by (cases found) (simp_all add: tx_ok_return tx_ok_drop)
  moreover have "tx_ok (files_inv E) (tx_get (\<lambda>F. read_twin F g settled)) (\<lambda>found. \<forall>t. found = Some t \<longrightarrow> path_ok (fl_path t))"
    by (rule tx_ok_get) (use read_twin_row in blast)
  ultimately show ?thesis unfolding merge_twin_def by (intro tx_ok_if tx_ok_return TrueI tx_ok_bind)
qed

lemma merge_settle_paths:
  assumes "merge_settle incoming local_row = Some (settled, same, displaced)" "path_ok (fl_path incoming)"
    and "\<And>l. local_row = Some l \<Longrightarrow> path_ok (fl_path l)"
  shows "path_ok (fl_path settled)" "displaced = Some l \<Longrightarrow> path_ok (fl_path l)"
  using assms by (auto simp: merge_settle_def Let_def conflict_valid split: option.splits if_splits)

lemma files_inv_merge:
  assumes inv: "files_inv E (fst s)" and p: "path_ok (fl_path incoming)"
  shows "files_inv E (fst (snd (files_merge root g incoming dir s)))"
proof -
  have get: "tx_ok (files_inv E) (tx_get (\<lambda>F. read_row F g (fl_path incoming))) (\<lambda>l. \<forall>r. l = Some r \<longrightarrow> path_ok (fl_path r))"
    by (rule tx_ok_get) (use files_invD(6) in \<open>fastforce simp: row_ok_def\<close>)
  have "tx_ok (files_inv E) (case merge_settle incoming l of None \<Rightarrow> tx_return MRejected
      | Some (settled, same, displaced) \<Rightarrow>
          tx_bind (merge_displace root dir g displaced (if same then MUnchanged else MApplied)) (\<lambda>outcome.
          tx_bind (merge_store g l settled outcome) (\<lambda>_. merge_twin root dir g settled outcome))) (\<lambda>_. True)"
    if l: "\<forall>r. l = Some r \<longrightarrow> path_ok (fl_path r)" for l
  proof (cases "merge_settle incoming l")
    case None
    then show ?thesis by (simp add: tx_ok_return)
  next
    case (Some x)
    obtain settled same displaced where x: "x = (settled, same, displaced)" by (cases x)
    from merge_settle_paths [OF Some [unfolded x] p] l have ok: "path_ok (fl_path settled)"
      "\<And>d. displaced = Some d \<Longrightarrow> path_ok (fl_path d)" by blast+
    show ?thesis unfolding Some x option.case prod.case
      by (rule tx_ok_bind [OF tx_ok_displace [OF ok(2)]], assumption)
        (rule tx_ok_bind [OF tx_ok_store [OF ok(1)] tx_ok_twin [OF ok(1)]])
  qed
  then show ?thesis
    unfolding files_merge_def by (intro transaction_keeps [where P = "files_inv E"] inv tx_ok_bind [OF get])
qed

lemma files_inv_remove:
  assumes inv: "files_inv E F"
  shows "files_inv E (snd (files_remove g p at F))"
proof -
  note d = files_invD [OF inv]
  let ?F1 = "snd (next_seq g F)"
  have F1: "om_inv (f_rows ?F1)" "f_roots ?F1 = f_roots F" "f_sync ?F1 = f_sync F"
    "\<And>h p. read_row ?F1 h p = read_row F h p" using d(2) by (simp_all add: next_seq_facts(2) [OF d(4)])
  have del: "files_inv E (delete_row g p ?F1)"
    by (rule files_inv_step [OF inv refl refl, where q = p]) (use F1 in \<open>auto\<close>)
  have tomb: "files_inv E (tombstone_at g p at n F')" if "next_seq g F = (n, F')" "n \<le> I64_MAX" for n F'
    using tx_okD [OF tx_ok_tombstone [of E g p at], where s = "(F, x)" for x] inv that
    by (simp add: tombstone_tx_def not_less [symmetric])
  show ?thesis
    by (auto simp: files_remove_def inv del tomb files_inv_note not_less case_prod_unfold Let_def split: option.split)
qed

lemma files_inv_sync: "files_inv E F \<Longrightarrow> files_inv E (set_cursor g p c F)"
proof -
  assume "files_inv E F"
  note d = files_invD [OF this]
  let ?F = "set_cursor g p c F"
  have same: "f_rows ?F = f_rows F" "f_roots ?F = f_roots F" "f_state ?F = f_state F" by (simp_all add: set_cursor_def)
  then have eq: "read_row ?F = read_row F" "seq_in ?F = seq_in F" "state_of ?F = state_of F" "rows_in ?F = rows_in F"
    by (auto simp: fun_eq_iff read_row_def seq_in_def state_of_def rows_in_def)
  have "om_inv (f_sync ?F)" using d(3) by (simp add: set_cursor_def)
  moreover have "row_ok ?F = row_ok F" "cache_ok E ?F = cache_ok E F" by (simp_all add: fun_eq_iff row_ok_def cache_ok_def eq)
  ultimately show ?thesis using \<open>files_inv E F\<close> by (simp add: files_inv_def same eq)
qed

lemma files_inv_changes: "files_inv E F \<Longrightarrow> files_inv E (snd (changes_since g c n F))"
  by (simp add: changes_since_def Let_def files_inv_upsert)

lemma files_inv_wanted_seen: "files_inv E F \<Longrightarrow> files_inv E (wanted_seen g F)"
proof (cases "map_of (f_state F) g")
  case (Some s)
  assume "files_inv E F"
  then have "files_inv E (state_upsert g (\<lambda>s. s\<lparr>fs_wanted := 0\<rparr>) F)" by (simp add: files_inv_upsert)
  with Some show ?thesis by (simp add: wanted_seen_def state_upsert_def state_of_def)
qed (simp add: wanted_seen_def)

text \<open>The digest is that of the rows, cached or not, and answering it caches it.\<close>

lemma files_digest_fresh:
  assumes inv: "files_inv E F"
  shows "fst (files_digest E g F) = catalogue_digest E (rows_in F g)" "files_inv E (snd (files_digest E g F))"
    "rows_in (snd (files_digest E g F)) h = rows_in F h" "f_rows (snd (files_digest E g F)) = f_rows F"
    "f_roots (snd (files_digest E g F)) = f_roots F" "f_sync (snd (files_digest E g F)) = f_sync F"
    "f_me (snd (files_digest E g F)) = f_me F" "seq_in (snd (files_digest E g F)) h = seq_in F h"
    "served_seq (snd (files_digest E g F)) h = served_seq F h"
proof -
  note d = files_invD [OF inv]
  let ?fresh = "catalogue_digest E (rows_in F g)"
  define u :: "file_state \<Rightarrow> file_state" where "u = (\<lambda>s. s\<lparr>fs_digest := Some ?fresh, fs_digest_seq := seq_in F g\<rparr>)"
  let ?G = "state_upsert g u F"
  have res: "files_digest E g F = (?fresh, ?G) \<or> files_digest E g F = (?fresh, F)"
    using d(7) [of g] by (auto simp: u_def files_digest_def Let_def cache_ok_def state_of_def split: option.split)
  have state: "state_of ?G h = (if h = g then (state_of F g)\<lparr>fs_digest := Some ?fresh, fs_digest_seq := seq_in F g\<rparr> else state_of F h)" for h
    unfolding state_of_upsert [OF d(4)] by (simp add: u_def)
  have seq: "seq_in ?G h = seq_in F h" "served_seq ?G h = served_seq F h" for h
    by (simp_all add: seq_in_state served_seq_state state)
  have "row_ok ?G h p r" if "read_row F h p = Some r" for h p r using d(6) [OF that] by (simp add: row_ok_def seq)
  moreover have "cache_ok E ?G h" for h using d(7) [of h] by (cases "h = g") (simp_all add: cache_ok_def seq state)
  ultimately have G: "files_inv E ?G" using d(1-5,8) unfolding files_inv_def f_state_upsert read_upsert by auto
  from res G inv seq show "fst (files_digest E g F) = ?fresh" "files_inv E (snd (files_digest E g F))"
    "rows_in (snd (files_digest E g F)) h = rows_in F h" "f_rows (snd (files_digest E g F)) = f_rows F"
    "f_roots (snd (files_digest E g F)) = f_roots F" "f_sync (snd (files_digest E g F)) = f_sync F"
    "f_me (snd (files_digest E g F)) = f_me F" "seq_in (snd (files_digest E g F)) h = seq_in F h"
    "served_seq (snd (files_digest E g F)) h = served_seq F h" by auto
qed

lemma dir_search_free: "dir_search F base full width cand = Some dir \<Longrightarrow> \<not> dir_taken F dir"
proof (induction F base full width cand rule: dir_search.induct)
  case (1 F base full width cand)
  from 1(2) have "(if \<not> dir_taken F cand then Some cand else if length full < width then None
      else dir_search F base full (width + 4) (base @ ''-'' @ take width full)) = Some dir"
    by (simp add: dir_search.simps [of F base full width cand])
  with 1(1) show ?case by (auto split: if_splits)
qed

lemma om_put_values: "om_inv m \<Longrightarrow> map_of m k = None \<Longrightarrow> distinct (map snd m) \<Longrightarrow> v \<notin> set (map snd m) \<Longrightarrow>
    distinct (map snd (om_put k v m)) \<and> set (map snd (om_put k v m)) = insert v (set (map snd m))"
proof (induction k v m rule: om_put.induct)
  case (2 k v a b m)
  then show ?case by (auto simp: om_inv_Cons split: if_splits)
qed simp

lemma files_inv_dir_for:
  assumes inv: "files_inv E F"
  shows "files_inv E (snd (files_dir_for g name F))"
proof (cases "map_of (f_roots F) g")
  case (Some dir)
  with inv show ?thesis by (simp add: files_dir_for_def)
next
  case None
  note d = files_invD [OF inv]
  have "files_inv E (F\<lparr>f_roots := om_put g dir (f_roots F)\<rparr>)" if "\<not> dir_taken F dir" for dir
  proof -
    let ?F = "F\<lparr>f_roots := om_put g dir (f_roots F)\<rparr>"
    have eq: "read_row ?F = read_row F" "seq_in ?F = seq_in F" "state_of ?F = state_of F" "rows_in ?F = rows_in F"
      by (auto simp: fun_eq_iff read_row_def seq_in_def state_of_def rows_in_def)
    have "row_ok ?F = row_ok F" "cache_ok E ?F = cache_ok E F" by (simp_all add: fun_eq_iff row_ok_def cache_ok_def eq)
    moreover have "distinct (map snd (om_put g dir (f_roots F)))"
      using om_put_values [OF d(1) None d(5)] that by (simp add: dir_taken_def)
    ultimately show ?thesis using inv by (simp add: files_inv_def eq)
  qed
  with inv None show ?thesis using dir_search_free by (auto simp: files_dir_for_def Let_def split: option.split)
qed

end
