(* ===== verification/FileCatalogue.thy ===== *)
theory FileCatalogue
  imports FileProps
begin

text \<open>
  What a node's index promises its peers: the catalogue of a group, which maps each path to the
  content it names, when it was added and when it was removed. \<open>cat_merge\<close> says what a
  peer's row makes of a catalogue, without tables, positions, held flags or a disk; \<open>merge_refines\<close>
  shows that the code's \<open>merge\<close> is exactly that.
\<close>

record cat_entry =
  ce_hash :: string
  ce_added_at :: int
  ce_removed_at :: "int option"

type_synonym catalogue = "(relpath, cat_entry) omap"

definition entry_of :: "file_row \<Rightarrow> cat_entry" where
  "entry_of r = \<lparr>ce_hash = fl_hash r, ce_added_at = fl_added_at r, ce_removed_at = fl_removed_at r\<rparr>"

definition catalogue_of :: "files \<Rightarrow> group_id \<Rightarrow> catalogue" where
  "catalogue_of F g = map (\<lambda>r. (fl_path r, entry_of r)) (rows_in F g)"

definition ce_live :: "cat_entry \<Rightarrow> bool" where
  "ce_live e \<longleftrightarrow> ce_removed_at e = None"

definition ce_changed_at :: "cat_entry \<Rightarrow> int" where
  "ce_changed_at e = max (case ce_removed_at e of Some t \<Rightarrow> t | None \<Rightarrow> ce_added_at e) (ce_added_at e)"

definition ce_wins :: "cat_entry \<Rightarrow> cat_entry \<Rightarrow> bool" where
  "ce_wins a b \<longleftrightarrow> (ce_changed_at b, ce_hash b) < (ce_changed_at a, ce_hash a)"

text \<open>Two entries for the same content: the earlier addition and the later removal.\<close>

definition ce_join :: "cat_entry \<Rightarrow> cat_entry \<Rightarrow> cat_entry" where
  "ce_join a b = \<lparr>ce_hash = ce_hash b, ce_added_at = min (ce_added_at a) (ce_added_at b),
     ce_removed_at = merge_removed (ce_removed_at a) (ce_removed_at b)\<rparr>"

text \<open>The live entry with the same content at another path, the oldest and then the first.\<close>

definition cat_twin :: "catalogue \<Rightarrow> relpath \<Rightarrow> string \<Rightarrow> (relpath \<times> cat_entry) option" where
  "cat_twin c p h =
     (case sort_key (\<lambda>(q, e). (ce_added_at e, q)) (filter (\<lambda>(q, e). ce_hash e = h \<and> q \<noteq> p \<and> ce_live e) c) of
        [] \<Rightarrow> None | x # _ \<Rightarrow> Some x)"

text \<open>One copy of any content: of two live entries for it the later one is removed.\<close>

definition cat_dedup :: "relpath \<Rightarrow> cat_entry \<Rightarrow> merged \<times> catalogue \<Rightarrow> merged \<times> catalogue" where
  "cat_dedup p e st =
     (case st of (outcome, c) \<Rightarrow>
        if \<not> ce_live e then (outcome, c)
        else case cat_twin c p (ce_hash e) of
               None \<Rightarrow> (outcome, c)
             | Some (q, f) \<Rightarrow>
                 let t = max (ce_added_at e) (ce_added_at f) in
                 if (ce_added_at e, p) < (ce_added_at f, q)
                 then (MDeduplicated p q, om_put q (f\<lparr>ce_removed_at := Some t\<rparr>) c)
                 else (MDeduplicated q p,
                   (case map_of c p of Some e' \<Rightarrow> om_put p (e'\<lparr>ce_removed_at := Some t\<rparr>) c | None \<Rightarrow> c)))"

definition cat_merge :: "relpath \<Rightarrow> cat_entry \<Rightarrow> catalogue \<Rightarrow> merged \<times> catalogue" where
  "cat_merge p e c =
     (case map_of c p of
        None \<Rightarrow> cat_dedup p e (MApplied, om_put p e c)
      | Some l \<Rightarrow>
          if ce_hash l = ce_hash e then
            let j = ce_join l e in
            if ce_added_at j = ce_added_at l \<and> ce_removed_at j = ce_removed_at l then cat_dedup p j (MUnchanged, c)
            else cat_dedup p j (MApplied, om_put p j c)
          else if ce_live l \<and> ce_live e then
            if ce_wins e l then
              let moved = conflict_name p (ce_hash l)
              in cat_dedup p e (MConflicted moved, om_put p e (om_put moved l c))
            else
              let q = conflict_name p (ce_hash e) in cat_dedup q e (MApplied, om_put q e c)
          else if ce_wins e l then cat_dedup p e (MApplied, om_put p e c)
          else (MRejected, c))"

section \<open>The catalogue of the tables\<close>

lemma entry_of_sel [simp]:
  "ce_hash (entry_of r) = fl_hash r" "ce_added_at (entry_of r) = fl_added_at r" "ce_removed_at (entry_of r) = fl_removed_at r"
  by (simp_all add: entry_of_def)

lemma ce_live_entry [simp]: "ce_live (entry_of r) \<longleftrightarrow> \<not> is_removed r"
  by (simp add: ce_live_def is_removed_def)

lemma ce_wins_entry [simp]: "ce_wins (entry_of a) (entry_of b) \<longleftrightarrow> wins_path a b"
  by (cases "fl_removed_at a"; cases "fl_removed_at b") (simp_all add: ce_wins_def wins_path_def ce_changed_at_def changed_at_def)

lemma entry_of_write [simp]: "entry_of (r\<lparr>fl_have := h, fl_seen_seq := n\<rparr>) = entry_of r"
  "entry_of (r\<lparr>fl_path := p\<rparr>) = entry_of r"
  by (simp_all add: entry_of_def)

lemma entry_of_removed [simp]: "entry_of (r\<lparr>fl_removed_at := x\<rparr>) = (entry_of r)\<lparr>ce_removed_at := x\<rparr>"
  by (simp add: entry_of_def)

lemma rows_sorted: "om_inv (f_rows F) \<Longrightarrow> (\<And>g p r. read_row F g p = Some r \<Longrightarrow> fl_path r = p) \<Longrightarrow>
    sorted_wrt (<) (map fl_path (rows_in F g))"
proof -
  assume om: "om_inv (f_rows F)" and path: "\<And>g p r. read_row F g p = Some r \<Longrightarrow> fl_path r = p"
  let ?m = "filter (\<lambda>((h, p), r). h = g) (f_rows F)"
  have "om_inv ?m" using om by (rule om_inv_filter)
  then have sorted: "sorted_wrt (\<lambda>a b. fst a < fst b) ?m" by (simp add: om_inv_def sorted_wrt_map)
  have keys: "fst (fst x) = g \<and> fl_path (snd x) = snd (fst x)" if "x \<in> set ?m" for x
    using that path om by (auto simp: om_in_set_iff read_row_def)
  have "sorted_wrt (\<lambda>a b. fl_path (snd a) < fl_path (snd b)) ?m"
  proof (rule sorted_wrt_mono_rel [OF _ sorted])
    fix x y assume "x \<in> set ?m" "y \<in> set ?m" "fst x < fst y"
    with keys [of x] keys [of y] show "fl_path (snd x) < fl_path (snd y)" by (auto simp: less_prod_def)
  qed
  then show ?thesis by (simp add: rows_in_def sorted_wrt_map)
qed

lemma catalogue_inv: "files_inv E F \<Longrightarrow> om_inv (catalogue_of F g)"
proof -
  assume inv: "files_inv E F"
  note d = files_invD [OF inv]
  have "sorted_wrt (<) (map fl_path (rows_in F g))"
    by (rule rows_sorted [OF d(2)]) (use d(6) in \<open>simp add: row_ok_def\<close>)
  then show ?thesis by (simp add: om_inv_def catalogue_of_def comp_def)
qed

lemma catalogue_get:
  assumes inv: "files_inv E F"
  shows "map_of (catalogue_of F g) p = map_option entry_of (read_row F g p)"
proof -
  note d = files_invD [OF inv]
  have om: "om_inv (catalogue_of F g)" using inv by (rule catalogue_inv)
  show ?thesis
  proof (cases "read_row F g p")
    case None
    have "p \<notin> fl_path ` set (rows_in F g)"
    proof
      assume "p \<in> fl_path ` set (rows_in F g)"
      then obtain r q where "fl_path r = p" "read_row F g q = Some r" using rows_in_iff [OF d(2), of _ g] by blast
      with d(6) [of g q r] None show False by (simp add: row_ok_def)
    qed
    then have "p \<notin> fst ` set (catalogue_of F g)" by (simp add: catalogue_of_def image_image)
    with None show ?thesis by (simp add: map_of_eq_None_iff)
  next
    case (Some r)
    then have "r \<in> set (rows_in F g)" using rows_in_iff [OF d(2)] by blast
    moreover have "fl_path r = p" using d(6) [OF Some] by (simp add: row_ok_def)
    ultimately have "(p, entry_of r) \<in> set (catalogue_of F g)" by (force simp: catalogue_of_def)
    with Some om_in_set_iff [OF om] show ?thesis by simp
  qed
qed

lemma catalogue_put:
  assumes "files_inv E F" "files_inv E F'"
    and "\<And>q. read_row F' g q = (if q = p then Some r else read_row F g q)"
  shows "catalogue_of F' g = om_put p (entry_of r) (catalogue_of F g)"
  using catalogue_inv [OF assms(1)] catalogue_inv [OF assms(2)]
  by (intro om_ext) (auto simp: fun_eq_iff om_simps catalogue_get [OF assms(1)] catalogue_get [OF assms(2)] assms(3))

lemma catalogue_same: "f_rows F' = f_rows F \<Longrightarrow> catalogue_of F' g = catalogue_of F g"
  by (simp add: catalogue_of_def rows_in_def)

lemma insort_key_map: "insort_key f (g x) (map g xs) = map g (insort_key (\<lambda>x. f (g x)) x xs)"
  by (induction xs) simp_all

lemma sort_key_map: "sort_key f (map g xs) = map g (sort_key (\<lambda>x. f (g x)) xs)"
  by (induction xs) (simp_all add: insort_key_map)

lemma cat_twin_read:
  "cat_twin (catalogue_of F g) (fl_path row) (fl_hash row) = map_option (\<lambda>t. (fl_path t, entry_of t)) (read_twin F g row)"
proof -
  let ?P = "\<lambda>r. fl_hash r = fl_hash row \<and> fl_path r \<noteq> fl_path row \<and> \<not> is_removed r"
  have "filter (\<lambda>(q, e). ce_hash e = fl_hash row \<and> q \<noteq> fl_path row \<and> ce_live e) (catalogue_of F g)
      = map (\<lambda>r. (fl_path r, entry_of r)) (filter ?P (rows_in F g))"
    by (simp add: catalogue_of_def filter_map comp_def)
  then show ?thesis
    by (simp add: cat_twin_def read_twin_def oldest_first_def sort_key_map split: list.split)
qed

section \<open>The steps of a merge\<close>

lemma tx_bind_Inr: "tx_bind m k s = (Inr x, s') \<longleftrightarrow> (\<exists>y t. m s = (Inr y, t) \<and> k y t = (Inr x, s'))"
  by (auto simp: tx_bind_def split: prod.splits sum.splits)

lemma tx_get_Inr: "tx_get q s = (Inr x, s') \<longleftrightarrow> s' = s \<and> x = q (fst s)"
  by (auto simp: tx_get_def)

lemma tx_return_Inr: "tx_return y s = (Inr x, s') \<longleftrightarrow> s' = s \<and> x = y"
  by (auto simp: tx_return_def)

lemma move_bytes_files: "move_bytes root dir p q s = (Inr b, s') \<Longrightarrow> fst s' = fst s"
  by (auto simp: move_bytes_def split: prod.splits sum.splits io_error.splits)

lemma remove_bytes_files: "remove_bytes root dir p s = (Inr b, s') \<Longrightarrow> fst s' = fst s"
  by (auto simp: remove_bytes_def split: prod.splits sum.splits)

lemma write_row_reads:
  assumes inv: "files_inv E (fst s)" and w: "write_row g row h s = (Inr n, s')"
  shows "snd s' = snd s" "n = Suc (seq_in (fst s) g)"
    "read_row (fst s') k q = (if k = g \<and> q = fl_path row then Some (row\<lparr>fl_have := h, fl_seen_seq := n\<rparr>) else read_row (fst s) k q)"
proof -
  note d = files_invD [OF inv]
  have n: "n = Suc (seq_in (fst s) g)" and s': "snd s' = snd s"
    "fst s' = put_row g (row\<lparr>fl_have := h, fl_seen_seq := n\<rparr>) (snd (next_seq g (fst s)))"
    using w by (auto simp: write_row_def case_prod_unfold Let_def next_seq_facts(1) [OF d(4)] split: if_splits)
  then show "snd s' = snd s" "n = Suc (seq_in (fst s) g)" by simp_all
  show "read_row (fst s') k q = (if k = g \<and> q = fl_path row then Some (row\<lparr>fl_have := h, fl_seen_seq := n\<rparr>) else read_row (fst s) k q)"
    using d(2) by (auto simp: s' next_seq_facts(2) [OF d(4)])
qed

lemma write_row_cat:
  assumes "files_inv E (fst s)" "path_ok (fl_path row)" "write_row g row h s = (Inr n, s')"
  shows "files_inv E (fst s')" "catalogue_of (fst s') g = om_put (fl_path row) (entry_of row) (catalogue_of (fst s) g)"
proof -
  show inv': "files_inv E (fst s')" using tx_okD [OF tx_ok_write_row [OF assms(2)] assms(1,3)] by blast
  from catalogue_put [OF assms(1) inv', of g "fl_path row" "row\<lparr>fl_have := h, fl_seen_seq := n\<rparr>"]
    write_row_reads(3) [OF assms(1,3)]
  show "catalogue_of (fst s') g = om_put (fl_path row) (entry_of row) (catalogue_of (fst s) g)" by simp
qed

lemma tombstone_tx_cat:
  assumes "files_inv E (fst s)" "tombstone_tx g p t s = (Inr u, s')"
  shows "files_inv E (fst s')" "snd s' = snd s"
    "catalogue_of (fst s') g = (case map_of (catalogue_of (fst s) g) p of
        Some e \<Rightarrow> om_put p (e\<lparr>ce_removed_at := Some t\<rparr>) (catalogue_of (fst s) g) | None \<Rightarrow> catalogue_of (fst s) g)"
proof -
  note d = files_invD [OF assms(1)]
  show inv': "files_inv E (fst s')" using tx_okD [OF tx_ok_tombstone assms] by blast
  have s': "fst s' = tombstone_at g p t (Suc (seq_in (fst s) g)) (snd (next_seq g (fst s)))" "snd s' = snd s"
    using assms(2) by (auto simp: tombstone_tx_def case_prod_unfold Let_def next_seq_facts(1) [OF d(4)] split: if_splits)
  show "snd s' = snd s" by (rule s'(2))
  let ?up = "\<lambda>r. r\<lparr>fl_removed_at := Some t, fl_have := False, fl_seen_seq := Suc (seq_in (fst s) g)\<rparr>"
  have read: "read_row (fst s') g q = (if q = p then map_option ?up (read_row (fst s) g p) else read_row (fst s) g q)" for q
    using d(2) by (simp add: s' next_seq_facts(2) [OF d(4)])
  show "catalogue_of (fst s') g = (case map_of (catalogue_of (fst s) g) p of
        Some e \<Rightarrow> om_put p (e\<lparr>ce_removed_at := Some t\<rparr>) (catalogue_of (fst s) g) | None \<Rightarrow> catalogue_of (fst s) g)"
  proof (cases "read_row (fst s) g p")
    case None
    then have "read_row (fst s') g q = read_row (fst s) g q" for q using read by simp
    then have "map_of (catalogue_of (fst s') g) = map_of (catalogue_of (fst s) g)"
      by (simp add: fun_eq_iff catalogue_get [OF assms(1)] catalogue_get [OF inv'])
    with None show ?thesis
      using om_ext [OF catalogue_inv [OF inv', of g] catalogue_inv [OF assms(1), of g]] by (simp add: catalogue_get [OF assms(1)])
  next
    case (Some r)
    have "read_row (fst s') g q = (if q = p then Some (?up r) else read_row (fst s) g q)" for q
      using read Some by simp
    then show ?thesis using catalogue_put [OF assms(1) inv', of g p "?up r"] Some
      by (simp add: catalogue_get [OF assms(1)])
  qed
qed

lemma displace_cat:
  assumes inv: "files_inv E (fst s)" and ok: "\<And>l. displaced = Some l \<Longrightarrow> path_ok (fl_path l)"
    and m: "merge_displace root dir g displaced outcome s = (Inr out, s')"
  shows "files_inv E (fst s')"
    "(out, catalogue_of (fst s') g) = (case displaced of None \<Rightarrow> (outcome, catalogue_of (fst s) g)
      | Some l \<Rightarrow> let moved = conflict_name (fl_path l) (fl_hash l)
          in (MConflicted moved, om_put moved (entry_of l) (catalogue_of (fst s) g)))"
proof -
  show "files_inv E (fst s')" using tx_okD [OF tx_ok_displace [OF ok] inv m] by blast
  show "(out, catalogue_of (fst s') g) = (case displaced of None \<Rightarrow> (outcome, catalogue_of (fst s) g)
      | Some l \<Rightarrow> let moved = conflict_name (fl_path l) (fl_hash l)
          in (MConflicted moved, om_put moved (entry_of l) (catalogue_of (fst s) g)))"
  proof (cases displaced)
    case None
    with m show ?thesis by (simp add: merge_displace_def tx_return_Inr)
  next
    case (Some l)
    let ?moved = "conflict_name (fl_path l) (fl_hash l)"
    from m Some obtain b s1 n s2 where 1: "(if fl_have l then move_bytes root dir (fl_path l) ?moved else tx_return False) s = (Inr b, s1)"
      and 2: "write_row g (l\<lparr>fl_path := ?moved\<rparr>) b s1 = (Inr n, s2)" and 3: "s' = s2" "out = MConflicted ?moved"
      by (auto simp: merge_displace_def Let_def tx_bind_Inr tx_return_Inr)
    from 1 have s1: "fst s1 = fst s" by (auto simp: tx_return_Inr dest: move_bytes_files split: if_splits)
    from write_row_cat(2) [OF _ _ 2, of E] s1 inv ok [OF Some] 3 Some show ?thesis by (simp add: conflict_valid Let_def)
  qed
qed

lemma store_cat:
  assumes inv: "files_inv E (fst s)" and ok: "path_ok (fl_path settled)"
    and m: "merge_store g local_row settled outcome s = (Inr u, s')"
  shows "files_inv E (fst s')"
    "catalogue_of (fst s') g = (if outcome = MUnchanged then catalogue_of (fst s) g
      else om_put (fl_path settled) (entry_of settled) (catalogue_of (fst s) g))"
proof -
  show "files_inv E (fst s')" using tx_okD [OF tx_ok_store [OF ok] inv m] by blast
  show "catalogue_of (fst s') g = (if outcome = MUnchanged then catalogue_of (fst s) g
      else om_put (fl_path settled) (entry_of settled) (catalogue_of (fst s) g))"
  proof (cases "outcome = MUnchanged")
    case True
    with m show ?thesis by (simp add: merge_store_def tx_return_Inr)
  next
    case False
    with m obtain h n s1 where 1: "write_row g settled h s = (Inr n, s1)" and 2: "f_rows (fst s') = f_rows (fst s1)"
      by (auto simp: merge_store_def Let_def tx_bind_Inr tx_return_def tx_update_def note_wanted_def split: if_splits)
    with write_row_cat(2) [OF inv ok 1] False show ?thesis by (simp add: catalogue_same [OF 2])
  qed
qed

lemma drop_cat:
  assumes inv: "files_inv E (fst s)" and ok: "path_ok (fl_path keep)"
    and kept: "map_of (catalogue_of (fst s) g) (fl_path keep) = Some (entry_of keep)"
    and m: "merge_drop root dir g keep gone s = (Inr out, s')"
  shows "out = MDeduplicated (fl_path keep) (fl_path gone)"
    "catalogue_of (fst s') g = (case map_of (catalogue_of (fst s) g) (fl_path gone) of
        Some e \<Rightarrow> om_put (fl_path gone) (e\<lparr>ce_removed_at := Some (max (fl_added_at gone) (fl_added_at keep))\<rparr>) (catalogue_of (fst s) g)
      | None \<Rightarrow> catalogue_of (fst s) g)"
proof -
  let ?bytes = "\<lambda>a b. if a \<and> \<not> b then tx_bind (move_bytes root dir (fl_path gone) (fl_path keep)) (\<lambda>moved.
            if moved then tx_bind (write_row g keep True) (\<lambda>_. tx_return ()) else tx_return ())
        else if a then remove_bytes root dir (fl_path gone) else tx_return ()"
  from m obtain a b u s1 v s2 where 1: "?bytes a b s = (Inr u, s1)"
    and 2: "tombstone_tx g (fl_path gone) (max (fl_added_at gone) (fl_added_at keep)) s1 = (Inr v, s2)"
    and 3: "s' = s2" "out = MDeduplicated (fl_path keep) (fl_path gone)"
    unfolding merge_drop_def by (auto simp only: tx_bind_Inr tx_get_Inr tx_return_Inr)
  show "out = MDeduplicated (fl_path keep) (fl_path gone)" by (rule 3(2))
  have s1: "files_inv E (fst s1) \<and> catalogue_of (fst s1) g = catalogue_of (fst s) g"
  proof -
    have same: "files_inv E (fst s1) \<and> catalogue_of (fst s1) g = catalogue_of (fst s) g" if "fst s1 = fst s"
      using that inv by simp
    consider "fst s1 = fst s" | t n where "fst t = fst s" "write_row g keep True t = (Inr n, s1)"
      using 1 by (auto simp: tx_bind_Inr tx_return_Inr dest!: move_bytes_files remove_bytes_files split: if_splits)
    then show ?thesis
    proof cases
      case 1
      then show ?thesis by (rule same)
    next
      case (2 t n)
      then have "files_inv E (fst s1)" "catalogue_of (fst s1) g = om_put (fl_path keep) (entry_of keep) (catalogue_of (fst s) g)"
        using write_row_cat [OF _ ok 2(2), of E] inv by simp_all
      then show ?thesis using om.put_same [OF catalogue_inv [OF inv] kept] by simp
    qed
  qed
  then have "files_inv E (fst s1)" "catalogue_of (fst s1) g = catalogue_of (fst s) g" by simp_all
  from tombstone_tx_cat(3) [OF this(1) 2, unfolded this(2)] 3 show "catalogue_of (fst s') g = (case map_of (catalogue_of (fst s) g) (fl_path gone) of
        Some e \<Rightarrow> om_put (fl_path gone) (e\<lparr>ce_removed_at := Some (max (fl_added_at gone) (fl_added_at keep))\<rparr>) (catalogue_of (fst s) g)
      | None \<Rightarrow> catalogue_of (fst s) g)" by simp
qed

lemma twin_cat:
  assumes inv: "files_inv E (fst s)" and ok: "path_ok (fl_path settled)"
    and kept: "map_of (catalogue_of (fst s) g) (fl_path settled) = Some (entry_of settled)"
    and m: "merge_twin root dir g settled outcome s = (Inr out, s')"
  shows "(out, catalogue_of (fst s') g) = cat_dedup (fl_path settled) (entry_of settled) (outcome, catalogue_of (fst s) g)"
proof (cases "is_removed settled")
  case True
  with m show ?thesis by (simp add: merge_twin_def tx_return_Inr cat_dedup_def)
next
  case live: False
  note twin = cat_twin_read [of "fst s" g settled]
  show ?thesis
  proof (cases "read_twin (fst s) g settled")
    case None
    with m live twin show ?thesis by (simp add: merge_twin_def tx_bind_Inr tx_get_Inr tx_return_Inr cat_dedup_def)
  next
    case (Some t)
    note t = read_twin_row [OF inv Some]
    have tc: "map_of (catalogue_of (fst s) g) (fl_path t) = Some (entry_of t)" using t by (simp add: catalogue_get [OF inv])
    have wh: "wins_hash settled t \<longleftrightarrow> (fl_added_at settled, fl_path settled) < (fl_added_at t, fl_path t)"
      by (simp add: wins_hash_def)
    show ?thesis
    proof (cases "wins_hash settled t")
      case True
      with m live Some have "merge_drop root dir g settled t s = (Inr out, s')"
        by (simp add: merge_twin_def tx_bind_Inr tx_get_Inr)
      from drop_cat [OF inv ok kept this] True live twin Some tc show ?thesis
        by (simp add: cat_dedup_def wh max.commute)
    next
      case False
      with m live Some have "merge_drop root dir g t settled s = (Inr out, s')"
        by (simp add: merge_twin_def tx_bind_Inr tx_get_Inr)
      from drop_cat [OF inv _ tc this] t False live twin Some kept show ?thesis
        by (simp add: cat_dedup_def wh Let_def)
    qed
  qed
qed

text \<open>The code's \<open>merge\<close> is the catalogue's.\<close>

lemma merge_cat:
  assumes inv: "files_inv E (fst s)" and p: "path_ok (fl_path incoming)"
    and m: "files_merge root g incoming dir s = (Inr out, s')"
  shows "(out, catalogue_of (fst s') g) = cat_merge (fl_path incoming) (entry_of incoming) (catalogue_of (fst s) g)"
proof -
  let ?l = "read_row (fst s) g (fl_path incoming)"
  let ?c = "catalogue_of (fst s) g"
  have lc: "map_of ?c (fl_path incoming) = map_option entry_of ?l" by (rule catalogue_get [OF inv])
  have lp: "fl_path l = fl_path incoming \<and> path_ok (fl_path l)" if "?l = Some l" for l
    using files_invD(6) [OF inv that] by (simp add: row_ok_def)
  from m have body: "(case merge_settle incoming ?l of None \<Rightarrow> tx_return MRejected
        | Some (settled, same, displaced) \<Rightarrow>
            tx_bind (merge_displace root dir g displaced (if same then MUnchanged else MApplied)) (\<lambda>outcome.
            tx_bind (merge_store g ?l settled outcome) (\<lambda>_.
              merge_twin root dir g settled outcome))) s = (Inr out, s')"
    by (auto simp: files_merge_def transaction_def tx_bind_def tx_get_def split: prod.splits sum.splits)
  show ?thesis
  proof (cases "merge_settle incoming ?l")
    case None
    then obtain l where "?l = Some l" "fl_hash l \<noteq> fl_hash incoming" "\<not> (\<not> is_removed l \<and> \<not> is_removed incoming)" "\<not> wins_path incoming l"
      by (auto simp: merge_settle_def Let_def split: option.splits if_splits)
    with body None lc show ?thesis by (auto simp: tx_return_Inr cat_merge_def)
  next
    case (Some x)
    obtain settled same displaced where x: "x = (settled, same, displaced)" by (cases x)
    note st = Some [unfolded x]
    from body st obtain o1 s1 u s2 where
      1: "merge_displace root dir g displaced (if same then MUnchanged else MApplied) s = (Inr o1, s1)"
      and 2: "merge_store g ?l settled o1 s1 = (Inr u, s2)" and 3: "merge_twin root dir g settled o1 s2 = (Inr out, s')"
      by (auto simp: tx_bind_Inr)
    have ok: "path_ok (fl_path settled)" "\<And>d. displaced = Some d \<Longrightarrow> path_ok (fl_path d)"
      using merge_settle_paths [OF st p] lp by blast+
    note d = displace_cat [OF inv ok(2) 1]
    note w = store_cat [OF d(1) ok(1) 2]
    have final: "(out, catalogue_of (fst s') g) = cat_dedup (fl_path settled) (entry_of settled) (o1, catalogue_of (fst s2) g)"
      if "map_of (catalogue_of (fst s2) g) (fl_path settled) = Some (entry_of settled)"
      by (rule twin_cat [OF w(1) ok(1) that 3])
    have put: "map_of (om_put (fl_path settled) (entry_of settled) (catalogue_of (fst s1) g)) (fl_path settled) = Some (entry_of settled)"
      using catalogue_inv [OF d(1)] by (simp add: om_simps)
    show ?thesis
    proof (cases ?l)
      case None
      with st have x: "settled = incoming" "\<not> same" "displaced = None" by (simp_all add: merge_settle_def)
      with d(2) have "o1 = MApplied" "catalogue_of (fst s1) g = ?c" by simp_all
      with final put w(2) x None lc show ?thesis by (simp add: cat_merge_def)
    next
      case (Some l)
      note lpl = lp [OF Some]
      have lcl: "map_of ?c (fl_path incoming) = Some (entry_of l)" using lc Some by simp
      show ?thesis
      proof (cases "fl_hash l = fl_hash incoming")
        case True
        let ?j = "ce_join (entry_of l) (entry_of incoming)"
        have x: "entry_of settled = ?j" "fl_path settled = fl_path incoming" "displaced = None"
          "same \<longleftrightarrow> ce_added_at ?j = ce_added_at (entry_of l) \<and> ce_removed_at ?j = ce_removed_at (entry_of l)"
          using st Some True by (auto simp: merge_settle_def Let_def ce_join_def entry_of_def)
        with d(2) have o1: "o1 = (if same then MUnchanged else MApplied)" and c1: "catalogue_of (fst s1) g = ?c" by simp_all
        show ?thesis
        proof (cases same)
          case True
          with x(4) have "?j = entry_of l" using \<open>fl_hash l = fl_hash incoming\<close> by (simp add: ce_join_def entry_of_def)
          with final o1 c1 w(2) True x lcl \<open>fl_hash l = fl_hash incoming\<close> show ?thesis
            by (simp add: cat_merge_def Let_def)
        next
          case False
          with final put o1 c1 w(2) x lcl \<open>fl_hash l = fl_hash incoming\<close> show ?thesis
            by (auto simp: cat_merge_def Let_def)
        qed
      next
        case different: False
        show ?thesis
        proof (cases "\<not> is_removed l \<and> \<not> is_removed incoming \<and> wins_path incoming l")
          case True
          with st Some different have x: "settled = incoming" "displaced = Some l" by (simp_all add: merge_settle_def)
          with d(2) lpl have "o1 = MConflicted (conflict_name (fl_path incoming) (fl_hash l))"
            "catalogue_of (fst s1) g = om_put (conflict_name (fl_path incoming) (fl_hash l)) (entry_of l) ?c"
            by (simp_all add: Let_def)
          with final put w(2) x lcl different True show ?thesis by (simp add: cat_merge_def Let_def)
        next
          case keeps: False
          show ?thesis
          proof (cases "\<not> is_removed l \<and> \<not> is_removed incoming")
            case True
            with st Some different keeps have x: "entry_of settled = entry_of incoming"
              "fl_path settled = conflict_name (fl_path incoming) (fl_hash incoming)" "displaced = None" "\<not> same"
              by (auto simp: merge_settle_def)
            with d(2) have "o1 = MApplied" "catalogue_of (fst s1) g = ?c" by simp_all
            with final put w(2) x lcl different True keeps show ?thesis by (simp add: cat_merge_def Let_def)
          next
            case False
            with st Some different have x: "settled = incoming" "displaced = None" "\<not> same" "wins_path incoming l"
              by (auto simp: merge_settle_def split: if_splits)
            with d(2) have "o1 = MApplied" "catalogue_of (fst s1) g = ?c" by simp_all
            with final put w(2) x lcl different False show ?thesis by (auto simp: cat_merge_def Let_def)
          qed
        qed
      qed
    qed
  qed
qed

end
