(* ===== verification/FileTheorems.thy ===== *)
theory FileTheorems
  imports FileCatalogue
begin

text \<open>
  The properties of the file index: it stays consistent, a merge is the catalogue's merge, what two
  nodes make of each other's rows, what survives, what a removal means, and directories.
\<close>

section \<open>Consistency\<close>

text \<open>The calls on the index, in any order. Rows come with the valid paths their callers parsed.\<close>

inductive files_reach :: "env \<Rightarrow> peer_id \<Rightarrow> files \<Rightarrow> bool" for E me where
  new: "files_reach E me (files_new me)"
| recorded: "files_reach E me F \<Longrightarrow> path_ok (fl_path row) \<Longrightarrow> files_reach E me (fst (snd (files_record g row replace (F, disk))))"
| merge: "files_reach E me F \<Longrightarrow> path_ok (fl_path row) \<Longrightarrow> files_reach E me (fst (snd (files_merge root g row dir (F, disk))))"
| remove: "files_reach E me F \<Longrightarrow> files_reach E me (snd (files_remove g p at F))"
| have_it: "files_reach E me F \<Longrightarrow> files_reach E me (mark_have g p b F)"
| dir: "files_reach E me F \<Longrightarrow> files_reach E me (snd (files_dir_for g name F))"
| changes: "files_reach E me F \<Longrightarrow> files_reach E me (snd (changes_since g c n F))"
| digest: "files_reach E me F \<Longrightarrow> files_reach E me (snd (files_digest E g F))"
| cursor: "files_reach E me F \<Longrightarrow> files_reach E me (set_cursor g p c F)"
| wanted: "files_reach E me F \<Longrightarrow> files_reach E me (wanted_again g F)"
| seen: "files_reach E me F \<Longrightarrow> files_reach E me (wanted_seen g F)"
| told: "files_reach E me F \<Longrightarrow> files_reach E me (news_told g F)"

lemma files_reach_inv: "files_reach E me F \<Longrightarrow> files_inv E F"
proof (induction rule: files_reach.induct)
  case (recorded F row g replace disk)
  then show ?case using files_inv_record [of E "(F, disk)"] by simp
next
  case (merge F row root g dir disk)
  then show ?case using files_inv_merge [of E "(F, disk)"] by simp
qed (simp_all add: files_inv_new files_inv_remove files_inv_mark_have files_inv_dir_for files_inv_changes
    files_digest_fresh(2) files_inv_sync files_inv_note files_inv_wanted_seen)

text \<open>C6. The file index stays consistent. After any sequence of calls every row is stored under its
  own valid path, log positions in a group are positive, distinct and not past the counter, no two
  groups share a directory, and the digest answered is that of the rows, cached or not.\<close>

theorem files_consistent:
  assumes "files_reach E me F"
  shows "(\<forall>g p r. read_row F g p = Some r \<longrightarrow> fl_path r = p \<and> relpath_parse (path_str p) = Inr p
        \<and> 0 < fl_seen_seq r \<and> fl_seen_seq r \<le> seq_in F g)
    \<and> (\<forall>g p q r s. read_row F g p = Some r \<and> read_row F g q = Some s \<and> fl_seen_seq r = fl_seen_seq s \<longrightarrow> p = q)
    \<and> (\<forall>g h dir. files_dir_of F g = Some dir \<and> files_dir_of F h = Some dir \<longrightarrow> g = h)
    \<and> (\<forall>g. fst (files_digest E g F) = catalogue_digest E (rows_in F g))"
proof -
  have inv: "files_inv E F" using assms by (rule files_reach_inv)
  note d = files_invD [OF inv]
  have dirs: "g = h" if "files_dir_of F g = Some dir" "files_dir_of F h = Some dir" for g h dir
  proof -
    from that have "(g, dir) \<in> set (f_roots F)" "(h, dir) \<in> set (f_roots F)"
      using om_in_set_iff [OF d(1)] by (simp_all add: files_dir_of_def)
    moreover have "inj_on snd (set (f_roots F))" using d(5) by (simp add: distinct_map)
    ultimately show ?thesis using inj_onD [of snd "set (f_roots F)" "(g, dir)" "(h, dir)"] by simp
  qed
  have rows: "fl_path r = p \<and> relpath_parse (path_str p) = Inr p \<and> 0 < fl_seen_seq r \<and> fl_seen_seq r \<le> seq_in F g"
    if "read_row F g p = Some r" for g p r
    using d(6) [OF that] by (simp add: row_ok_def path_ok_def)
  from rows dirs d(8) files_digest_fresh(1) [OF inv] show ?thesis by blast
qed

theorem files_consistent_witness:
  "fst (files_digest sample team (fst (snd (files_record team note_row True (files_new alice, [])))))
     = catalogue_digest sample (rows_in (fst (snd (files_record team note_row True (files_new alice, [])))) team)"
proof -
  have "path_ok (fl_path note_row)" by (simp add: note_row_def a_path)
  from files_consistent [OF files_reach.recorded [OF files_reach.new this]] show ?thesis by blast
qed

section \<open>Merging is the catalogue's merge\<close>

text \<open>C7. Merging depends on the catalogue alone. When \<open>merge\<close> succeeds, its outcome and the catalogue
  it leaves are what \<open>cat_merge\<close> makes of the catalogue before and the incoming entry: which bytes the
  node holds, its log, the disk and the rest of the tables play no part, so two nodes with the same
  catalogue merge a row alike.\<close>

theorem merge_refines:
  assumes "files_reach E me F" "path_ok (fl_path incoming)"
    and "files_merge root g incoming dir (F, disk) = (Inr out, (F', disk'))"
  shows "(out, catalogue_of F' g) = cat_merge (fl_path incoming) (entry_of incoming) (catalogue_of F g)"
  using merge_cat [of E "(F, disk)" incoming root g dir out "(F', disk')"] files_reach_inv [OF assms(1)] assms(2,3)
  by simp

lemma note_merges: "files_merge [] team note_row ''d'' (files_new alice, disk)
    = (Inr MApplied, (note_wanted team (put_row team (note_row\<lparr>fl_have := False, fl_seen_seq := 1\<rparr>) (snd (next_seq team (files_new alice)))), disk))"
  by (simp add: files_merge_def transaction_def tx_bind_def tx_get_def merge_settle_def merge_displace_def tx_return_def
      merge_store_def write_row_def next_seq_def state_upsert_def state_of_def seq_in_def files_new_def read_row_def
      note_row_def I64_MAX_def is_removed_def tx_update_def merge_twin_def read_twin_def rows_in_def put_row_def
      note_wanted_def oldest_first_def file_state_default_def)

theorem merge_refines_witness:
  "\<exists>F'. files_merge [] team note_row ''d'' (files_new alice, []) = (Inr MApplied, (F', []))
     \<and> (MApplied, catalogue_of F' team) = cat_merge (RelPath ''a'') (entry_of note_row) (catalogue_of (files_new alice) team)"
proof -
  have "path_ok (fl_path note_row)" by (simp add: note_row_def a_path)
  from merge_refines [OF files_reach.new this note_merges [of "[]"]] note_merges [of "[]"] show ?thesis
    by (simp add: note_row_def)
qed

end
