(* ===== verification/FileMerge.thy ===== *)
theory FileMerge
  imports FileTheorems
begin

text \<open>
  What the merge rules give the nodes that follow them: two nodes that swap their rows for a path
  agree about it, content is not lost, and what a removal is worth.
\<close>

section \<open>The merge rules on catalogues\<close>

definition live_in :: "catalogue \<Rightarrow> string \<Rightarrow> bool" where
  "live_in c h \<longleftrightarrow> (\<exists>q f. map_of c q = Some f \<and> ce_live f \<and> ce_hash f = h)"

text \<open>No other path of the catalogue holds one of these contents.\<close>

definition alone :: "catalogue \<Rightarrow> relpath \<Rightarrow> string set \<Rightarrow> bool" where
  "alone c p hs \<longleftrightarrow> (\<forall>q f. map_of c q = Some f \<and> ce_live f \<and> ce_hash f \<in> hs \<longrightarrow> q = p)"

definition ce_choose :: "cat_entry \<Rightarrow> cat_entry \<Rightarrow> cat_entry" where
  "ce_choose a b = (if ce_hash a = ce_hash b then ce_join a b else if ce_wins b a then b else a)"

lemma merge_removed_comm: "merge_removed a b = merge_removed b a"
  by (cases a; cases b) (simp_all add: merge_removed_def max.commute)

lemma merge_removed_assoc: "merge_removed (merge_removed a b) c = merge_removed a (merge_removed b c)"
  by (cases a; cases b; cases c) (simp_all add: merge_removed_def max.assoc)

lemma merge_removed_idem [simp]: "merge_removed a a = a"
  by (cases a) (simp_all add: merge_removed_def)

lemma ce_wins_different: "ce_hash a \<noteq> ce_hash b \<Longrightarrow> ce_wins a b \<longleftrightarrow> \<not> ce_wins b a"
  by (auto simp: ce_wins_def less_prod_def)

lemma ce_choose_comm: "ce_choose a b = ce_choose b a"
  using ce_wins_different [of a b]
  by (auto simp: ce_choose_def ce_join_def merge_removed_comm min.commute)

lemma cat_twin_Some:
  assumes "om_inv c" "cat_twin c p h = Some (q, f)"
  shows "map_of c q = Some f \<and> ce_hash f = h \<and> q \<noteq> p \<and> ce_live f"
proof -
  let ?P = "\<lambda>(q, e). ce_hash e = h \<and> q \<noteq> p \<and> ce_live e"
  from assms(2) obtain xs where "sort_key (\<lambda>(q, e). (ce_added_at e, q)) (filter ?P c) = (q, f) # xs"
    by (auto simp: cat_twin_def split: list.splits)
  then have "(q, f) \<in> set (sort_key (\<lambda>(q, e). (ce_added_at e, q)) (filter ?P c))" by (metis list.set_intros(1))
  then show ?thesis using om_in_set_iff [OF assms(1)] by simp
qed

lemma sort_key_Nil: "sort_key k xs = [] \<longleftrightarrow> xs = []"
  by (metis length_sort length_0_conv)

lemma cat_twin_None:
  assumes "om_inv c"
  shows "cat_twin c p h = None \<longleftrightarrow> alone c p {h}"
proof -
  let ?P = "\<lambda>(q, e). ce_hash e = h \<and> q \<noteq> p \<and> ce_live e"
  have "cat_twin c p h = None \<longleftrightarrow> sort_key (\<lambda>(q, e). (ce_added_at e, q)) (filter ?P c) = []"
    by (auto simp: cat_twin_def split: list.split)
  also have "\<dots> \<longleftrightarrow> (\<forall>x \<in> set c. \<not> ?P x)" by (simp add: sort_key_Nil filter_empty_conv)
  also have "\<dots> \<longleftrightarrow> alone c p {h}"
  proof -
    have "(\<forall>x \<in> set c. \<not> ?P x) \<longleftrightarrow> (\<forall>q f. (q, f) \<in> set c \<longrightarrow> \<not> ?P (q, f))" by auto
    then show ?thesis unfolding om_in_set_iff [OF assms] alone_def by auto
  qed
  finally show ?thesis .
qed

lemma cat_dedup_alone: "om_inv c \<Longrightarrow> alone c p {ce_hash e} \<Longrightarrow> cat_dedup p e (o1, c) = (o1, c)"
  by (simp add: cat_dedup_def cat_twin_None [symmetric])

text \<open>Deduplication keeps every live content.\<close>

lemma cat_dedup_live:
  assumes om: "om_inv c" and e: "map_of c p = Some e" and h: "live_in c h"
  shows "live_in (snd (cat_dedup p e (o1, c))) h"
proof (cases "ce_live e")
  case False
  with h show ?thesis by (simp add: cat_dedup_def)
next
  case live: True
  show ?thesis
  proof (cases "cat_twin c p (ce_hash e)")
    case None
    with h show ?thesis by (simp add: cat_dedup_def)
  next
    case (Some x)
    obtain q f where x: "x = (q, f)" by (cases x)
    note t = cat_twin_Some [OF om Some [unfolded x]]
    have kept: "live_in (om_put k v c) h" if k: "k = q \<and> map_of c p = Some e \<or> k = p \<and> map_of c q = Some f" for k v
    proof -
      from h obtain k' f' where f': "map_of c k' = Some f'" "ce_live f'" "ce_hash f' = h" by (auto simp: live_in_def)
      show ?thesis
      proof (cases "k' = k")
        case False
        with f' om show ?thesis by (auto simp: live_in_def om_simps)
      next
        case True
        then have "ce_hash e = h \<and> ce_hash f = h" using k f' e t by auto
        with k live t om show ?thesis
          by (auto simp: live_in_def om_simps intro: exI [of _ p] exI [of _ q])
      qed
    qed
    show ?thesis using live Some x e t kept by (auto simp: cat_dedup_def Let_def)
  qed
qed

lemma live_put: "om_inv c \<Longrightarrow> live_in c h \<Longrightarrow>
    (\<And>f. map_of c p = Some f \<Longrightarrow> ce_live f \<Longrightarrow> ce_hash f = h \<Longrightarrow> ce_live e \<and> ce_hash e = h) \<Longrightarrow> live_in (om_put p e c) h"
  unfolding live_in_def by (metis fun_upd_apply om_get_put option.inject)

lemma live_put_new: "om_inv c \<Longrightarrow> ce_live e \<Longrightarrow> live_in (om_put p e c) (ce_hash e)"
  by (auto simp: live_in_def om_simps)

section \<open>Two nodes agree\<close>

text \<open>What a merge leaves at the path, and at the derived path of a loser.\<close>

lemma cat_merge_chosen:
  assumes om: "om_inv c" and l: "map_of c p = Some l"
    and alone: "alone c p {ce_hash l, ce_hash e}"
    and room: "ce_hash l \<noteq> ce_hash e \<Longrightarrow> ce_live l \<Longrightarrow> ce_live e \<Longrightarrow>
      conflict_name p (ce_hash l) \<noteq> p \<and> conflict_name p (ce_hash e) \<noteq> p"
  shows "map_of (snd (cat_merge p e c)) p = Some (ce_choose l e)
    \<and> (ce_hash l \<noteq> ce_hash e \<and> ce_live l \<and> ce_live e \<longrightarrow>
        (let loser = (if ce_wins e l then l else e)
         in map_of (snd (cat_merge p e c)) (conflict_name p (ce_hash loser)) = Some loser))"
proof (cases "ce_hash l = ce_hash e")
  case True
  let ?j = "ce_join l e"
  have j: "ce_hash ?j = ce_hash e" "ce_choose l e = ?j" using True by (simp_all add: ce_join_def ce_choose_def)
  have a: "alone c p {ce_hash e}" "alone (om_put p ?j c) p {ce_hash e}"
    using alone om by (auto simp: alone_def om_simps)
  have "ce_added_at ?j = ce_added_at l \<and> ce_removed_at ?j = ce_removed_at l \<Longrightarrow> ?j = l"
    using True by (simp add: ce_join_def)
  with True l om j a show ?thesis
    by (auto simp: cat_merge_def Let_def cat_dedup_alone om_simps)
next
  case different: False
  show ?thesis
  proof (cases "ce_live l \<and> ce_live e")
    case both: True
    show ?thesis
    proof (cases "ce_wins e l")
      case True
      let ?m = "conflict_name p (ce_hash l)"
      let ?c = "om_put p e (om_put ?m l c)"
      have "alone ?c p {ce_hash e}" using alone om different by (auto simp: alone_def om_simps)
      then have "cat_dedup p e (MConflicted ?m, ?c) = (MConflicted ?m, ?c)" using om by (simp add: cat_dedup_alone)
      with l om different both True room show ?thesis by (auto simp: cat_merge_def Let_def ce_choose_def om_simps)
    next
      case False
      let ?q = "conflict_name p (ce_hash e)"
      let ?c = "om_put ?q e c"
      have q: "?q \<noteq> p" using room different both by blast
      have "alone ?c ?q {ce_hash e}" using alone om different l q by (auto simp: alone_def om_simps)
      then have "cat_dedup ?q e (MApplied, ?c) = (MApplied, ?c)" using om by (simp add: cat_dedup_alone)
      with l om different both False q show ?thesis by (auto simp: cat_merge_def Let_def ce_choose_def om_simps)
    qed
  next
    case False
    have a: "alone (om_put p e c) p {ce_hash e}" using alone om by (auto simp: alone_def om_simps)
    with l om different False show ?thesis
      by (auto simp: cat_merge_def Let_def cat_dedup_alone ce_choose_def om_simps)
  qed
qed

text \<open>The row a peer makes of ours: everything but what is local.\<close>

definition sent_row :: "file_row \<Rightarrow> file_row" where
  "sent_row r = r\<lparr>fl_have := False, fl_seen_seq := 0\<rparr>"

lemma entry_of_sent [simp]: "entry_of (sent_row r) = entry_of r" "fl_path (sent_row r) = fl_path r"
  by (simp_all add: sent_row_def)

section \<open>Two nodes with one file each\<close>

lemma conflict_a: "conflict_name (RelPath ''a'') ''aa'' = RelPath ''a.conflict-aa''" 
   "conflict_name (RelPath ''a'') ''bb'' = RelPath ''a.conflict-bb''"
  by (simp_all add: conflict_name_def split_dir_def rfind_def split_ext_def lead_width_def code_def conflict_mark_def MAX_COMPONENT_def is_char_boundary_def Let_def relpath_parse_def MAX_PATH_def find_control.simps)

definition file_a :: file_row where
  "file_a = \<lparr>fl_path = RelPath ''a'', fl_size = 5, fl_hash = ''aa'', fl_modified = 0, fl_added_at = 7,
     fl_added_by = alice, fl_removed_at = None, fl_have = False, fl_seen_seq = 1\<rparr>"

definition file_b :: file_row where
  "file_b = \<lparr>fl_path = RelPath ''a'', fl_size = 6, fl_hash = ''bb'', fl_modified = 0, fl_added_at = 9,
     fl_added_by = bob, fl_removed_at = None, fl_have = False, fl_seen_seq = 1\<rparr>"

definition one_row :: "peer_id \<Rightarrow> file_row \<Rightarrow> files" where
  "one_row me r = fst (snd (files_record team r True (files_new me, [])))"

lemmas files_eval = files_record_def transaction_def tx_bind_def tx_get_def tx_return_def tx_fail_def tx_update_def
  files_merge_def merge_settle_def merge_displace_def merge_store_def merge_twin_def merge_drop_def read_twin_def
  tombstone_tx_def write_row_def next_seq_def state_upsert_def state_of_def seq_in_def read_row_def rows_in_def
  put_row_def oldest_first_def note_local_def note_wanted_def file_state_default_def files_new_def is_removed_def
  wins_path_def wins_hash_def changed_at_def I64_MAX_def Let_def

lemma one_row_eq: "one_row alice file_a = \<lparr>f_me = alice, f_roots = [], f_rows = [((team, RelPath ''a''), file_a)],
   f_sync = [], f_state = [(team, file_state_default\<lparr>fs_last_change := 7, fs_changes := 1, fs_seq := 1\<rparr>)]\<rparr>"
 "one_row bob file_b = \<lparr>f_me = bob, f_roots = [], f_rows = [((team, RelPath ''a''), file_b)],
   f_sync = [], f_state = [(team, file_state_default\<lparr>fs_last_change := 9, fs_changes := 1, fs_seq := 1\<rparr>)]\<rparr>"
  by (simp_all add: one_row_def files_eval file_a_def file_b_def)

lemma merges_run:
  "\<exists>F. files_merge [] team (sent_row file_b) ''d'' (one_row alice file_a, []) = (Inr (MConflicted (RelPath ''a.conflict-aa'')), (F, []))"
  "\<exists>F. files_merge [] team (sent_row file_a) ''d'' (one_row bob file_b, []) = (Inr MApplied, (F, []))"
  unfolding one_row_eq
  by (simp_all add: files_eval file_a_def file_b_def sent_row_def conflict_a less_relpath_def less_eq_relpath_def)

lemma one_row_reach: "files_reach E alice (one_row alice file_a)" "files_reach E bob (one_row bob file_b)"
  unfolding one_row_def
  by (rule files_reach.recorded [OF files_reach.new], simp add: file_a_def file_b_def a_path)+

lemma one_row_reads: "read_row (one_row alice file_a) team (RelPath ''a'') = Some file_a"
  "read_row (one_row bob file_b) team (RelPath ''a'') = Some file_b"
  "catalogue_of (one_row alice file_a) team = [(RelPath ''a'', entry_of file_a)]"
  "catalogue_of (one_row bob file_b) team = [(RelPath ''a'', entry_of file_b)]"
  unfolding one_row_eq by (simp_all add: read_row_def catalogue_of_def rows_in_def) (simp_all add: file_a_def file_b_def)

section \<open>Agreement\<close>

text \<open>C8. Two nodes that swap their rows for a path agree, as long as neither has another live row for either of the two
  contents and, when both rows are live with different contents, the conflict names of both are names other than the path.
  If under these conditions A merges B's row and B merges A's, both succeeding, they
  hold the same content, addition time and removal time at the path: the earliest addition and latest
  removal when the content was the same, those of the winning row otherwise. When both were live with different content the
  loser is live on both nodes under the same derived path. (Size, author and modification time are not compared, nor are
  they part of the digest.)\<close>

theorem two_nodes_agree:
  assumes A: "files_reach E meA FA" "read_row FA g p = Some a" and B: "files_reach E meB FB" "read_row FB g p = Some b"
    and alone: "alone (catalogue_of FA g) p {fl_hash a, fl_hash b}" "alone (catalogue_of FB g) p {fl_hash a, fl_hash b}"
    and room: "fl_hash a \<noteq> fl_hash b \<Longrightarrow> \<not> is_removed a \<Longrightarrow> \<not> is_removed b \<Longrightarrow>
      conflict_name p (fl_hash a) \<noteq> p \<and> conflict_name p (fl_hash b) \<noteq> p"
    and mA: "files_merge rootA g (sent_row b) dirA (FA, diskA) = (Inr outA, (FA', diskA'))"
    and mB: "files_merge rootB g (sent_row a) dirB (FB, diskB) = (Inr outB, (FB', diskB'))"
  shows "map_of (catalogue_of FA' g) p = map_of (catalogue_of FB' g) p
    \<and> map_of (catalogue_of FA' g) p = Some (ce_choose (entry_of a) (entry_of b))
    \<and> (fl_hash a \<noteq> fl_hash b \<and> \<not> is_removed a \<and> \<not> is_removed b \<longrightarrow>
        (let loser = (if wins_path b a then a else b); q = conflict_name p (fl_hash loser)
         in map_of (catalogue_of FA' g) q = Some (entry_of loser) \<and> map_of (catalogue_of FB' g) q = Some (entry_of loser)))"
proof -
  have inv: "files_inv E FA" "files_inv E FB"
    using files_reach_inv [OF A(1)] files_reach_inv [OF B(1)] by simp_all
  have rows: "fl_path a = p" "path_ok p" "fl_path b = p"
    using files_invD(6) [OF inv(1) A(2)] files_invD(6) [OF inv(2) B(2)] by (simp_all add: row_ok_def)
  have cA: "map_of (catalogue_of FA g) p = Some (entry_of a)" and cB: "map_of (catalogue_of FB g) p = Some (entry_of b)"
    using A(2) B(2) by (simp_all add: catalogue_get [OF inv(1)] catalogue_get [OF inv(2)])
  have "(outA, catalogue_of FA' g) = cat_merge p (entry_of b) (catalogue_of FA g)"
    using merge_cat [of E "(FA, diskA)" "sent_row b", OF _ _ mA] inv rows by simp
  then have A': "catalogue_of FA' g = snd (cat_merge p (entry_of b) (catalogue_of FA g))" by (metis snd_conv)
  have "(outB, catalogue_of FB' g) = cat_merge p (entry_of a) (catalogue_of FB g)"
    using merge_cat [of E "(FB, diskB)" "sent_row a", OF _ _ mB] inv rows by simp
  then have B': "catalogue_of FB' g = snd (cat_merge p (entry_of a) (catalogue_of FB g))" by (metis snd_conv)
  have cmA: "map_of (catalogue_of FA' g) p = Some (ce_choose (entry_of a) (entry_of b))
    \<and> (fl_hash a \<noteq> fl_hash b \<and> \<not> is_removed a \<and> \<not> is_removed b \<longrightarrow>
        (let loser = (if wins_path b a then entry_of a else entry_of b)
         in map_of (catalogue_of FA' g) (conflict_name p (ce_hash loser)) = Some loser))"
    using cat_merge_chosen [OF catalogue_inv [OF inv(1)] cA, of "entry_of b"] alone(1) room by (simp add: A')
  have cmB: "map_of (catalogue_of FB' g) p = Some (ce_choose (entry_of b) (entry_of a))
    \<and> (fl_hash a \<noteq> fl_hash b \<and> \<not> is_removed a \<and> \<not> is_removed b \<longrightarrow>
        (let loser = (if wins_path a b then entry_of b else entry_of a)
         in map_of (catalogue_of FB' g) (conflict_name p (ce_hash loser)) = Some loser))"
    using cat_merge_chosen [OF catalogue_inv [OF inv(2)] cB, of "entry_of a"] alone(2) room
    by (simp add: B' insert_commute eq_commute [of "fl_hash a"])
  from cmA cmB show ?thesis
    by (auto simp: ce_choose_comm [of "entry_of b"] Let_def dest: wins_path_asym wins_path_different)
qed

theorem two_nodes_agree_witness:
  "\<exists>FA FB. files_merge [] team (sent_row file_b) ''d'' (one_row alice file_a, []) = (Inr (MConflicted (RelPath ''a.conflict-aa'')), (FA, []))
     \<and> files_merge [] team (sent_row file_a) ''d'' (one_row bob file_b, []) = (Inr MApplied, (FB, []))
     \<and> map_of (catalogue_of FA team) (RelPath ''a'') = Some (entry_of file_b)
     \<and> map_of (catalogue_of FB team) (RelPath ''a'') = Some (entry_of file_b)
     \<and> map_of (catalogue_of FA team) (RelPath ''a.conflict-aa'') = Some (entry_of file_a)
     \<and> map_of (catalogue_of FB team) (RelPath ''a.conflict-aa'') = Some (entry_of file_a)"
proof -
  have h: "fl_hash file_a = ''aa''" "fl_hash file_b = ''bb''" "\<not> is_removed file_a" "\<not> is_removed file_b"
    "wins_path file_b file_a" "ce_choose (entry_of file_a) (entry_of file_b) = entry_of file_b"
    by (simp_all add: file_a_def file_b_def is_removed_def wins_path_def changed_at_def ce_choose_def)
  have alone: "alone (catalogue_of (one_row alice file_a) team) (RelPath ''a'') X"
    "alone (catalogue_of (one_row bob file_b) team) (RelPath ''a'') X" for X
    by (simp_all add: alone_def one_row_reads)
  obtain FA FB where m: "files_merge [] team (sent_row file_b) ''d'' (one_row alice file_a, []) = (Inr (MConflicted (RelPath ''a.conflict-aa'')), (FA, []))"
    "files_merge [] team (sent_row file_a) ''d'' (one_row bob file_b, []) = (Inr MApplied, (FB, []))"
    using merges_run by blast
  have room: "conflict_name (RelPath ''a'') (fl_hash file_a) \<noteq> RelPath ''a'' \<and> conflict_name (RelPath ''a'') (fl_hash file_b) \<noteq> RelPath ''a''"
    by (simp_all add: h conflict_a)
  from two_nodes_agree [OF one_row_reach(1) [of sample] one_row_reads(1) one_row_reach(2) one_row_reads(2) alone room m]
  show ?thesis using m by (auto simp: h conflict_a Let_def)
qed

section \<open>Content survives\<close>

lemma cat_merge_live:
  assumes om: "om_inv c" and e: "ce_live e" and h: "live_in c h"
    and room: "\<And>l. map_of c p = Some l \<Longrightarrow> ce_live l \<Longrightarrow> ce_hash l \<noteq> ce_hash e \<Longrightarrow> conflict_name p (ce_hash l) \<noteq> p"
    and free: "\<And>l x f. map_of c p = Some l \<Longrightarrow> ce_live l \<Longrightarrow> ce_hash l \<noteq> ce_hash e \<Longrightarrow> x \<in> {ce_hash l, ce_hash e} \<Longrightarrow>
      map_of c (conflict_name p x) = Some f \<Longrightarrow> ce_live f \<Longrightarrow> ce_hash f = x"
  shows "live_in (snd (cat_merge p e c)) h"
proof (cases "map_of c p")
  case None
  have "live_in (om_put p e c) h" by (rule live_put [OF om h]) (use None in simp)
  with None om show ?thesis by (simp add: cat_merge_def cat_dedup_live om_simps)
next
  case l: (Some l)
  show ?thesis
  proof (cases "ce_hash l = ce_hash e")
    case True
    let ?j = "ce_join l e"
    have j: "ce_added_at ?j = ce_added_at l \<and> ce_removed_at ?j = ce_removed_at l \<Longrightarrow> ?j = l" "ce_hash ?j = ce_hash l"
      using True by (cases l; simp add: ce_join_def)+
    have live: "ce_live l \<Longrightarrow> ce_live ?j" using e by (simp add: ce_join_def ce_live_def merge_removed_def)
    have "live_in (om_put p ?j c) h" by (rule live_put [OF om h]) (use l j live in auto)
    then have "live_in (snd (cat_dedup p ?j (MApplied, om_put p ?j c))) h"
      by (intro cat_dedup_live) (simp_all add: om om_simps)
    moreover have "live_in (snd (cat_dedup p ?j (MUnchanged, c))) h"
      if "ce_added_at ?j = ce_added_at l \<and> ce_removed_at ?j = ce_removed_at l"
      by (rule cat_dedup_live [OF om _ h]) (simp add: l j(1) [OF that])
    ultimately show ?thesis using l True by (simp add: cat_merge_def Let_def)
  next
    case different: False
    show ?thesis
    proof (cases "ce_live l")
      case live: True
      note r = room [OF l live different] and f = free [OF l live different]
      show ?thesis
      proof (cases "ce_wins e l")
        case True
        let ?m = "conflict_name p (ce_hash l)"
        let ?c = "om_put p e (om_put ?m l c)"
        have "live_in ?c h"
        proof -
          from h obtain k x where x: "map_of c k = Some x" "ce_live x" "ce_hash x = h" by (auto simp: live_in_def)
          have "k = p \<or> k = ?m \<Longrightarrow> ce_hash l = h"
            using x l f [of "ce_hash l" x] by auto
          moreover have "map_of ?c ?m = Some l" using om r by (simp add: om_simps)
          moreover have "\<not> (k = p \<or> k = ?m) \<Longrightarrow> map_of ?c k = Some x" using om x by (simp add: om_simps)
          ultimately have "\<exists>q f. map_of ?c q = Some f \<and> ce_live f \<and> ce_hash f = h" using x live by blast
          then show ?thesis by (simp only: live_in_def)
        qed
        then have "live_in (snd (cat_dedup p e (MConflicted ?m, ?c))) h"
          by (intro cat_dedup_live) (simp_all add: om om_simps)
        with l live e different True show ?thesis by (simp add: cat_merge_def Let_def)
      next
        case False
        let ?q = "conflict_name p (ce_hash e)"
        have "live_in (om_put ?q e c) h"
        proof (rule live_put [OF om h])
          fix x assume "map_of c ?q = Some x" "ce_live x" "ce_hash x = h"
          with f [of "ce_hash e" x] e show "ce_live e \<and> ce_hash e = h" by simp
        qed
        then have "live_in (snd (cat_dedup ?q e (MApplied, om_put ?q e c))) h"
          by (intro cat_dedup_live) (simp_all add: om om_simps)
        with l live e different False show ?thesis by (simp add: cat_merge_def Let_def)
      qed
    next
      case False
      have "live_in (om_put p e c) h" by (rule live_put [OF om h]) (use l False in auto)
      then have "live_in (snd (cat_dedup p e (MApplied, om_put p e c))) h"
        by (intro cat_dedup_live) (simp_all add: om om_simps)
      with l False h different show ?thesis by (simp add: cat_merge_def)
    qed
  qed
qed

text \<open>The incoming content is live too, unless the row there is removed and not beaten.\<close>

lemma cat_merge_live_new:
  assumes om: "om_inv c" and e: "ce_live e"
    and l: "\<And>l. map_of c p = Some l \<Longrightarrow> ce_live l \<or> ce_hash l \<noteq> ce_hash e \<and> ce_wins e l"
  shows "live_in (snd (cat_merge p e c)) (ce_hash e)"
proof -
  have placed: "live_in (snd (cat_dedup p e (MApplied, om_put p e c))) (ce_hash e)"
    by (intro cat_dedup_live live_put_new) (simp_all add: om om_simps e)
  show ?thesis
  proof (cases "map_of c p")
    case None
    with placed show ?thesis by (simp add: cat_merge_def)
  next
    case (Some l)
    show ?thesis
    proof (cases "ce_live l")
      case False
      with assms(3) [OF Some] have "ce_hash l \<noteq> ce_hash e" "ce_wins e l" by blast+
      with placed Some False show ?thesis by (simp add: cat_merge_def)
    next
      case live: True
      show ?thesis
      proof (cases "ce_hash l = ce_hash e")
        case True
        have "live_in c (ce_hash e)" using Some live True by (auto simp: live_in_def)
        then show ?thesis by (intro cat_merge_live) (use Some True om e in auto)
      next
        case different: False
        let ?q = "conflict_name p (ce_hash e)" and ?m = "conflict_name p (ce_hash l)"
        have "live_in (snd (cat_dedup p e (MConflicted ?m, om_put p e (om_put ?m l c)))) (ce_hash e)"
          "live_in (snd (cat_dedup ?q e (MApplied, om_put ?q e c))) (ce_hash e)"
          by (intro cat_dedup_live live_put_new; simp add: om om_simps e)+
        with Some live e different show ?thesis by (simp add: cat_merge_def Let_def)
      qed
    qed
  qed
qed

lemma path_of_hash_live:
  assumes "files_inv E F"
  shows "path_of_hash F g h = None \<longleftrightarrow> \<not> live_in (catalogue_of F g) h"
proof -
  note d = files_invD [OF assms]
  let ?P = "\<lambda>r. fl_hash r = h \<and> \<not> is_removed r"
  have "path_of_hash F g h = None \<longleftrightarrow> filter ?P (rows_in F g) = []"
    by (auto simp: path_of_hash_def oldest_first_def sort_key_Nil split: list.split)
  also have "\<dots> \<longleftrightarrow> (\<forall>r \<in> set (rows_in F g). \<not> ?P r)" by (simp add: filter_empty_conv)
  also have "\<dots> \<longleftrightarrow> \<not> live_in (catalogue_of F g) h"
    unfolding live_in_def catalogue_get [OF assms] map_option_eq_Some
    by (auto simp: rows_in_iff [OF d(2)]) (metis ce_live_entry entry_of_sel(1))+
  finally show ?thesis .
qed

text \<open>C9. When a merge loses no content. Let a peer's live row be merged. If the local row for that path is live with another
  content, suppose that the local content's conflict name is not the path itself and that whatever is live
  under the conflict name of either content is that very content; otherwise nothing is supposed. Then every content that had a
  live row in the group still has one. The incoming content has one too, unless the local row is removed and either has the
  same content or is not beaten by the incoming one.\<close>

theorem merge_keeps_content:
  assumes "files_reach E me F" "path_ok (fl_path incoming)" "\<not> is_removed incoming"
    and "files_merge root g incoming dir (F, disk) = (Inr out, (F', disk'))"
    and "\<And>l. read_row F g (fl_path incoming) = Some l \<Longrightarrow> \<not> is_removed l \<Longrightarrow> fl_hash l \<noteq> fl_hash incoming \<Longrightarrow>
      conflict_name (fl_path incoming) (fl_hash l) \<noteq> fl_path incoming"
    and "\<And>l x f. read_row F g (fl_path incoming) = Some l \<Longrightarrow> \<not> is_removed l \<Longrightarrow> fl_hash l \<noteq> fl_hash incoming \<Longrightarrow>
      x = fl_hash l \<or> x = fl_hash incoming \<Longrightarrow>
      read_row F g (conflict_name (fl_path incoming) x) = Some f \<Longrightarrow> \<not> is_removed f \<Longrightarrow> fl_hash f = x"
  shows "(\<forall>h. path_of_hash F g h \<noteq> None \<longrightarrow> path_of_hash F' g h \<noteq> None)
    \<and> ((\<forall>l. read_row F g (fl_path incoming) = Some l \<and> is_removed l \<longrightarrow>
          fl_hash l \<noteq> fl_hash incoming \<and> wins_path incoming l) \<longrightarrow> path_of_hash F' g (fl_hash incoming) \<noteq> None)"
proof -
  let ?p = "fl_path incoming" and ?e = "entry_of incoming" and ?c = "catalogue_of F g"
  have inv: "files_inv E F" using assms(1) by (rule files_reach_inv)
  have inv': "files_inv E F'" using files_inv_merge [of E "(F, disk)" incoming root g dir] inv assms(2,4) by simp
  have c': "catalogue_of F' g = snd (cat_merge ?p ?e ?c)"
    using merge_cat [of E "(F, disk)" incoming, OF _ assms(2,4)] inv by (metis fst_conv snd_conv)
  have row: "\<exists>r. read_row F g q = Some r \<and> l = entry_of r" if "map_of ?c q = Some l" for q l
    using that by (auto simp: catalogue_get [OF inv])
  have "live_in (snd (cat_merge ?p ?e ?c)) h" if "live_in ?c h" for h
  proof (rule cat_merge_live [OF catalogue_inv [OF inv] _ that])
    show "ce_live ?e" using assms(3) by simp
    show "conflict_name ?p (ce_hash l) \<noteq> ?p" if "map_of ?c ?p = Some l" "ce_live l" "ce_hash l \<noteq> ce_hash ?e" for l
      using row [OF that(1)] that(2,3) assms(5) by auto
    show "ce_hash f = x" if l: "map_of ?c ?p = Some l" "ce_live l" "ce_hash l \<noteq> ce_hash ?e" and x: "x \<in> {ce_hash l, ce_hash ?e}"
      and f: "map_of ?c (conflict_name ?p x) = Some f" "ce_live f" for l x f
    proof -
      from row [OF l(1)] obtain r where r: "read_row F g ?p = Some r" "l = entry_of r" by blast
      from row [OF f(1)] obtain r' where r': "read_row F g (conflict_name ?p x) = Some r'" "f = entry_of r'" by blast
      show ?thesis using assms(6) [OF r(1) _ _ _ r'(1)] l(2,3) x f(2) r(2) r'(2) by simp
    qed
  qed
  moreover have "live_in (snd (cat_merge ?p ?e ?c)) (fl_hash incoming)"
    if beaten: "\<forall>l. read_row F g ?p = Some l \<and> is_removed l \<longrightarrow> fl_hash l \<noteq> fl_hash incoming \<and> wins_path incoming l"
  proof -
    have "ce_live l \<or> ce_hash l \<noteq> ce_hash ?e \<and> ce_wins ?e l" if "map_of ?c ?p = Some l" for l
      using row [OF that] beaten by auto
    then show ?thesis using cat_merge_live_new [OF catalogue_inv [OF inv], where e = ?e and p = ?p] assms(3) by simp
  qed
  ultimately show ?thesis by (simp add: path_of_hash_live [OF inv] path_of_hash_live [OF inv'] c')
qed

theorem merge_keeps_content_witness:
  "\<exists>F. files_merge [] team (sent_row file_b) ''d'' (one_row alice file_a, []) = (Inr (MConflicted (RelPath ''a.conflict-aa'')), (F, []))
     \<and> path_of_hash F team ''aa'' \<noteq> None \<and> path_of_hash F team ''bb'' \<noteq> None"
proof -
  obtain F where m: "files_merge [] team (sent_row file_b) ''d'' (one_row alice file_a, []) = (Inr (MConflicted (RelPath ''a.conflict-aa'')), (F, []))"
    using merges_run(1) by blast
  have sel: "fl_hash file_a = ''aa''" "fl_hash file_b = ''bb''" "fl_path file_b = RelPath ''a''" "\<not> is_removed file_a"
    "\<not> is_removed (sent_row file_b)" "fl_hash (sent_row file_b) = ''bb''"
    by (simp_all add: file_a_def file_b_def is_removed_def sent_row_def)
  have none: "read_row (one_row alice file_a) team q = (if q = RelPath ''a'' then Some file_a else None)" for q
    unfolding one_row_eq by (simp add: read_row_def)
  have a: "path_of_hash (one_row alice file_a) team ''aa'' \<noteq> None"
    using one_row_reads(3) sel by (simp add: path_of_hash_live [OF files_reach_inv [OF one_row_reach(1) [of sample]]] live_in_def)
  have p: "fl_path (sent_row file_b) = RelPath ''a''" "path_ok (fl_path (sent_row file_b))"
    using sel(3) by (simp_all add: a_path)
  have room: "conflict_name (fl_path (sent_row file_b)) (fl_hash l) \<noteq> fl_path (sent_row file_b)"
    "x = fl_hash l \<or> x = fl_hash (sent_row file_b) \<Longrightarrow>
      read_row (one_row alice file_a) team (conflict_name (fl_path (sent_row file_b)) x) = Some f \<Longrightarrow> fl_hash f = x"
    if "read_row (one_row alice file_a) team (fl_path (sent_row file_b)) = Some l" for l x f
    using that by (auto simp: p(1) sel none conflict_a split: if_splits)
  from merge_keeps_content [OF one_row_reach(1) [of sample] p(2) sel(5) m room(1) room(2)]
  have "path_of_hash (one_row alice file_a) team ''aa'' \<noteq> None \<Longrightarrow> path_of_hash F team ''aa'' \<noteq> None"
    "path_of_hash F team ''bb'' \<noteq> None" using sel by (auto simp: p(1) none)
  with m a show ?thesis by blast
qed

end
