(* ===== verification/FileQuiet.thy ===== *)
theory FileQuiet
  imports FileMerge
begin

text \<open>
  Calls that leave a removal alone: what a merge does to the rest of a catalogue, which rows the other
  calls touch, and the runs of calls after which a removed path is still removed.
\<close>

section \<open>Catalogues\<close>

text \<open>The path is a tombstone for a content removed at a time or later, and the content is live nowhere.\<close>

definition sunk :: "catalogue \<Rightarrow> relpath \<Rightarrow> string \<Rightarrow> int \<Rightarrow> bool" where
  "sunk c p h at \<longleftrightarrow>
     (\<exists>e t. map_of c p = Some e \<and> ce_hash e = h \<and> ce_removed_at e = Some t \<and> at \<le> t) \<and> \<not> live_in c h"

lemma sunk_cong: "map_of c' = map_of c \<Longrightarrow> sunk c' p h at \<longleftrightarrow> sunk c p h at"
  by (simp add: sunk_def live_in_def)

lemma sunk_put:
  assumes "om_inv c" "sunk c p h at" "q \<noteq> p" "\<not> (ce_live e \<and> ce_hash e = h)"
  shows "sunk (om_put q e c) p h at"
  using assms by (auto simp: sunk_def live_in_def om_simps split: if_splits)

lemma sunk_live: "sunk c p h at \<Longrightarrow> map_of c q = Some f \<Longrightarrow> ce_live f \<Longrightarrow> q \<noteq> p \<and> ce_hash f \<noteq> h"
  unfolding sunk_def live_in_def ce_live_def by (metis option.distinct(1) option.inject)

lemma sunk_dedup:
  assumes om: "om_inv c" and s: "sunk c p h at" and q: "q \<noteq> p"
  shows "sunk (snd (cat_dedup q e (o1, c))) p h at"
proof (cases "ce_live e")
  case False
  with s show ?thesis by (simp add: cat_dedup_def)
next
  case live: True
  show ?thesis
  proof (cases "cat_twin c q (ce_hash e)")
    case None
    with s show ?thesis by (simp add: cat_dedup_def)
  next
    case (Some x)
    obtain k f where x: "x = (k, f)" by (cases x)
    have "k \<noteq> p" using sunk_live [OF s] cat_twin_Some [OF om Some [unfolded x]] by blast
    then have "sunk (om_put k (f\<lparr>ce_removed_at := Some t\<rparr>) c) p h at" for t
      by (intro sunk_put [OF om s]) (simp_all add: ce_live_def)
    moreover have "sunk (om_put q (e'\<lparr>ce_removed_at := Some t\<rparr>) c) p h at" for e' t
      by (intro sunk_put [OF om s q]) (simp add: ce_live_def)
    ultimately show ?thesis using live Some x s by (simp add: cat_dedup_def Let_def split: option.split)
  qed
qed

lemma sunk_merge_other:
  assumes om: "om_inv c" and s: "sunk c p h at" and q: "q \<noteq> p" and e: "\<not> (ce_live e \<and> ce_hash e = h)"
    and free: "conflict_name q (ce_hash e) \<noteq> p" "\<And>l. map_of c q = Some l \<Longrightarrow> conflict_name q (ce_hash l) \<noteq> p"
  shows "sunk (snd (cat_merge q e c)) p h at"
proof -
  have put: "sunk (snd (cat_dedup k x (o1, om_put k x c'))) p h at"
    if "om_inv c'" "sunk c' p h at" "k \<noteq> p" "\<not> (ce_live x \<and> ce_hash x = h)" for k x c' o1
    by (rule sunk_dedup [OF _ sunk_put [OF that]]) (use that om in \<open>simp_all\<close>)
  show ?thesis
  proof (cases "map_of c q")
    case None
    with put [OF om s q e] show ?thesis by (simp add: cat_merge_def)
  next
    case (Some l)
    have join: "\<not> (ce_live (ce_join l e) \<and> ce_hash (ce_join l e) = h)"
      using e by (auto simp: ce_join_def ce_live_def merge_removed_def split: option.splits)
    have moved: "sunk (om_put (conflict_name q (ce_hash l)) l c) p h at" if "ce_live l"
      using sunk_live [OF s Some that] free(2) [OF Some] by (intro sunk_put [OF om s]) simp_all
    show ?thesis
      using put [OF om s q join] put [OF om s q e] put [OF om s free(1) e] put [OF _ moved q e] sunk_dedup [OF om s q] Some s om
      by (simp add: cat_merge_def Let_def)
  qed
qed

lemma sunk_merge_same:
  assumes om: "om_inv c" and s: "sunk c p h at" and e: "ce_hash e = h \<or> (ce_changed_at e, ce_hash e) \<le> (at, h)"
  shows "sunk (snd (cat_merge p e c)) p h at"
proof -
  from s obtain l t where l: "map_of c p = Some l" "ce_hash l = h" "ce_removed_at l = Some t" "at \<le> t"
    by (auto simp: sunk_def)
  then have dead: "\<not> ce_live l" by (simp add: ce_live_def)
  show ?thesis
  proof (cases "ce_hash e = h")
    case True
    let ?j = "ce_join l e"
    obtain u where u: "ce_removed_at ?j = Some u" "at \<le> u"
      using l(3,4) by (cases "ce_removed_at e") (simp_all add: ce_join_def merge_removed_def max_def)
    then have j: "\<not> ce_live ?j" by (simp add: ce_live_def)
    have "\<not> live_in (om_put p ?j c) h" using s om j by (auto simp: sunk_def live_in_def om_simps split: if_splits)
    then have "sunk (om_put p ?j c) p h at" using u True om by (simp add: sunk_def om_simps) (simp add: ce_join_def)
    with s l True j show ?thesis by (simp add: cat_merge_def Let_def cat_dedup_def)
  next
    case False
    have "t \<le> ce_changed_at l" using l(3) by (simp add: ce_changed_at_def)
    with l(2,4) e False have "\<not> ce_wins e l" by (auto simp: ce_wins_def less_prod_def less_eq_prod_def)
    with s l(1,2) False dead show ?thesis by (simp add: cat_merge_def)
  qed
qed

section \<open>Which rows a call touches\<close>

text \<open>Every row is as before or one the call may have written.\<close>

definition drift :: "(group_id \<Rightarrow> relpath \<Rightarrow> file_row option) \<Rightarrow> (group_id \<Rightarrow> relpath \<Rightarrow> file_row option \<Rightarrow> bool) \<Rightarrow> files \<Rightarrow> bool" where
  "drift R W F \<longleftrightarrow> om_inv (f_rows F) \<and> (\<forall>k q. read_row F k q = R k q \<or> W k q (read_row F k q))"

lemma next_seq_rows: "f_rows (snd (next_seq g F)) = f_rows F" "read_row (snd (next_seq g F)) = read_row F"
  by (simp_all add: next_seq_def Let_def fun_eq_iff)

lemma drift_note: "drift R W F \<Longrightarrow> drift R W (note_local g at F)" "drift R W F \<Longrightarrow> drift R W (note_wanted g F)"
  by (simp_all add: drift_def note_local_def note_wanted_def)

lemma drift_step:
  assumes "drift R W F" "om_inv (f_rows F')" "\<And>k q. read_row F' k q = read_row F k q \<or> W k q (read_row F' k q)"
  shows "drift R W F'"
  unfolding drift_def
proof (intro conjI allI)
  fix k q show "read_row F' k q = R k q \<or> W k q (read_row F' k q)"
    using assms(1,3) unfolding drift_def by metis
qed (rule assms(2))

lemma drift_write:
  assumes "\<forall>b n. W g (fl_path row) (Some (row\<lparr>fl_have := b, fl_seen_seq := n\<rparr>))"
  shows "tx_ok (drift R W) (write_row g row h) (\<lambda>_. True)"
proof (rule tx_okI)
  fix s x s' assume d: "drift R W (fst s)" and w: "write_row g row h s = (Inr x, s')"
  have om: "om_inv (f_rows (snd (next_seq g (fst s))))" using d by (simp add: drift_def next_seq_rows)
  have "fst s' = put_row g (row\<lparr>fl_have := h, fl_seen_seq := x\<rparr>) (snd (next_seq g (fst s)))"
    using w by (auto simp: write_row_def case_prod_unfold Let_def split: if_splits)
  then have "drift R W (fst s')"
    by (intro drift_step [OF d]) (use om assms in \<open>auto simp: next_seq_rows\<close>)
  then show "drift R W (fst s') \<and> True" by simp
qed

lemma drift_tombstone:
  assumes "\<forall>x. W g p x"
  shows "tx_ok (drift R W) (tombstone_tx g p at) (\<lambda>_. True)"
proof (rule tx_okI)
  fix s x s' assume d: "drift R W (fst s)" and w: "tombstone_tx g p at s = (Inr x, s')"
  have om: "om_inv (f_rows (snd (next_seq g (fst s))))" using d by (simp add: drift_def next_seq_rows)
  obtain n where "fst s' = tombstone_at g p at n (snd (next_seq g (fst s)))"
    using w by (auto simp: tombstone_tx_def case_prod_unfold Let_def split: if_splits)
  then have "drift R W (fst s')"
    by (intro drift_step [OF d]) (use om assms in \<open>auto simp: next_seq_rows\<close>)
  then show "drift R W (fst s') \<and> True" by simp
qed

lemma drift_record:
  assumes "drift R W (fst s)" and w: "\<forall>b n. W g (fl_path row) (Some (row\<lparr>fl_have := b, fl_seen_seq := n\<rparr>))"
  shows "drift R W (fst (snd (files_record g row replace s)))"
proof -
  have "tx_ok (drift R W) (tx_bind (write_row g row (fl_have row)) (\<lambda>_.
      tx_bind (tx_update (note_local g (fl_added_at row))) (\<lambda>_. tx_return out))) (\<lambda>_. True)" for out
    by (rule tx_ok_bind [OF drift_write [where W = W and g = g and row = row, OF w]], rule tx_ok_bind [OF tx_ok_update])
      (simp_all add: drift_note tx_ok_return)
  then show ?thesis
    unfolding files_record_def
    by (intro transaction_keeps [where P = "drift R W"] tx_ok_bind [OF tx_ok_get [where Q = "\<lambda>_. True"]] assms(1))
      (auto simp: Let_def intro!: tx_ok_if tx_ok_return tx_ok_fail split: option.split)
qed

lemma drift_drop: "\<forall>q x. W g q x \<Longrightarrow> tx_ok (drift R W) (merge_drop root dir g keep gone) (\<lambda>_. True)"
  unfolding merge_drop_def
  by (intro tx_ok_bind [OF tx_ok_get [where Q = "\<lambda>_. True"]] tx_ok_bind [where Q = "\<lambda>_. True"] tx_ok_if tx_ok_return
      tx_ok_move_bytes tx_ok_remove_bytes drift_write drift_tombstone TrueI) simp_all

lemma drift_merge:
  assumes "drift R W (fst s)" and w: "\<forall>q x. W g q x"
  shows "drift R W (fst (snd (files_merge root g row dir s)))"
proof -
  have twin: "tx_ok (drift R W) (merge_twin root dir g settled outcome) (\<lambda>_. True)" for settled outcome
    unfolding merge_twin_def
    by (rule tx_ok_if, rule tx_ok_return, rule TrueI, rule tx_ok_bind [OF tx_ok_get [where Q = "\<lambda>_. True"]], rule TrueI)
      (auto simp: tx_ok_return drift_drop w split: option.split)
  have store: "tx_ok (drift R W) (merge_store g l settled outcome) (\<lambda>_. True)" for l settled outcome
    unfolding merge_store_def Let_def
    by (intro tx_ok_if tx_ok_return TrueI tx_ok_bind [OF drift_write] tx_ok_update drift_note) (simp_all add: w)
  have displace: "tx_ok (drift R W) (merge_displace root dir g displaced outcome) (\<lambda>_. True)" for displaced outcome
    by (cases displaced; simp only: merge_displace_def option.case Let_def)
      (intro tx_ok_return tx_ok_bind [where Q = "\<lambda>_. True"] tx_ok_if tx_ok_move_bytes drift_write TrueI; simp add: w)+
  show ?thesis
    unfolding files_merge_def
    by (intro transaction_keeps [where P = "drift R W"] tx_ok_bind [OF tx_ok_get [where Q = "\<lambda>_. True"]] assms(1) TrueI)
      (auto intro!: tx_ok_return tx_ok_bind [OF displace] tx_ok_bind [OF store] twin split: option.split)
qed

lemma remove_reads:
  assumes inv: "files_inv E F" and r: "read_row F g p = Some r" "\<not> is_removed r"
  shows "served_seq F g < fl_seen_seq r \<Longrightarrow> fst (files_remove g p at F) = Inr True
      \<and> read_row (snd (files_remove g p at F)) h q = (if h = g \<and> q = p then None else read_row F h q)"
    "fl_seen_seq r \<le> served_seq F g \<Longrightarrow> fst (files_remove g p at F) = Inr True \<Longrightarrow>
      read_row (snd (files_remove g p at F)) h q
        = (if h = g \<and> q = p then Some (r\<lparr>fl_removed_at := Some at, fl_have := False, fl_seen_seq := Suc (seq_in F g)\<rparr>)
           else read_row F h q)"
proof -
  note d = files_invD [OF inv]
  have rows: "om_inv (f_rows (snd (next_seq g F)))" "read_row (snd (next_seq g F)) = read_row F"
    using d(2) by (simp_all add: fun_eq_iff next_seq_facts(2) [OF d(4)])
  show "fst (files_remove g p at F) = Inr True
      \<and> read_row (snd (files_remove g p at F)) h q = (if h = g \<and> q = p then None else read_row F h q)"
    if "served_seq F g < fl_seen_seq r"
    using that r rows by (simp add: files_remove_def case_prod_unfold Let_def note_local_def)
  show "read_row (snd (files_remove g p at F)) h q
        = (if h = g \<and> q = p then Some (r\<lparr>fl_removed_at := Some at, fl_have := False, fl_seen_seq := Suc (seq_in F g)\<rparr>)
           else read_row F h q)" if "fl_seen_seq r \<le> served_seq F g" "fst (files_remove g p at F) = Inr True"
    using that r rows
    by (auto simp: files_remove_def case_prod_unfold Let_def note_local_def next_seq_facts(1) [OF d(4)] split: if_splits)
qed

lemma remove_drift:
  assumes inv: "files_inv E F"
  shows "read_row (snd (files_remove k q at F)) h x = read_row F h x
    \<or> h = k \<and> x = q \<and> (\<exists>r. read_row F k q = Some r \<and> \<not> is_removed r)
      \<and> (\<forall>r. read_row (snd (files_remove k q at F)) h x = Some r \<longrightarrow> is_removed r)"
proof (cases "\<exists>r. read_row F k q = Some r \<and> \<not> is_removed r")
  case False
  then have "snd (files_remove k q at F) = F" by (auto simp: files_remove_def split: option.split)
  then show ?thesis by simp
next
  case True
  then obtain r where r: "read_row F k q = Some r" "\<not> is_removed r" by blast
  show ?thesis
  proof (cases "served_seq F k < fl_seen_seq r")
    case True
    from remove_reads(1) [OF inv r True] r show ?thesis by auto
  next
    case False
    show ?thesis
    proof (cases "fst (files_remove k q at F) = Inr True")
      case True
      from remove_reads(2) [OF inv r _ True] False r show ?thesis by (auto simp: is_removed_def)
    next
      case failed: False
      with r False have "snd (files_remove k q at F) = F"
        by (auto simp: files_remove_def case_prod_unfold Let_def split: if_splits)
      then show ?thesis by simp
    qed
  qed
qed

section \<open>Runs of calls after a removal\<close>

text \<open>A row whose merge cannot bring back what was removed at \<open>at\<close> under path \<open>p\<close> with content \<open>h\<close>.\<close>

definition harmless :: "group_id \<Rightarrow> relpath \<Rightarrow> string \<Rightarrow> int \<Rightarrow> files \<Rightarrow> group_id \<Rightarrow> file_row \<Rightarrow> bool" where
  "harmless g p h at F k row \<longleftrightarrow>
     k \<noteq> g \<or>
     (if fl_path row = p then fl_hash row = h \<or> (changed_at row, fl_hash row) \<le> (at, h)
      else (is_removed row \<or> fl_hash row \<noteq> h) \<and> conflict_name (fl_path row) (fl_hash row) \<noteq> p
        \<and> (case read_row F g (fl_path row) of
              None \<Rightarrow> True | Some l \<Rightarrow> conflict_name (fl_path row) (fl_hash l) \<noteq> p))"

inductive later_calls :: "env \<Rightarrow> group_id \<Rightarrow> relpath \<Rightarrow> string \<Rightarrow> int \<Rightarrow> files \<Rightarrow> files \<Rightarrow> bool"
  for E g p h at F0 where
  none: "later_calls E g p h at F0 F0"
| merge: "later_calls E g p h at F0 F \<Longrightarrow> path_ok (fl_path row) \<Longrightarrow> harmless g p h at F k row \<Longrightarrow>
    later_calls E g p h at F0 (fst (snd (files_merge root k row dir (F, disk))))"
| recorded: "later_calls E g p h at F0 F \<Longrightarrow> path_ok (fl_path row) \<Longrightarrow> k \<noteq> g \<or> fl_path row \<noteq> p \<and> fl_hash row \<noteq> h \<Longrightarrow>
    later_calls E g p h at F0 (fst (snd (files_record k row replace (F, disk))))"
| remove: "later_calls E g p h at F0 F \<Longrightarrow> later_calls E g p h at F0 (snd (files_remove k q t F))"
| have_it: "later_calls E g p h at F0 F \<Longrightarrow> later_calls E g p h at F0 (mark_have k q b F)"
| dir: "later_calls E g p h at F0 F \<Longrightarrow> later_calls E g p h at F0 (snd (files_dir_for k name F))"
| changes: "later_calls E g p h at F0 F \<Longrightarrow> later_calls E g p h at F0 (snd (changes_since k c n F))"
| digest: "later_calls E g p h at F0 F \<Longrightarrow> later_calls E g p h at F0 (snd (files_digest E k F))"
| cursor: "later_calls E g p h at F0 F \<Longrightarrow> later_calls E g p h at F0 (set_cursor k who c F)"
| wanted: "later_calls E g p h at F0 F \<Longrightarrow> later_calls E g p h at F0 (wanted_again k F)"
| seen: "later_calls E g p h at F0 F \<Longrightarrow> later_calls E g p h at F0 (wanted_seen k F)"
| told: "later_calls E g p h at F0 F \<Longrightarrow> later_calls E g p h at F0 (news_told k F)"

text \<open>What a call may do to the rows of the group without raising the file.\<close>

lemma sunk_reads:
  assumes inv: "files_inv E F" "files_inv E F'" and s: "sunk (catalogue_of F g) p h at"
    and rows: "\<And>q. read_row F' g q = read_row F g q
      \<or> q \<noteq> p \<and> (\<forall>r. read_row F' g q = Some r \<longrightarrow> is_removed r \<or> fl_hash r \<noteq> h)"
  shows "sunk (catalogue_of F' g) p h at"
proof -
  have "map_of (catalogue_of F' g) p = map_of (catalogue_of F g) p"
    using rows [of p] by (simp add: catalogue_get [OF inv(1)] catalogue_get [OF inv(2)])
  moreover have "\<not> live_in (catalogue_of F' g) h"
  proof
    assume "live_in (catalogue_of F' g) h"
    then obtain q r where q: "read_row F' g q = Some r" "\<not> is_removed r" "fl_hash r = h"
      by (auto simp: live_in_def catalogue_get [OF inv(2)])
    with rows [of q] have "read_row F g q = Some r" by auto
    then have "map_of (catalogue_of F g) q = Some (entry_of r)" by (simp add: catalogue_get [OF inv(1)])
    with q(2,3) have "live_in (catalogue_of F g) h" unfolding live_in_def by (intro exI [of _ q] exI [of _ "entry_of r"]) simp
    with s show False by (simp add: sunk_def)
  qed
  ultimately show ?thesis using s by (simp add: sunk_def)
qed

lemma sunk_rows: "f_rows F' = f_rows F \<Longrightarrow> sunk (catalogue_of F' g) p h at \<longleftrightarrow> sunk (catalogue_of F g) p h at"
  using catalogue_same [of F' F g] by simp

lemma transaction_failed: "transaction m s = (Inl e, s') \<Longrightarrow> fst s' = fst s"
proof -
  assume t: "transaction m s = (Inl e, s')"
  obtain r u where m: "m s = (r, u)" by (rule prod.exhaust)
  from t show "fst s' = fst s" unfolding transaction_def m by (cases r) auto
qed

lemma merge_failed: "files_merge root k row dir (F, disk) = (Inl e, s') \<Longrightarrow> fst s' = F"
  unfolding files_merge_def by (drule transaction_failed) simp

lemma later_merge:
  assumes inv: "files_inv E F" and s: "sunk (catalogue_of F g) p h at" and row: "path_ok (fl_path row)"
    and ok: "harmless g p h at F k row"
  shows "sunk (catalogue_of (fst (snd (files_merge root k row dir (F, disk)))) g) p h at"
proof -
  let ?m = "files_merge root k row dir (F, disk)"
  have inv': "files_inv E (fst (snd ?m))" using inv row by (intro files_inv_merge) simp_all
  show ?thesis
  proof (cases "k = g")
    case False
    have "drift (read_row F) (\<lambda>k' q x. k' = k) F" using files_invD(2) [OF inv] by (simp add: drift_def)
    then have "drift (read_row F) (\<lambda>k' q x. k' = k) (fst (snd ?m))" by (intro drift_merge) simp_all
    then have "read_row (fst (snd ?m)) g q = read_row F g q" for q using False by (auto simp: drift_def)
    then show ?thesis by (intro sunk_reads [OF inv inv' s]) simp
  next
    case k: True
    show ?thesis
    proof (cases "fst ?m")
      case (Inl e)
      then have "fst (snd ?m) = F" using merge_failed [of root k row dir F disk e "snd ?m"] by (metis prod.collapse)
      with s show ?thesis by simp
    next
      case (Inr out)
      then have "?m = (Inr out, snd ?m)" by (metis prod.collapse)
      from merge_cat [of E "(F, disk)", OF _ row this] inv
      have "(out, catalogue_of (fst (snd ?m)) k) = cat_merge (fl_path row) (entry_of row) (catalogue_of F k)" by simp
      then have c: "catalogue_of (fst (snd ?m)) g = snd (cat_merge (fl_path row) (entry_of row) (catalogue_of F g))"
        using k by (metis snd_conv)
      note om = catalogue_inv [OF inv, of g]
      show ?thesis
      proof (cases "fl_path row = p")
        case True
        have "ce_changed_at (entry_of row) = changed_at row"
          by (cases "fl_removed_at row") (simp_all add: ce_changed_at_def changed_at_def)
        moreover have "fl_hash row = h \<or> (changed_at row, fl_hash row) \<le> (at, h)" using True ok k by (simp add: harmless_def)
        ultimately have "ce_hash (entry_of row) = h \<or> (ce_changed_at (entry_of row), ce_hash (entry_of row)) \<le> (at, h)" by simp
        from sunk_merge_same [OF om s this] show ?thesis by (simp only: c True)
      next
        case False
        with ok k have x: "is_removed row \<or> fl_hash row \<noteq> h" "conflict_name (fl_path row) (fl_hash row) \<noteq> p"
          "\<And>l. read_row F g (fl_path row) = Some l \<Longrightarrow> conflict_name (fl_path row) (fl_hash l) \<noteq> p"
          by (auto simp: harmless_def)
        show ?thesis unfolding c
          by (rule sunk_merge_other [OF om s False]) (use x in \<open>auto simp: catalogue_get [OF inv]\<close>)
      qed
    qed
  qed
qed

lemma later_record:
  assumes inv: "files_inv E F" and s: "sunk (catalogue_of F g) p h at" and row: "path_ok (fl_path row)"
    and ok: "k \<noteq> g \<or> fl_path row \<noteq> p \<and> fl_hash row \<noteq> h"
  shows "sunk (catalogue_of (fst (snd (files_record k row replace (F, disk)))) g) p h at"
proof -
  let ?W = "\<lambda>k' q x. k' = k \<and> q = fl_path row \<and> (\<exists>r. x = Some r \<and> fl_hash r = fl_hash row)"
  let ?F = "fst (snd (files_record k row replace (F, disk)))"
  have inv': "files_inv E ?F" using inv row by (intro files_inv_record) simp_all
  have "drift (read_row F) ?W F" using files_invD(2) [OF inv] by (simp add: drift_def)
  then have d: "drift (read_row F) ?W ?F" by (intro drift_record) simp_all
  show ?thesis
  proof (rule sunk_reads [OF inv inv' s])
    fix q
    from d have "read_row ?F g q = read_row F g q \<or> ?W g q (read_row ?F g q)" unfolding drift_def by blast
    with ok show "read_row ?F g q = read_row F g q
        \<or> q \<noteq> p \<and> (\<forall>r. read_row ?F g q = Some r \<longrightarrow> is_removed r \<or> fl_hash r \<noteq> h)" by auto
  qed
qed

lemma later_remove:
  assumes inv: "files_inv E F" and s: "sunk (catalogue_of F g) p h at"
  shows "sunk (catalogue_of (snd (files_remove k q t F)) g) p h at"
proof (rule sunk_reads [OF inv files_inv_remove [OF inv] s])
  fix x
  from s obtain l where "read_row F g p = Some l" "is_removed l"
    by (auto simp: sunk_def catalogue_get [OF inv] is_removed_def)
  with remove_drift [OF inv, of k q t g x] show "read_row (snd (files_remove k q t F)) g x = read_row F g x
      \<or> x \<noteq> p \<and> (\<forall>r. read_row (snd (files_remove k q t F)) g x = Some r \<longrightarrow> is_removed r \<or> fl_hash r \<noteq> h)"
    by auto
qed

lemma later_have:
  assumes inv: "files_inv E F" and s: "sunk (catalogue_of F g) p h at"
  shows "sunk (catalogue_of (mark_have k q b F) g) p h at"
proof -
  have "map_of (catalogue_of (mark_have k q b F) g) x = map_of (catalogue_of F g) x" for x
    by (cases "read_row F k q") (simp_all add: catalogue_get [OF inv] catalogue_get [OF files_inv_mark_have [OF inv]]
        files_invD(2) [OF inv] entry_of_def)
  then have "map_of (catalogue_of (mark_have k q b F) g) = map_of (catalogue_of F g)" ..
  with s show ?thesis using sunk_cong by blast
qed

lemma later_sunk:
  "later_calls E g p h at F0 F \<Longrightarrow> files_inv E F0 \<Longrightarrow> sunk (catalogue_of F0 g) p h at \<Longrightarrow>
     files_inv E F \<and> sunk (catalogue_of F g) p h at"
proof (induction rule: later_calls.induct)
  case (merge F row k root dir disk)
  then have F: "files_inv E F" "sunk (catalogue_of F g) p h at" by simp_all
  from files_inv_merge [of E "(F, disk)"] later_merge [OF F merge.hyps(2,3)] F merge.hyps(2) show ?case by simp
next
  case (recorded F row k replace disk)
  then have F: "files_inv E F" "sunk (catalogue_of F g) p h at" by simp_all
  from files_inv_record [of E "(F, disk)"] later_record [OF F recorded.hyps(2,3)] F recorded.hyps(2) show ?case by simp
next
  case (digest F k)
  then show ?case using files_digest_fresh(2,4) sunk_rows by blast
next
  case (dir F k name)
  have "f_rows (snd (files_dir_for k name F)) = f_rows F"
    by (simp add: files_dir_for_def Let_def split: option.split)
  with dir show ?case using files_inv_dir_for sunk_rows by blast
next
  case (changes F k c n)
  have "f_rows (snd (changes_since k c n F)) = f_rows F" by (simp add: changes_since_def Let_def)
  with changes show ?case using files_inv_changes sunk_rows by blast
next
  case (cursor F k who c)
  have "f_rows (set_cursor k who c F) = f_rows F" by (simp add: set_cursor_def)
  with cursor show ?case using files_inv_sync sunk_rows by blast
next
  case (wanted F k)
  have "f_rows (wanted_again k F) = f_rows F" by (simp add: wanted_again_def note_wanted_def)
  with wanted show ?case using files_inv_note(4) sunk_rows by blast
next
  case (seen F k)
  have "f_rows (wanted_seen k F) = f_rows F" by (simp add: wanted_seen_def split: option.split)
  with seen show ?case using files_inv_wanted_seen sunk_rows by blast
next
  case (told F k)
  have "f_rows (news_told k F) = f_rows F" by (simp add: news_told_def)
  with told show ?case using files_inv_note(3) sunk_rows by blast
next
  case (remove F k q t)
  then show ?case using files_inv_remove later_remove by blast
next
  case (have_it F k q b)
  then show ?case using files_inv_mark_have later_have by blast
qed simp

end
