(* ===== verification/FileLosses.thy ===== *)
theory FileLosses
  imports FileQuiet
begin

text \<open>
  Two ways the file index loses what it promises to keep: a conflict at a path too long to be given
  another name, and the removal of a row another node still has. Then the case where
  a removal does hold.
\<close>

section \<open>A conflict without a name to go to\<close>

text \<open>C34. A conflict at a path without room for the mark loses the local file. When the derived name of the
  incoming content is the path itself (it does not fit and the code falls back to the same path),
  the incoming row does not win and neither content is live under another path, \<open>merge\<close> still writes it, over the
  winner: the call reports \<open>Applied\<close>, the path names the loser's content, and no row names the winner's.\<close>

theorem conflict_overwrites_winner:
  assumes "files_reach E me F" "read_row F g (fl_path incoming) = Some l"
    and live: "\<not> is_removed l" "\<not> is_removed incoming"
    and "fl_hash l \<noteq> fl_hash incoming" "\<not> wins_path incoming l"
    and same: "conflict_name (fl_path incoming) (fl_hash incoming) = fl_path incoming"
    and alone: "alone (catalogue_of F g) (fl_path incoming) {fl_hash l, fl_hash incoming}"
    and m: "files_merge root g incoming dir (F, disk) = (Inr out, (F', disk'))"
  shows "out = MApplied \<and> path_of_hash F' g (fl_hash l) = None
    \<and> map_of (catalogue_of F' g) (fl_path incoming) = Some (entry_of incoming)"
proof -
  let ?p = "fl_path incoming" and ?e = "entry_of incoming" and ?c = "catalogue_of F g"
  have inv: "files_inv E F" using assms(1) by (rule files_reach_inv)
  have "fl_path l = ?p" "path_ok ?p" using files_invD(6) [OF inv assms(2)] by (simp_all add: row_ok_def)
  then have inv': "files_inv E F'" using files_inv_merge [of E "(F, disk)" incoming root g dir] inv m by simp
  have om: "om_inv ?c" using inv by (rule catalogue_inv)
  have l: "map_of ?c ?p = Some (entry_of l)" using assms(2) by (simp add: catalogue_get [OF inv])
  have a: "alone (om_put ?p ?e ?c) ?p {fl_hash incoming}" "alone (om_put ?p ?e ?c) ?p {fl_hash l}"
    using alone om by (auto simp: alone_def om_simps)
  have "cat_merge ?p ?e ?c = cat_dedup ?p ?e (MApplied, om_put ?p ?e ?c)"
    using assms l by (simp add: cat_merge_def Let_def)
  also have "\<dots> = (MApplied, om_put ?p ?e ?c)" using a(1) om by (simp add: cat_dedup_alone)
  finally have eq: "cat_merge ?p ?e ?c = (MApplied, om_put ?p ?e ?c)" .
  have "(out, catalogue_of F' g) = cat_merge ?p ?e ?c"
    using merge_cat [of E "(F, disk)" incoming, OF _ \<open>path_ok ?p\<close> m] inv by simp
  then have out: "out = MApplied" and c': "catalogue_of F' g = om_put ?p ?e ?c" by (simp_all add: eq)
  have "\<not> live_in (om_put ?p ?e ?c) (fl_hash l)"
  proof
    assume "live_in (om_put ?p ?e ?c) (fl_hash l)"
    then obtain q f where "map_of (om_put ?p ?e ?c) q = Some f" "ce_live f" "ce_hash f = fl_hash l"
      by (auto simp: live_in_def)
    moreover from this a(2) have "q = ?p" by (auto simp: alone_def)
    ultimately show False using assms(5) om by (auto simp: om_simps)
  qed
  then show ?thesis using om by (simp add: out c' path_of_hash_live [OF inv'] om_simps)
qed

text \<open>Such a path: 1023 bytes, one-letter directories all the way down.\<close>

definition hash_a :: string where "hash_a = replicate 64 CHR ''a''"
definition hash_b :: string where "hash_b = replicate 64 CHR ''b''"

definition row_at :: "relpath \<Rightarrow> string \<Rightarrow> int \<Rightarrow> file_row" where
  "row_at p hash at = \<lparr>fl_path = p, fl_size = 5, fl_hash = hash, fl_modified = 0, fl_added_at = at,
     fl_added_by = bob, fl_removed_at = None, fl_have = False, fl_seen_seq = 1\<rparr>"

lemma row_at_sel [simp]: "fl_path (row_at p h t) = p" "fl_hash (row_at p h t) = h" "fl_added_at (row_at p h t) = t"
  "fl_removed_at (row_at p h t) = None" "\<not> is_removed (row_at p h t)" "fl_have (row_at p h t) = False" "fl_size (row_at p h t) = 5"
  by (simp_all add: row_at_def is_removed_def)

lemma row_at_seq [simp]: "row_at p h t\<lparr>fl_have := False, fl_seen_seq := Suc 0\<rparr> = row_at p h t"
  by (simp add: row_at_def)

lemma record_at: "files_record team (row_at p h t) True (files_new alice, []) =
    (Inr RecAdded, (\<lparr>f_me = alice, f_roots = [], f_rows = [((team, p), row_at p h t)], f_sync = [],
       f_state = [(team, file_state_default\<lparr>fs_last_change := t, fs_changes := 1, fs_seq := 1\<rparr>)]\<rparr>, []))"
  by (simp add: files_eval)

lemma wins_at: "wins_path (row_at p h t) (row_at q k u) \<longleftrightarrow> (u, k) < (t, h)"
  by (simp add: wins_path_def changed_at_def)

theorem conflict_overwrites_winner_witness:
  "\<exists>p F F'. files_record team (row_at p hash_a 9) True (files_new alice, []) = (Inr RecAdded, (F, []))
     \<and> files_merge [] team (row_at p hash_b 7) ''d'' (F, []) = (Inr MApplied, (F', []))
     \<and> path_of_hash F team hash_a = Some p \<and> path_of_hash F' team hash_a = None"
proof -
  obtain p where p: "path_ok p" and fall: "length hash = 64 \<Longrightarrow> conflict_name p hash = p" for hash
    using conflict_name_can_collide by (metis parse_path_ok)
  define F where "F = fst (snd (files_record team (row_at p hash_a 9) True (files_new alice, [])))"
  have F: "F = \<lparr>f_me = alice, f_roots = [], f_rows = [((team, p), row_at p hash_a 9)], f_sync = [],
       f_state = [(team, file_state_default\<lparr>fs_last_change := 9, fs_changes := 1, fs_seq := 1\<rparr>)]\<rparr>"
    by (simp add: F_def record_at)
  have reach: "files_reach sample alice F" unfolding F_def by (rule files_reach.recorded [OF files_reach.new]) (simp add: p)
  have read: "read_row F team (fl_path (row_at p hash_b 7)) = Some (row_at p hash_a 9)" by (simp add: F read_row_def)
  have hash: "hash_a \<noteq> hash_b" "conflict_name p hash_b = p" by (simp_all add: hash_a_def hash_b_def fall)
  have alone: "alone (catalogue_of F team) p X" for X by (simp add: F alone_def catalogue_of_def rows_in_def)
  have wins: "\<not> wins_path (row_at p hash_b 7) (row_at p hash_a 9)" by (simp add: wins_at)
  have "\<exists>F'. files_merge [] team (row_at p hash_b 7) ''d'' (F, []) = (Inr MApplied, (F', []))"
    unfolding F using hash wins by (simp add: files_eval)
  then obtain F' where m: "files_merge [] team (row_at p hash_b 7) ''d'' (F, []) = (Inr MApplied, (F', []))" ..
  have "path_of_hash F team hash_a = Some p" by (simp add: F path_of_hash_def rows_in_def oldest_first_def)
  moreover have "path_of_hash F' team hash_a = None"
    using conflict_overwrites_winner [OF reach read _ _ _ _ _ _ m] hash wins alone by simp
  moreover have "files_record team (row_at p hash_a 9) True (files_new alice, []) = (Inr RecAdded, (F, []))"
    by (simp add: F record_at)
  ultimately show ?thesis using m by blast
qed

section \<open>Removals\<close>

text \<open>C33. A removal that was not served can be undone by any peer that has the row. The code deletes a row above
  \<open>served_seq\<close> outright, taking it to be known to nobody else; a row learned from a peer is also
  above it. When that peer sends its row again, and no other path has the same content live, \<open>merge\<close> finds nothing
  at the path and the file is live again, exactly as it was.\<close>

theorem removal_undone:
  assumes "files_reach E me F" "read_row F g p = Some r" "\<not> is_removed r" "served_seq F g < fl_seen_seq r"
    and alone: "alone (catalogue_of F g) p {fl_hash r}"
    and m: "files_merge root g (sent_row r) dir (snd (files_remove g p at F), disk) = (Inr out, (F', disk'))"
  shows "fst (files_remove g p at F) = Inr True \<and> out = MApplied
    \<and> map_of (catalogue_of F' g) p = Some (entry_of r)"
proof -
  let ?R = "snd (files_remove g p at F)"
  have inv: "files_inv E F" "files_inv E ?R" using files_reach_inv [OF assms(1)] by (simp_all add: files_inv_remove)
  note rd = remove_reads(1) [OF inv(1) assms(2,3,4), of at]
  have p: "fl_path (sent_row r) = p" "path_ok (fl_path (sent_row r))"
    using files_invD(6) [OF inv(1) assms(2)] by (simp_all add: row_ok_def)
  let ?c = "catalogue_of ?R g"
  have om: "om_inv ?c" using inv(2) by (rule catalogue_inv)
  have none: "map_of ?c p = None" using rd by (simp add: catalogue_get [OF inv(2)])
  have "alone (om_put p (entry_of r) ?c) p {fl_hash r}"
    using alone rd om by (auto simp: alone_def om_simps catalogue_get [OF inv(2)] catalogue_get [OF inv(1)])
  then have "cat_merge p (entry_of r) ?c = (MApplied, om_put p (entry_of r) ?c)"
    using none om by (simp add: cat_merge_def cat_dedup_alone)
  moreover have "(out, catalogue_of F' g) = cat_merge p (entry_of r) ?c"
    using merge_cat [of E "(?R, disk)" "sent_row r", OF _ p(2) m] inv p(1) by simp
  ultimately have "out = MApplied" "catalogue_of F' g = om_put p (entry_of r) ?c" by simp_all
  then show ?thesis using rd om by (simp add: om_simps)
qed

definition learned :: files where
  "learned = fst (snd (files_merge [] team file_a ''d'' (files_new alice, [])))"

lemma learned_eq: "learned = \<lparr>f_me = alice, f_roots = [], f_rows = [((team, RelPath ''a''), file_a)],
   f_sync = [], f_state = [(team, file_state_default\<lparr>fs_wanted := 1, fs_seq := 1\<rparr>)]\<rparr>"
  by (simp add: learned_def files_eval file_a_def)

lemma learned_reach: "files_reach E alice learned"
  unfolding learned_def by (rule files_reach.merge [OF files_reach.new]) (simp add: file_a_def a_path)

theorem removal_undone_witness:
  "\<exists>F'. fst (files_remove team (RelPath ''a'') 50 learned) = Inr True
     \<and> files_merge [] team (sent_row file_a) ''d'' (snd (files_remove team (RelPath ''a'') 50 learned), []) = (Inr MApplied, (F', []))
     \<and> map_of (catalogue_of F' team) (RelPath ''a'') = Some (entry_of file_a)"
proof -
  have read: "read_row learned team (RelPath ''a'') = Some file_a" by (simp add: learned_eq read_row_def)
  have a: "\<not> is_removed file_a" "served_seq learned team < fl_seen_seq file_a"
    by (simp_all add: file_a_def is_removed_def learned_eq served_seq_def file_state_default_def)
  have alone: "alone (catalogue_of learned team) (RelPath ''a'') {fl_hash file_a}"
    by (simp add: alone_def catalogue_of_def rows_in_def learned_eq file_a_def)
  have "\<exists>F'. files_merge [] team (sent_row file_a) ''d'' (snd (files_remove team (RelPath ''a'') 50 learned), []) = (Inr MApplied, (F', []))"
    unfolding learned_eq by (simp add: om_del_def files_remove_def delete_row_def served_seq_def files_eval file_a_def sent_row_def)
  then obtain F' where m: "files_merge [] team (sent_row file_a) ''d'' (snd (files_remove team (RelPath ''a'') 50 learned), []) = (Inr MApplied, (F', []))" ..
  from removal_undone [OF learned_reach [of sample] read a alone m] m show ?thesis by blast
qed

text \<open>C19. A removal that leaves a tombstone holds. When the row had been served and no other live row has its
  content, the removal keeps the row as a tombstone, and after any run of later calls that does not
  bring the file back it is still removed, for the same content, and that content has no live row. A run may merge any
  rows into this or other groups, record files and make every other call, with three restrictions for this group: a row merged
  for the path itself has the same content or was changed no later than the removal (ties going to the
  smaller hash); a row merged for another path has another content or is removed, and neither its own nor the local
  row's conflict name is this path; a file recorded has another path and another content.\<close>

theorem removal_sticks:
  assumes "files_reach E me F" "read_row F g p = Some r" "\<not> is_removed r" "fl_seen_seq r \<le> served_seq F g"
    and ok: "fst (files_remove g p at F) = Inr True"
    and alone: "alone (catalogue_of F g) p {fl_hash r}"
    and later: "later_calls E g p (fl_hash r) at (snd (files_remove g p at F)) F'"
  shows "\<exists>r'. read_row F' g p = Some r' \<and> is_removed r' \<and> fl_hash r' = fl_hash r \<and> path_of_hash F' g (fl_hash r) = None"
proof -
  let ?R = "snd (files_remove g p at F)"
  have inv: "files_inv E F" "files_inv E ?R" using files_reach_inv [OF assms(1)] by (simp_all add: files_inv_remove)
  note rd = remove_reads(2) [OF inv(1) assms(2,3,4) ok]
  have t: "map_of (catalogue_of ?R g) p = Some ((entry_of r)\<lparr>ce_removed_at := Some at\<rparr>)"
    by (simp add: rd catalogue_get [OF inv(2)])
  have others: "map_of (catalogue_of ?R g) q = map_of (catalogue_of F g) q" if "q \<noteq> p" for q
    using that by (simp add: rd catalogue_get [OF inv(2)] catalogue_get [OF inv(1)])
  have "\<not> live_in (catalogue_of ?R g) (fl_hash r)"
  proof
    assume "live_in (catalogue_of ?R g) (fl_hash r)"
    then obtain q f where f: "map_of (catalogue_of ?R g) q = Some f" "ce_live f" "ce_hash f = fl_hash r" by (auto simp: live_in_def)
    then have "q \<noteq> p" using t by (auto simp: ce_live_def)
    with f others alone show False by (auto simp: alone_def)
  qed
  with t have "sunk (catalogue_of ?R g) p (fl_hash r) at" by (simp add: sunk_def)
  from later_sunk [OF later inv(2) this] have inv': "files_inv E F'" and sunk: "sunk (catalogue_of F' g) p (fl_hash r) at" by simp_all
  from sunk obtain e x where e: "map_of (catalogue_of F' g) p = Some e" "ce_hash e = fl_hash r" "ce_removed_at e = Some x"
    by (auto simp: sunk_def)
  then obtain r' where "read_row F' g p = Some r'" "e = entry_of r'" by (auto simp: catalogue_get [OF inv'])
  with e sunk show ?thesis by (auto simp: path_of_hash_live [OF inv'] sunk_def is_removed_def)
qed

definition served :: files where
  "served = snd (changes_since team 0 10 learned)"

lemma served_eq: "served = \<lparr>f_me = alice, f_roots = [], f_rows = [((team, RelPath ''a''), file_a)],
   f_sync = [], f_state = [(team, file_state_default\<lparr>fs_wanted := 1, fs_seq := 1, fs_served_seq := 1\<rparr>)]\<rparr>"
  by (simp add: served_def learned_eq changes_since_def rows_in_def file_a_def state_upsert_def state_of_def i64_clamp_def
      I64_MAX_def file_state_default_def Let_def)

theorem removal_sticks_witness:
  "\<exists>F' r'. fst (files_remove team (RelPath ''a'') 50 served) = Inr True
     \<and> F' = fst (snd (files_merge [] team (sent_row file_b) ''d''
         (fst (snd (files_merge [] team (sent_row file_a) ''d'' (snd (files_remove team (RelPath ''a'') 50 served), []))), [])))
     \<and> read_row F' team (RelPath ''a'') = Some r' \<and> is_removed r' \<and> path_of_hash F' team ''aa'' = None"
proof -
  have reach: "files_reach sample alice served" unfolding served_def by (rule files_reach.changes [OF learned_reach])
  have read: "read_row served team (RelPath ''a'') = Some file_a" by (simp add: served_eq read_row_def)
  have a: "\<not> is_removed file_a" "fl_seen_seq file_a \<le> served_seq served team" "fl_hash file_a = ''aa''"
    by (simp_all add: file_a_def is_removed_def served_eq served_seq_def file_state_default_def)
  have alone: "alone (catalogue_of served team) (RelPath ''a'') {fl_hash file_a}"
    by (simp add: alone_def catalogue_of_def rows_in_def served_eq file_a_def)
  have ok: "fst (files_remove team (RelPath ''a'') 50 served) = Inr True"
    unfolding served_eq by (simp add: files_remove_def served_seq_def files_eval file_a_def file_state_default_def)
  let ?R = "snd (files_remove team (RelPath ''a'') 50 served)"
  let ?M = "fst (snd (files_merge [] team (sent_row file_a) ''d'' (?R, [])))"
  have rows: "path_ok (fl_path (sent_row file_a))" "path_ok (fl_path (sent_row file_b))"
    by (simp_all add: file_a_def file_b_def a_path)
  have "harmless team (RelPath ''a'') (fl_hash file_a) 50 ?R team (sent_row file_a)"
    by (simp add: harmless_def sent_row_def file_a_def)
  then have later: "later_calls sample team (RelPath ''a'') (fl_hash file_a) 50 ?R ?M"
    by (rule later_calls.merge [OF later_calls.none rows(1)])
  have "harmless team (RelPath ''a'') (fl_hash file_a) 50 ?M team (sent_row file_b)"
    by (simp add: harmless_def sent_row_def file_a_def file_b_def changed_at_def)
  note two = later_calls.merge [OF later rows(2) this, of "[]" "''d''" "[]"]
  from removal_sticks [OF reach read a(1,2) ok alone two] ok show ?thesis by (auto simp: a(3))
qed

end
