(* ===== verification/FileLogTheorems.thy ===== *)
theory FileLogTheorems
  imports FileLosses
begin

text \<open>
  What the per-group log and the directories of the file index promise: equal digests mean equal
  catalogues, reading the log page by page yields every later row once and ends, and a group keeps
  the directory it was first given.
\<close>

section \<open>The digest tells catalogues apart\<close>

lemma be8_append: "be_bytes8 v @ x = be_bytes8 w @ y \<longleftrightarrow> v = w \<and> x = y"
  by (simp add: append_eq_append_conv be_bytes8_inj)

definition fits_u64 :: "nat \<Rightarrow> bool" where
  "fits_u64 n \<longleftrightarrow> n < 2 ^ 64"

definition fits_i64 :: "int \<Rightarrow> bool" where
  "fits_i64 i \<longleftrightarrow> - (2 ^ 63) \<le> i \<and> i < 2 ^ 63"

lemma len_bytes_append: "fits_u64 (length s) \<Longrightarrow> fits_u64 (length t) \<Longrightarrow> len_bytes s @ x = len_bytes t @ y \<longleftrightarrow> s = t \<and> x = y"
proof -
  assume fits: "fits_u64 (length s)" "fits_u64 (length t)"
  have len: "(of_nat (length s) :: u64) = of_nat (length t) \<longleftrightarrow> length s = length t"
    using fits by (auto simp: fits_u64_def dest!: arg_cong [where f = unat] simp: unat_of_nat)
  show ?thesis by (auto simp: len_bytes_def be8_append len str_bytes_inj append_eq_append_conv)
qed

lemma i64_bytes_append: "fits_i64 i \<Longrightarrow> fits_i64 j \<Longrightarrow> i64_bytes i @ x = i64_bytes j @ y \<longleftrightarrow> i = j \<and> x = y"
proof -
  assume fits: "fits_i64 i" "fits_i64 j"
  have "(of_int i :: u64) = of_int j \<longleftrightarrow> i = j"
  proof
    assume "(of_int i :: u64) = of_int j"
    then have "i mod 2 ^ 64 = j mod 2 ^ 64" by (simp add: word_of_int_eq_iff take_bit_eq_mod)
    then obtain k where k: "i - j = 2 ^ 64 * k" using mod_eq_dvd_iff [of i "2 ^ 64" j] by (auto elim!: dvdE)
    have "- (2 ^ 64) < i - j \<and> i - j < 2 ^ 64" using fits by (simp add: fits_i64_def)
    then have "- 1 < k \<and> k < 1" by (simp add: k)
    then have "k = 0" by simp
    with k show "i = j" by simp
  qed simp
  then show ?thesis by (simp add: i64_bytes_def be8_append)
qed

text \<open>What the digest sees of a row: a live row and one removed at time 0 look alike.\<close>

definition stamp :: "cat_entry \<Rightarrow> string \<times> int \<times> int" where
  "stamp e = (ce_hash e, ce_added_at e, case ce_removed_at e of Some t \<Rightarrow> t | None \<Rightarrow> 0)"

definition digestible :: "file_row \<Rightarrow> bool" where
  "digestible r \<longleftrightarrow> fits_u64 (length (path_str (fl_path r))) \<and> fits_u64 (length (fl_hash r)) \<and> fits_i64 (fl_added_at r)
     \<and> fits_i64 (case fl_removed_at r of Some t \<Rightarrow> t | None \<Rightarrow> 0)"

lemma row_digest_append: "digestible r \<Longrightarrow> digestible s \<Longrightarrow>
    row_digest_bytes r @ x = row_digest_bytes s @ y
      \<longleftrightarrow> (fl_path r, stamp (entry_of r)) = (fl_path s, stamp (entry_of s)) \<and> x = y"
  by (auto simp: row_digest_bytes_def digestible_def len_bytes_append i64_bytes_append stamp_def relpath.expand)

lemma row_digest_long: "row_digest_bytes r \<noteq> []"
  by (simp add: row_digest_bytes_def len_bytes_def length_0_conv [symmetric] del: length_0_conv)

lemma catalogue_bytes_inj: "\<forall>r \<in> set rs \<union> set ss. digestible r \<Longrightarrow>
    concat (map row_digest_bytes rs) = concat (map row_digest_bytes ss)
      \<longleftrightarrow> map (\<lambda>r. (fl_path r, stamp (entry_of r))) rs = map (\<lambda>r. (fl_path r, stamp (entry_of r))) ss"
proof (induction rs arbitrary: ss)
  case Nil
  then show ?case by (cases ss) (auto simp: row_digest_long)
next
  case (Cons r rs)
  show ?case
  proof (cases ss)
    case Nil
    then show ?thesis by (simp add: row_digest_long)
  next
    case (Cons s ss')
    with Cons.prems Cons.IH [of ss'] show ?thesis by (simp add: row_digest_append)
  qed
qed

text \<open>C18. Equal digests mean equal catalogues. With SHA-256 taken as injective, two nodes whose lengths
  and times fit their columns answer the same digest for a group exactly when for every path they
  have a row with the same hash, addition time and removal time, or neither has one; a
  missing removal time counts as 0. So a settled pair of nodes holds the same catalogue, unless a row
  was removed at time 0.\<close>

theorem digest_tells_catalogue:
  assumes F: "files_reach E me F" "\<forall>p r. read_row F g p = Some r \<longrightarrow> digestible r"
    and F': "files_reach E you F'" "\<forall>p r. read_row F' g p = Some r \<longrightarrow> digestible r"
    and inj: "inj (sha256 E)"
  shows "fst (files_digest E g F) = fst (files_digest E g F') \<longleftrightarrow>
    (\<forall>p. map_option stamp (map_of (catalogue_of F g) p) = map_option stamp (map_of (catalogue_of F' g) p))"
proof -
  have inv: "files_inv E F" "files_inv E F'" using F(1) F'(1) by (simp_all add: files_reach_inv)
  let ?m = "\<lambda>F. map (\<lambda>(p, e). (p, stamp e)) (catalogue_of F g)"
  have rows: "?m F = map (\<lambda>r. (fl_path r, stamp (entry_of r))) (rows_in F g)" for F by (simp add: catalogue_of_def)
  have ok: "\<forall>r \<in> set (rows_in F g) \<union> set (rows_in F' g). digestible r"
    using F(2) F'(2) by (auto simp: rows_in_iff [OF files_invD(2) [OF inv(1)]] rows_in_iff [OF files_invD(2) [OF inv(2)]])
  have om: "om_inv (?m F)" "om_inv (?m F')" using catalogue_inv [OF inv(1)] catalogue_inv [OF inv(2)]
    by (simp_all add: om_inv_def case_prod_unfold comp_def)
  have get: "map_of (?m F) = (\<lambda>p. map_option stamp (map_of (catalogue_of F g) p))" for F
    by (simp add: map_of_map comp_def fun_eq_iff)
  have "fst (files_digest E g F) = fst (files_digest E g F')
      \<longleftrightarrow> concat (map row_digest_bytes (rows_in F g)) = concat (map row_digest_bytes (rows_in F' g))"
    using inj by (simp add: files_digest_fresh(1) [OF inv(1)] files_digest_fresh(1) [OF inv(2)] catalogue_digest_def inj_eq)
  also have "\<dots> \<longleftrightarrow> ?m F = ?m F'" by (simp only: catalogue_bytes_inj [OF ok] rows)
  also have "\<dots> \<longleftrightarrow> map_of (?m F) = map_of (?m F')" using om by (metis om_ext)
  finally show ?thesis by (simp only: get fun_eq_iff)
qed

theorem digest_tells_catalogue_witness:
  "fst (files_digest sample team learned) = fst (files_digest sample team (one_row alice file_a))"
proof -
  have "read_row learned team p = (if p = RelPath ''a'' then Some file_a else None)"
    "read_row (one_row alice file_a) team p = (if p = RelPath ''a'' then Some file_a else None)" for p
    by (simp add: learned_eq read_row_def, unfold one_row_eq, simp add: read_row_def)
  moreover have "digestible file_a" by (simp add: digestible_def file_a_def fits_u64_def fits_i64_def)
  ultimately have ok: "\<forall>p r. read_row learned team p = Some r \<longrightarrow> digestible r"
    "\<forall>p r. read_row (one_row alice file_a) team p = Some r \<longrightarrow> digestible r" by simp_all
  have "catalogue_of learned team = catalogue_of (one_row alice file_a) team"
    unfolding one_row_reads(3) by (simp add: catalogue_of_def rows_in_def learned_eq) (simp add: file_a_def)
  with digest_tells_catalogue [OF learned_reach ok(1) one_row_reach(1) ok(2) sample_inj] show ?thesis by simp
qed

section \<open>Reading the log\<close>

text \<open>The rows past a position, in the order of the log.\<close>

definition later :: "files \<Rightarrow> group_id \<Rightarrow> nat \<Rightarrow> file_row list" where
  "later F g c = sort_key fl_seen_seq (filter (\<lambda>r. c < fl_seen_seq r) (rows_in F g))"

lemma later_filter: "c \<le> d \<Longrightarrow> later F g d = filter (\<lambda>r. d < fl_seen_seq r) (later F g c)"
  by (simp add: later_def filter_sort) (rule arg_cong [where f = "sort_key fl_seen_seq"], rule filter_cong, auto)

lemma later_sorted:
  assumes inv: "files_inv E F"
  shows "sorted_wrt (\<lambda>r s. fl_seen_seq r < fl_seen_seq s) (later F g c)"
proof -
  note d = files_invD [OF inv]
  have paths: "fl_path r = p" if "read_row F h p = Some r" for h p r using d(6) [OF that] by (simp add: row_ok_def)
  have "sorted_wrt (<) (map fl_path (rows_in F g))" by (rule rows_sorted [OF d(2) paths])
  then have "distinct (rows_in F g)" by (simp add: strict_sorted_iff distinct_map)
  moreover have "inj_on fl_seen_seq (set (rows_in F g))"
  proof (rule inj_onI)
    fix r s assume rs: "r \<in> set (rows_in F g)" "s \<in> set (rows_in F g)" "fl_seen_seq r = fl_seen_seq s"
    then obtain p q where pq: "read_row F g p = Some r" "read_row F g q = Some s"
      by (auto simp: rows_in_iff [OF d(2)])
    from d(8) [OF this rs(3)] pq show "r = s" by simp
  qed
  ultimately have "distinct (map fl_seen_seq (filter (\<lambda>r. c < fl_seen_seq r) (rows_in F g)))"
    by (auto simp: distinct_map intro: inj_on_subset)
  moreover have "mset (map fl_seen_seq (later F g c)) = mset (map fl_seen_seq (filter (\<lambda>r. c < fl_seen_seq r) (rows_in F g)))"
    by (simp add: later_def)
  ultimately have "distinct (map fl_seen_seq (later F g c))" using mset_eq_imp_distinct_iff by blast
  then have "sorted_wrt (<) (map fl_seen_seq (later F g c))" by (simp add: strict_sorted_iff later_def)
  then show ?thesis by (simp add: sorted_wrt_map)
qed

lemma fold_max_sorted: "sorted_wrt (\<lambda>r s. f r < f s) xs \<Longrightarrow> \<forall>r \<in> set xs. c < f r \<Longrightarrow>
    fold (\<lambda>r h. max h (f r)) xs c = (if xs = [] then c else f (last xs))"
  for f :: "'a \<Rightarrow> nat"
proof (induction xs arbitrary: c)
  case (Cons x xs)
  then show ?case by (cases xs) (auto simp: max_def not_le dest: less_imp_le)
qed simp

lemma filter_past_take: "sorted_wrt (\<lambda>r s. f r < f s) xs \<Longrightarrow> 0 < n \<Longrightarrow> xs \<noteq> [] \<Longrightarrow>
    filter (\<lambda>r. f (last (take n xs)) < f r) xs = drop n xs"
  for f :: "'a \<Rightarrow> nat"
proof -
  assume sorted: "sorted_wrt (\<lambda>r s. f r < f s) xs" and n: "0 < n" "xs \<noteq> []"
  let ?l = "last (take n xs)"
  have split: "sorted_wrt (\<lambda>r s. f r < f s) (butlast (take n xs) @ ?l # drop n xs)"
    using sorted n append_butlast_last_id [of "take n xs"] append_take_drop_id [of n xs]
    by (metis append.assoc append_Cons append_Nil take_eq_Nil less_numeral_extra(3))
  then have "filter (\<lambda>r. f ?l < f r) (butlast (take n xs) @ ?l # drop n xs) = drop n xs"
    by (auto simp: sorted_wrt_append filter_empty_conv less_le_not_le intro: filter_True)
  moreover have "butlast (take n xs) @ ?l # drop n xs = xs"
    using n append_butlast_last_id [of "take n xs"] append_take_drop_id [of n xs]
    by (metis append.assoc append_Cons append_Nil take_eq_Nil less_numeral_extra(3))
  ultimately show ?thesis by simp
qed

lemma seq_fits:
  assumes "files_inv E F" "r \<in> set (rows_in F g)"
  shows "fl_seen_seq r \<le> I64_MAX"
  using files_invD(6) [OF assms(1)] assms(2) unfolding rows_in_iff [OF files_invD(2) [OF assms(1)]]
  by (auto simp: row_ok_def)

text \<open>A position no row has reached leaves the clamped and the plain comparison the same.\<close>

lemma past_clamp: "files_inv E F \<Longrightarrow> r \<in> set (rows_in F g) \<Longrightarrow> i64_clamp c < fl_seen_seq r \<longleftrightarrow> c < fl_seen_seq r"
  using seq_fits [of E F r g] by (auto simp: i64_clamp_def)

lemma page_later:
  assumes inv: "files_inv E F" and limit: "0 < n" "n \<le> I64_MAX"
    and page: "changes_since g c n F = ((out, nxt), F')"
  shows "out = take n (later F g c)" "later F g nxt = drop n (later F g c)"
    "nxt = (if out = [] then c else fl_seen_seq (last out))" "rows_in F' h = rows_in F h" "f_rows F' = f_rows F"
proof -
  have out: "out = take n (later F g c)" and F': "rows_in F' h = rows_in F h" "f_rows F' = f_rows F"
    and fold: "nxt = fold (\<lambda>r h. max h (fl_seen_seq r)) out c"
  proof -
    have "filter (\<lambda>r. i64_clamp c < fl_seen_seq r) (rows_in F g) = filter (\<lambda>r. c < fl_seen_seq r) (rows_in F g)"
      by (rule filter_cong) (simp_all add: past_clamp [OF inv])
    moreover have "i64_clamp n = n" using limit by (simp add: i64_clamp_def)
    ultimately show "out = take n (later F g c)" "rows_in F' h = rows_in F h" "f_rows F' = f_rows F"
      "nxt = fold (\<lambda>r h. max h (fl_seen_seq r)) out c"
      using page by (auto simp: changes_since_def Let_def later_def)
  qed
  have sorted: "sorted_wrt (\<lambda>r s. fl_seen_seq r < fl_seen_seq s) (later F g c)" by (rule later_sorted [OF inv])
  have "\<forall>r \<in> set (later F g c). c < fl_seen_seq r" by (simp add: later_def)
  then have bound: "\<forall>r \<in> set out. c < fl_seen_seq r" using out by (auto dest: in_set_takeD)
  then show nxt: "nxt = (if out = [] then c else fl_seen_seq (last out))"
    unfolding fold by (intro fold_max_sorted) (simp_all add: out sorted_wrt_take [OF sorted])
  have "c \<le> nxt" using nxt bound by (auto simp: less_imp_le)
  show "later F g nxt = drop n (later F g c)"
  proof (cases "later F g c = []")
    case True
    then show ?thesis using later_filter [OF \<open>c \<le> nxt\<close>, of F g] by simp
  next
    case False
    then have "out \<noteq> []" using out limit by simp
    then have "later F g nxt = filter (\<lambda>r. fl_seen_seq (last (take n (later F g c))) < fl_seen_seq r) (later F g c)"
      using later_filter [OF \<open>c \<le> nxt\<close>, of F g] nxt out by simp
    then show ?thesis using filter_past_take [OF sorted limit(1) False] by simp
  qed
  show "out = take n (later F g c)" "rows_in F' h = rows_in F h" "f_rows F' = f_rows F" by (fact out F')+
qed

text \<open>
  A reader that asks for page after page from the position the last one ended at, for as long as
  there is more: \<open>fsync_page\<close> on the answering side and the \<open>has_more\<close> branch of \<open>fsync_on_changes\<close>
  on the reading side. The fuel counts pages.
\<close>

fun read_log :: "nat \<Rightarrow> group_id \<Rightarrow> nat \<Rightarrow> nat \<Rightarrow> files \<Rightarrow> (file_row list \<times> nat) option" where
  "read_log 0 g n c F = None"
| "read_log (Suc fuel) g n c F =
     (case changes_since g c n F of ((out, pos), F') \<Rightarrow>
        if has_changes_after F' g pos
        then map_option (\<lambda>(rest, end). (out @ rest, end)) (read_log fuel g n pos F')
        else Some (out, pos))"

lemma has_changes_later: "files_inv E F \<Longrightarrow> has_changes_after F g c \<longleftrightarrow> later F g c \<noteq> []"
  by (auto simp: has_changes_after_def later_def sort_key_Nil filter_empty_conv list_ex_iff past_clamp)

lemma read_log_all:
  assumes "files_inv E F" "0 < n" "n \<le> I64_MAX" "length (later F g c) \<le> fuel * n" "0 < fuel"
  shows "\<exists>pos. read_log fuel g n c F = Some (later F g c, pos)
    \<and> (later F g c \<noteq> [] \<longrightarrow> pos = fl_seen_seq (last (later F g c)))"
  using assms
proof (induction fuel arbitrary: c F)
  case (Suc fuel)
  obtain out pos F' where page: "changes_since g c n F = ((out, pos), F')" by (metis surj_pair)
  note pg = page_later [OF Suc.prems(1-3) page]
  have F': "files_inv E F'" using files_inv_changes [OF Suc.prems(1), of g c n] page by simp
  have "later F' g pos = later F g pos" using pg(4) by (simp add: later_def)
  then have rest: "later F' g pos = drop n (later F g c)" using pg(2) by simp
  note more = has_changes_later [OF F', of g pos, unfolded rest]
  show ?case
  proof (cases "drop n (later F g c) = []")
    case True
    then have "out = later F g c" using pg(1) by simp
    with True more page pg(3) show ?thesis by auto
  next
    case False
    then have len: "n < length (later F g c)" by simp
    with Suc.prems(4) have fuel: "length (later F' g pos) \<le> fuel * n" "0 < fuel" by (auto simp: rest intro: ccontr)
    from Suc.IH [OF F' Suc.prems(2,3) fuel] obtain last_pos where
      "read_log fuel g n pos F' = Some (drop n (later F g c), last_pos)"
      "last_pos = fl_seen_seq (last (drop n (later F g c)))" using False by (auto simp: rest)
    with False more page pg(1) len show ?thesis by (auto simp: last_drop)
  qed
qed simp

text \<open>C13. Reading a log page by page ends, and reads each row once. With any page size, a reader that
  starts at any position and asks on from where the last page ended, while there is more, stops after
  at most as many pages as the group has rows; it has then read exactly the rows past its
  position, in log order, each of them once, and it ends at the position of the last.\<close>

theorem log_read_through:
  assumes "files_reach E me F" "0 < n" "n \<le> I64_MAX"
  shows "\<exists>pos. read_log (Suc (length (rows_in F g))) g n c F = Some (later F g c, pos)
    \<and> set (later F g c) = {r. c < fl_seen_seq r \<and> (\<exists>p. read_row F g p = Some r)} \<and> distinct (later F g c)
    \<and> sorted (map fl_seen_seq (later F g c)) \<and> (later F g c \<noteq> [] \<longrightarrow> pos = fl_seen_seq (last (later F g c)))"
proof -
  have inv: "files_inv E F" using assms(1) by (rule files_reach_inv)
  note d = files_invD [OF inv]
  have "length (later F g c) \<le> Suc (length (rows_in F g)) * n"
  proof -
    have "length (later F g c) \<le> length (rows_in F g)" by (simp add: later_def)
    also have "\<dots> \<le> Suc (length (rows_in F g)) * n" using assms(2) by (cases n) simp_all
    finally show ?thesis .
  qed
  then obtain pos where "read_log (Suc (length (rows_in F g))) g n c F = Some (later F g c, pos)"
    "later F g c \<noteq> [] \<longrightarrow> pos = fl_seen_seq (last (later F g c))"
    using read_log_all [OF inv assms(2,3)] by blast
  moreover have "set (later F g c) = {r. c < fl_seen_seq r \<and> (\<exists>p. read_row F g p = Some r)}"
    using rows_in_iff [OF d(2), of _ g] by (auto simp: later_def)
  moreover have "sorted_wrt (<) (map fl_seen_seq (later F g c))" using later_sorted [OF inv] by (simp add: sorted_wrt_map)
  ultimately show ?thesis by (auto simp: strict_sorted_iff distinct_map)
qed

theorem log_read_through_witness:
  "read_log 2 team 1 0 learned = Some ([file_a], 1)"
proof -
  have l: "later learned team 0 = [file_a]" "rows_in learned team = [file_a]"
    by (simp_all add: later_def learned_eq rows_in_def) (simp_all add: file_a_def)
  have c: "0 < (1::nat)" "1 \<le> I64_MAX" and seq: "fl_seen_seq file_a = 1"
    by (simp_all add: I64_MAX_def file_a_def)
  from log_read_through [OF learned_reach [of sample] c, of team 0] obtain pos where
    "read_log (Suc (length (rows_in learned team))) team 1 0 learned = Some (later learned team 0, pos)"
    "later learned team 0 \<noteq> [] \<longrightarrow> pos = fl_seen_seq (last (later learned team 0))" by (elim exE conjE) rule
  then show ?thesis by (simp only: l numeral_2_eq_2 list.size seq) (simp add: seq)
qed

section \<open>Directories\<close>

lemma dir_search_None:
  "dir_search F base full width cand = None \<longleftrightarrow>
     dir_taken F cand \<and> (\<forall>k. width + 4 * k \<le> length full \<longrightarrow> dir_taken F (base @ ''-'' @ take (width + 4 * k) full))"
proof (induction F base full width cand rule: dir_search.induct)
  case (1 F base full width cand)
  note step = dir_search.simps [of F base full width cand]
  let ?P = "\<lambda>n. n \<le> length full \<longrightarrow> dir_taken F (base @ ''-'' @ take n full)"
  show ?case
  proof (cases "\<not> dir_taken F cand \<or> length full < width")
    case True
    then show ?thesis unfolding step by auto
  next
    case False
    then have "dir_search F base full width cand = dir_search F base full (width + 4) (base @ ''-'' @ take width full)"
      unfolding step by simp
    then have "dir_search F base full width cand = None \<longleftrightarrow> ?P width \<and> (\<forall>k. ?P (width + 4 + 4 * k))"
      using 1 False by simp
    also have "\<dots> \<longleftrightarrow> (\<forall>k. ?P (width + 4 * k))"
      by (rule trans [OF _ all_nat_cases [symmetric]]) (simp add: add.assoc)
    finally have eq: "dir_search F base full width cand = None \<longleftrightarrow> (\<forall>k. ?P (width + 4 * k))" .
    from False have "dir_taken F cand" by blast
    then show ?thesis unfolding eq by (simp only: simp_thms)
  qed
qed

text \<open>C35. A group has one directory, its own, for good. \<open>dir_for\<close> answers the directory a group already has
  and changes nothing; a group without one is given one that no group has, recorded for that group
  only. It fails exactly when the name derived from the group's name and all those with 8, 12, up to 64
  digits of the group's id appended are taken, and then changes nothing.\<close>

theorem directory_assigned:
  assumes "files_reach E me F" "files_dir_for g name F = (r, F')"
  shows "case r of
      Inr dir \<Rightarrow> files_dir_of F' g = Some dir \<and> (\<forall>d. files_dir_of F g = Some d \<longrightarrow> d = dir \<and> F' = F)
        \<and> (\<forall>h. h \<noteq> g \<longrightarrow> files_dir_of F' h = files_dir_of F h \<and> files_dir_of F h \<noteq> Some dir)
    | Inl e \<Rightarrow> e = FNoDirectory g \<and> F' = F \<and> files_dir_of F g = None
        \<and> (let base = (case sanitize name of Some d \<Rightarrow> d | None \<Rightarrow> group_short g) in
            dir_taken F base \<and> (\<forall>k. 8 + 4 * k \<le> length (group_id_show g) \<longrightarrow>
              dir_taken F (base @ ''-'' @ take (8 + 4 * k) (group_id_show g))))"
proof -
  note d = files_invD [OF files_reach_inv [OF assms(1)]]
  have other: "h = g" if "files_dir_of F h = Some dir" "files_dir_of F g = Some dir" for h dir
  proof -
    from that have "(h, dir) \<in> set (f_roots F)" "(g, dir) \<in> set (f_roots F)"
      using om_in_set_iff [OF d(1)] by (simp_all add: files_dir_of_def)
    moreover have "inj_on snd (set (f_roots F))" using d(5) by (simp add: distinct_map)
    ultimately show ?thesis using inj_onD [of snd "set (f_roots F)" "(h, dir)" "(g, dir)"] by simp
  qed
  have free: "files_dir_of F h \<noteq> Some dir" if "\<not> dir_taken F dir" for h dir
    using that om_in_set_iff [OF d(1), of h dir] by (force simp: dir_taken_def files_dir_of_def)
  show ?thesis
  proof (cases "map_of (f_roots F) g")
    case (Some dir)
    then have "r = Inr dir" "F' = F" "files_dir_of F g = Some dir"
      using assms(2) by (simp_all add: files_dir_for_def files_dir_of_def)
    moreover have "files_dir_of F h \<noteq> Some dir" if "h \<noteq> g" for h
      using other [of h dir] that calculation(3) by blast
    ultimately show ?thesis by simp
  next
    case None
    let ?base = "case sanitize name of Some d \<Rightarrow> d | None \<Rightarrow> group_short g"
    show ?thesis
    proof (cases "dir_search F ?base (group_id_show g) 8 ?base")
      case None': None
      then have "r = Inl (FNoDirectory g)" "F' = F" using assms(2) None by (simp_all add: files_dir_for_def Let_def)
      moreover note dir_search_None [of F ?base "group_id_show g" 8 ?base]
      ultimately show ?thesis using None None' by (simp add: files_dir_of_def Let_def)
    next
      case (Some dir)
      then have "r = Inr dir" "F' = F\<lparr>f_roots := om_put g dir (f_roots F)\<rparr>"
        using assms(2) None by (simp_all add: files_dir_for_def Let_def)
      then show ?thesis using None free [OF dir_search_free [OF Some]] d(1)
        by (simp add: files_dir_of_def om_simps)
    qed
  qed
qed

theorem directory_assigned_witness:
  "files_dir_for team ''photos'' (files_new alice) = (Inr ''photos'', (files_new alice)\<lparr>f_roots := [(team, ''photos'')]\<rparr>)
     \<and> files_dir_of ((files_new alice)\<lparr>f_roots := [(team, ''photos'')]\<rparr>) team = Some ''photos''"
proof -
  have plain: "plain_text ''photos''" by (simp add: plain_text_def is_ascii_upper_def code_def)
  have "replace_unsafe ''photos'' = ''photos''" by (simp add: code_def)
  then have "sanitize ''photos'' = Some ''photos''"
    by (simp add: sanitize_def trim_edges.simps trim_plain [OF plain] trim_dots_def MAX_DIRNAME_def)
  then have "files_dir_for team ''photos'' (files_new alice) = (Inr ''photos'', (files_new alice)\<lparr>f_roots := [(team, ''photos'')]\<rparr>)"
    by (simp add: files_dir_for_def files_new_def dir_search.simps dir_taken_def Let_def)
  with directory_assigned [OF files_reach.new [of sample] this] show ?thesis by simp
qed

end
