(* ===== verification/Admitted.thy ===== *)
theory Admitted
  imports GroupTypes
begin

text \<open>
  Who may be talked to and how often: \<open>crates/ac-net/src/admitted_peers.rs\<close> and
  \<open>crates/ac-net/src/budget.rs\<close>. What \<open>promote\<close> asks of the connectivity tracker is an argument:
  whether a peer's connection is settled.
\<close>

section \<open>Admitted peers\<close>

datatype admission = Settling | Ready

type_synonym admitted_peers = "(peer_id, admission) omap"

definition admitted_insert :: "peer_id \<Rightarrow> admitted_peers \<Rightarrow> admitted_peers" where
  "admitted_insert p a = om_put p Settling a"

definition admitted_disconnected :: "peer_id \<Rightarrow> bool \<Rightarrow> admitted_peers \<Rightarrow> bool \<times> admitted_peers" where
  "admitted_disconnected p still_connected a =
     (if still_connected then (False, a) else (map_of a p = Some Ready, om_del p a))"

fun admitted_promote :: "(peer_id \<Rightarrow> bool) \<Rightarrow> admitted_peers \<Rightarrow> peer_id list \<times> admitted_peers" where
  "admitted_promote settled [] = ([], [])"
| "admitted_promote settled ((p, st) # a) =
     (let (ready, a') = admitted_promote settled a in
      if st = Ready \<or> \<not> settled p then (ready, (p, st) # a') else (p # ready, (p, Ready) # a'))"

definition is_ready :: "admitted_peers \<Rightarrow> peer_id \<Rightarrow> bool" where
  "is_ready a p \<longleftrightarrow> map_of a p = Some Ready"

definition is_admitted :: "admitted_peers \<Rightarrow> peer_id \<Rightarrow> bool" where
  "is_admitted a p \<longleftrightarrow> om_has a p"

lemma ready_admitted: "is_ready a p \<Longrightarrow> is_admitted a p"
  by (simp add: is_ready_def is_admitted_def om_has_def)

lemma promote_keys: "map fst (snd (admitted_promote settled a)) = map fst a"
  by (induction settled a rule: admitted_promote.induct) (auto split: prod.splits)

lemma promote_inv: "om_inv a \<Longrightarrow> om_inv (snd (admitted_promote settled a))"
  by (simp add: om_inv_def promote_keys)

text \<open>A peer is named once, when it turns ready; admission itself does not change.\<close>

lemma promote_ready:
  "om_inv a \<Longrightarrow> (p \<in> set (fst (admitted_promote settled a)) \<longleftrightarrow> map_of a p = Some Settling \<and> settled p)
     \<and> (is_ready (snd (admitted_promote settled a)) p \<longleftrightarrow> is_ready a p \<or> (is_admitted a p \<and> settled p))
     \<and> (is_admitted (snd (admitted_promote settled a)) p \<longleftrightarrow> is_admitted a p)"
proof (induction settled a rule: admitted_promote.induct)
  case (2 settled q st a)
  then have inv: "om_inv a" "map_of a q = None" by (auto simp: om_inv_Cons map_of_None_om)
  from 2 inv show ?case
    by (cases st) (auto simp: is_ready_def is_admitted_def om_has_def split: prod.splits)
qed (simp add: is_ready_def is_admitted_def om_has_def)

section \<open>The answer budget\<close>

record tick_budget =
  tb_per_tick :: nat
  tb_spent :: "(peer_id, nat) omap"

definition budget_new :: "nat \<Rightarrow> tick_budget" where
  "budget_new n = \<lparr>tb_per_tick = n, tb_spent = []\<rparr>"

definition budget_spend :: "peer_id \<Rightarrow> tick_budget \<Rightarrow> bool \<times> tick_budget" where
  "budget_spend p b =
     (let spent = (case map_of (tb_spent b) p of Some n \<Rightarrow> n | None \<Rightarrow> 0) in
      if tb_per_tick b \<le> spent then (False, b\<lparr>tb_spent := om_put p spent (tb_spent b)\<rparr>)
      else (True, b\<lparr>tb_spent := om_put p (spent + 1) (tb_spent b)\<rparr>))"

definition budget_reset :: "tick_budget \<Rightarrow> tick_budget" where
  "budget_reset b = b\<lparr>tb_spent := []\<rparr>"

definition budget_spent :: "tick_budget \<Rightarrow> peer_id \<Rightarrow> nat" where
  "budget_spent b p = (case map_of (tb_spent b) p of Some n \<Rightarrow> n | None \<Rightarrow> 0)"

definition budget_inv :: "tick_budget \<Rightarrow> bool" where
  "budget_inv b \<longleftrightarrow> om_inv (tb_spent b) \<and> (\<forall>p. budget_spent b p \<le> tb_per_tick b)"

lemma budget_inv_new [simp]: "budget_inv (budget_new n)"
  by (simp add: budget_inv_def budget_new_def budget_spent_def)

lemma budget_inv_reset [simp]: "budget_inv (budget_reset b)"
  by (simp add: budget_inv_def budget_reset_def budget_spent_def)

lemma budget_spend_facts:
  assumes "budget_inv b"
  shows "budget_inv (snd (budget_spend p b))" "tb_per_tick (snd (budget_spend p b)) = tb_per_tick b"
    "budget_spent (snd (budget_spend p b)) q =
       budget_spent b q + (if q = p \<and> fst (budget_spend p b) then 1 else 0)"
    "fst (budget_spend p b) \<longleftrightarrow> budget_spent b p < tb_per_tick b"
  using assms
  by (auto simp: budget_inv_def budget_spend_def Let_def budget_spent_def om_simps not_le
      split: if_splits option.splits)

end
