(* ===== verification/FileSync.thy ===== *)
theory FileSync
  imports FileStore GroupOps Admitted
begin

text \<open>
  \<open>crates/ac-files/src/sync.rs\<close>: the state machine that keeps catalogues in step. It answers
  peers about the groups shared with them, reads the logs of peers whose digest differs, merges what
  comes back, and says when there is nothing further to read. The disk the content lies on is a
  component of its state. Clock readings are an argument, one per peer and group, since one
  event starts at most one read of a pair. Log lines are left out.
\<close>

definition REQUEST_TIMEOUT :: nat where "REQUEST_TIMEOUT = 30000"
definition FILE_ANSWERS_PER_TICK :: nat where "FILE_ANSWERS_PER_TICK = 8"
definition FILE_MAX_INFLIGHT :: nat where "FILE_MAX_INFLIGHT = 8"
definition FILE_MAX_DEFERRED :: nat where "FILE_MAX_DEFERRED = 16 * MAX_HEADS_PER_ANSWER"

datatype file_action =
    FetchChangesAct peer_id group_id nat
  | SettledAct peer_id group_id

datatype file_event =
    FHeadsEv peer_id "file_head list"
  | FChangesEv peer_id group_id nat "manifest_entry list" nat bool bytes
  | FUnavailableEv peer_id group_id
  | FRequestFailedEv peer_id "group_id option"
  | FTickEv nat int

record file_in_flight =
  ff_after :: nat
  ff_retried :: bool
  ff_deadline :: nat

record file_sync =
  fy_files :: files
  fy_groups :: groups
  fy_root :: location
  fy_disk :: fs
  fy_dirs :: "(group_id, string) omap"
  fy_me :: peer_id
  fy_inflight :: "(peer_id \<times> group_id, file_in_flight) omap"
  fy_deferred :: "(peer_id \<times> group_id) list"
  fy_budget :: tick_budget
  fy_now_at :: int

definition fsync_new :: "files \<Rightarrow> groups \<Rightarrow> location \<Rightarrow> fs \<Rightarrow> file_sync" where
  "fsync_new F G root disk =
     \<lparr>fy_files = F, fy_groups = G, fy_root = root, fy_disk = disk, fy_dirs = [], fy_me = f_me F,
      fy_inflight = [], fy_deferred = [], fy_budget = budget_new FILE_ANSWERS_PER_TICK, fy_now_at = 0\<rparr>"

definition fsync_dir_of :: "group_id \<Rightarrow> file_sync \<Rightarrow> string option \<times> file_sync" where
  "fsync_dir_of g y =
     (case map_of (fy_dirs y) g of
        Some dir \<Rightarrow> (Some dir, y)
      | None \<Rightarrow>
          (case store_get (fy_groups y) g of
             None \<Rightarrow> (None, y)
           | Some row \<Rightarrow>
               let (r, F) = files_dir_for g (gr_name row) (fy_files y) in
               (case r of
                  Inl _ \<Rightarrow> (None, y\<lparr>fy_files := F\<rparr>)
                | Inr dir \<Rightarrow> (Some dir, y\<lparr>fy_files := F, fy_dirs := om_put g dir (fy_dirs y)\<rparr>))))"

section \<open>Answering\<close>

definition fsync_shares :: "file_sync \<Rightarrow> peer_id \<Rightarrow> group_id \<Rightarrow> bool" where
  "fsync_shares y p g \<longleftrightarrow> list_ex (\<lambda>h. gh_group h = g) (shared_with (fy_groups y) p)"

fun name_heads :: "env \<Rightarrow> group_head list \<Rightarrow> files \<Rightarrow> file_head list \<times> files" where
  "name_heads E [] F = ([], F)"
| "name_heads E (h # hs) F =
     (let (digest, F1) = files_digest E (gh_group h) F;
          head = \<lparr>fh_group = gh_group h, fh_digest = digest, fh_count = files_count F1 (gh_group h)\<rparr>;
          (rest, F2) = name_heads E hs F1
      in (head # rest, F2))"

definition fsync_heads_for :: "env \<Rightarrow> peer_id \<Rightarrow> file_sync \<Rightarrow> file_head list \<times> file_sync" where
  "fsync_heads_for E p y =
     (let (heads, F) = name_heads E (take MAX_HEADS_PER_ANSWER (shared_with (fy_groups y) p)) (fy_files y)
      in (heads, y\<lparr>fy_files := F\<rparr>))"

definition fsync_page :: "env \<Rightarrow> group_id \<Rightarrow> nat \<Rightarrow> file_sync \<Rightarrow> manifest_response \<times> file_sync" where
  "fsync_page E g after y =
     (let ((rows, next), F1) = changes_since g after MAX_ENTRIES_PER_RESPONSE (fy_files y);
          has_more = has_changes_after F1 g next;
          (digest, F2) = files_digest E g F1
      in (MChangesPage g (List.map_filter (manifest_entry_of E) rows) next has_more digest, y\<lparr>fy_files := F2\<rparr>))"

definition fsync_holdings :: "group_id \<Rightarrow> string list \<Rightarrow> file_sync \<Rightarrow> bytes" where
  "fsync_holdings g paths y =
     pack_holdings (map (\<lambda>raw.
         case relpath_parse raw of
           Inl _ \<Rightarrow> False
         | Inr p \<Rightarrow> (case files_get (fy_files y) g p of None \<Rightarrow> False | Some r \<Rightarrow> fl_have r \<and> \<not> is_removed r))
       (take MAX_HOLDINGS_QUERY paths))"

definition fsync_on_request ::
    "env \<Rightarrow> peer_id \<Rightarrow> manifest_request \<Rightarrow> admitted_peers \<Rightarrow> file_sync \<Rightarrow> manifest_response \<times> file_sync" where
  "fsync_on_request E p request adm y =
     (if \<not> is_admitted adm p then (MUnavailable, y)
      else
        let (granted, budget) = budget_spend p (fy_budget y); y1 = y\<lparr>fy_budget := budget\<rparr> in
        if \<not> granted then (MUnavailable, y1)
        else
          case request of
            MAsk \<Rightarrow> (let (heads, y2) = fsync_heads_for E p y1 in (MHeads heads, y2))
          | MChanges g after \<Rightarrow> if \<not> fsync_shares y1 p g then (MUnavailable, y1) else fsync_page E g after y1
          | MHoldings g paths \<Rightarrow>
              if \<not> fsync_shares y1 p g then (MUnavailable, y1) else (MHeld g (fsync_holdings g paths y1), y1))"

section \<open>Reading\<close>

definition fsync_has_slot :: "file_sync \<Rightarrow> bool" where
  "fsync_has_slot y \<longleftrightarrow> length (fy_inflight y) < FILE_MAX_INFLIGHT"

definition fsync_defer :: "peer_id \<Rightarrow> group_id \<Rightarrow> file_sync \<Rightarrow> file_sync" where
  "fsync_defer p g y =
     (if (p, g) \<in> set (fy_deferred y) then y
      else if FILE_MAX_DEFERRED \<le> length (fy_deferred y) then y
      else y\<lparr>fy_deferred := fy_deferred y @ [(p, g)]\<rparr>)"

definition fsync_read ::
    "(peer_id \<times> group_id \<Rightarrow> nat) \<Rightarrow> peer_id \<Rightarrow> group_id \<Rightarrow> nat \<Rightarrow> bool \<Rightarrow> file_action list \<times> file_sync \<Rightarrow>
     file_action list \<times> file_sync" where
  "fsync_read clk p g after retried st =
     (case st of (acts, y) \<Rightarrow>
        if om_has (fy_inflight y) (p, g) then (acts, y)
        else if \<not> fsync_has_slot y then (acts, fsync_defer p g y)
        else
          (acts @ [FetchChangesAct p g after],
           y\<lparr>fy_inflight := om_put (p, g)
               \<lparr>ff_after = after, ff_retried = retried, ff_deadline = clk (p, g) + REQUEST_TIMEOUT\<rparr> (fy_inflight y)\<rparr>))"

definition fsync_heads_step ::
    "env \<Rightarrow> (peer_id \<times> group_id \<Rightarrow> nat) \<Rightarrow> peer_id \<Rightarrow> file_head \<Rightarrow> file_action list \<times> file_sync \<Rightarrow>
     file_action list \<times> file_sync" where
  "fsync_heads_step E clk p head st =
     (case st of (acts, y) \<Rightarrow>
        if \<not> fsync_shares y p (fh_group head) then (acts, y)
        else
          let (ours, F) = files_digest E (fh_group head) (fy_files y); y1 = y\<lparr>fy_files := F\<rparr> in
          if ours = fh_digest head then (acts @ [SettledAct p (fh_group head)], y1)
          else fsync_read clk p (fh_group head) (files_cursor (fy_files y1) (fh_group head) p) False (acts, y1))"

definition fsync_on_heads ::
    "env \<Rightarrow> (peer_id \<times> group_id \<Rightarrow> nat) \<Rightarrow> peer_id \<Rightarrow> file_head list \<Rightarrow> file_sync \<Rightarrow> file_action list \<times> file_sync" where
  "fsync_on_heads E clk p heads y = fold (fsync_heads_step E clk p) (take MAX_HEADS_PER_ANSWER heads) ([], y)"

definition merge_entry :: "env \<Rightarrow> group_id \<Rightarrow> string \<Rightarrow> manifest_entry \<Rightarrow> file_sync \<Rightarrow> file_sync" where
  "merge_entry E g dir entry y =
     (case into_row E entry of
        None \<Rightarrow> y
      | Some row \<Rightarrow>
          let (r, F, disk) = files_merge (fy_root y) g row dir (fy_files y, fy_disk y)
          in y\<lparr>fy_files := F, fy_disk := disk\<rparr>)"

definition fsync_on_changes ::
    "env \<Rightarrow> (peer_id \<times> group_id \<Rightarrow> nat) \<Rightarrow> peer_id \<Rightarrow> group_id \<Rightarrow> nat \<Rightarrow> manifest_entry list \<Rightarrow> nat \<Rightarrow> bool \<Rightarrow> bytes \<Rightarrow>
     file_sync \<Rightarrow> file_action list \<times> file_sync" where
  "fsync_on_changes E clk p g after entries next has_more digest y =
     (case map_of (fy_inflight y) (p, g) of
        None \<Rightarrow> ([], y)
      | Some flight \<Rightarrow>
          if ff_after flight \<noteq> after then ([], y)
          else
            let retried = ff_retried flight;
                (dir, y1) = fsync_dir_of g (y\<lparr>fy_inflight := om_del (p, g) (fy_inflight y)\<rparr>)
            in case dir of
                 None \<Rightarrow> ([], y1)
               | Some dir \<Rightarrow>
                   let y2 = fold (merge_entry E g dir) (take MAX_ENTRIES_PER_RESPONSE entries) y1;
                       y3 = y2\<lparr>fy_files := set_cursor g p next (fy_files y2)\<rparr>
                   in if has_more then fsync_read clk p g next retried ([], y3)
                      else
                        let (ours, F) = files_digest E g (fy_files y3); y4 = y3\<lparr>fy_files := F\<rparr> in
                        if ours \<noteq> digest \<and> \<not> retried then
                          fsync_read clk p g 0 True ([], y4\<lparr>fy_files := set_cursor g p 0 (fy_files y4)\<rparr>)
                        else ([SettledAct p g], y4))"

lemma read_deferred: "fsync_has_slot y \<Longrightarrow> fy_deferred (snd (fsync_read clk p g after retried (acts, y))) = fy_deferred y"
  by (simp add: fsync_read_def)

function fsync_drain ::
    "(peer_id \<times> group_id \<Rightarrow> nat) \<Rightarrow> admitted_peers \<Rightarrow> file_action list \<times> file_sync \<Rightarrow> file_action list \<times> file_sync" where
  "fsync_drain clk adm (acts, y) =
     (if fsync_has_slot y then
        (case fy_deferred y of
           [] \<Rightarrow> (acts, y)
         | (p, g) # rest \<Rightarrow>
             let y1 = y\<lparr>fy_deferred := rest\<rparr> in
             if \<not> is_admitted adm p then fsync_drain clk adm (acts, y1)
             else fsync_drain clk adm (fsync_read clk p g (files_cursor (fy_files y1) g p) False (acts, y1)))
      else (acts, y))"
  by pat_completeness auto
termination
proof (relation "measure (\<lambda>(clk, adm, st). length (fy_deferred (snd st)))")
  fix clk adm acts y x xs p g y1
  assume slot: "fsync_has_slot y" and "fy_deferred y = x # xs" "(p, g) = x" and y1: "y1 = y\<lparr>fy_deferred := xs\<rparr>"
  then have "fsync_has_slot y1" by (simp add: fsync_has_slot_def)
  from read_deferred [OF this, of clk p g "files_cursor (fy_files y1) g p" False acts] y1 \<open>fy_deferred y = x # xs\<close>
  show "((clk, adm, fsync_read clk p g (files_cursor (fy_files y1) g p) False (acts, y1)), clk, adm, acts, y)
      \<in> measure (\<lambda>(clk, adm, st). length (fy_deferred (snd st)))" by simp
qed simp_all

declare fsync_drain.simps [simp del]

definition fsync_finish :: "group_id \<Rightarrow> peer_id \<Rightarrow> file_sync \<Rightarrow> file_sync" where
  "fsync_finish g p y = y\<lparr>fy_inflight := om_del (p, g) (fy_inflight y)\<rparr>"

definition fsync_has_work_with :: "file_sync \<Rightarrow> peer_id \<Rightarrow> bool" where
  "fsync_has_work_with y p \<longleftrightarrow>
     list_ex (\<lambda>((q, g), f). q = p) (fy_inflight y) \<or> list_ex (\<lambda>(q, g). q = p) (fy_deferred y)"

definition fsync_tick :: "nat \<Rightarrow> int \<Rightarrow> admitted_peers \<Rightarrow> file_sync \<Rightarrow> file_sync" where
  "fsync_tick now at adm y =
     y\<lparr>fy_now_at := at, fy_budget := budget_reset (fy_budget y),
       fy_inflight := filter (\<lambda>((p, g), f). now < ff_deadline f \<and> is_ready adm p) (fy_inflight y),
       fy_deferred := filter (\<lambda>(p, g). is_admitted adm p) (fy_deferred y)\<rparr>"

definition fsync_dispatch ::
    "env \<Rightarrow> (peer_id \<times> group_id \<Rightarrow> nat) \<Rightarrow> file_event \<Rightarrow> admitted_peers \<Rightarrow> file_sync \<Rightarrow> file_action list \<times> file_sync" where
  "fsync_dispatch E clk ev adm y =
     (case ev of
        FHeadsEv p heads \<Rightarrow> if \<not> is_ready adm p then ([], y) else fsync_on_heads E clk p heads y
      | FChangesEv p g after entries next has_more digest \<Rightarrow> fsync_on_changes E clk p g after entries next has_more digest y
      | FUnavailableEv p g \<Rightarrow> ([SettledAct p g], fsync_finish g p y)
      | FRequestFailedEv p None \<Rightarrow> ([], y)
      | FRequestFailedEv p (Some g) \<Rightarrow> ([], fsync_finish g p y)
      | FTickEv now at \<Rightarrow> ([], fsync_tick now at adm y))"

definition fsync_on ::
    "env \<Rightarrow> (peer_id \<times> group_id \<Rightarrow> nat) \<Rightarrow> file_event \<Rightarrow> admitted_peers \<Rightarrow> file_sync \<Rightarrow> file_action list \<times> file_sync" where
  "fsync_on E clk ev adm y = fsync_drain clk adm (fsync_dispatch E clk ev adm y)"

definition fsync_row :: "file_sync \<Rightarrow> group_id \<Rightarrow> relpath \<Rightarrow> file_row option" where
  "fsync_row y g p = files_get (fy_files y) g p"

end
