(* ===== verification/GroupSync.thy ===== *)
theory GroupSync
  imports GroupOps Admitted
begin

text \<open>
  \<open>crates/ac-groups/src/sync.rs\<close>: the state machine that answers peers, decides what to fetch
  and ingests what comes back. Events go in, actions come out; nothing here waits.

  \<open>Instant\<close> is a number of milliseconds. The clock readings \<open>fetch\<close> takes are an argument \<open>clk\<close>,
  one per group, since one event starts at most one fetch of a group. Log lines are left out, and
  so is \<open>report\<close>, which only logs.
\<close>

definition FETCH_TIMEOUT :: nat where "FETCH_TIMEOUT = 30000"
definition ANSWERS_PER_TICK :: nat where "ANSWERS_PER_TICK = 8"
definition MAX_INFLIGHT :: nat where "MAX_INFLIGHT = 8"
definition MAX_DEFERRED :: nat where "MAX_DEFERRED = 256"
definition PENDING_TTL :: int where "PENDING_TTL = 30 * 24 * 3600"

datatype group_event =
    GHeadsEv peer_id "group_head list"
  | GEntriesEv peer_id group_id nat "entry list" "standing list"
  | GUnavailableEv peer_id group_id
  | GFetchFailedEv peer_id group_id
  | GAskFailedEv peer_id
  | GTickEv nat int

datatype group_action = FetchAct peer_id group_id nat

record in_flight =
  if_peer :: peer_id
  if_from :: nat
  if_deadline :: nat

record group_sync =
  gy_store :: groups
  gy_me :: peer_id
  gy_key :: keypair
  gy_username :: string
  gy_inflight :: "(group_id, in_flight) omap"
  gy_deferred :: "(peer_id \<times> group_id) list"
  gy_budget :: tick_budget
  gy_now_at :: int

definition gsync_new :: "env \<Rightarrow> groups \<Rightarrow> keypair \<Rightarrow> string \<Rightarrow> group_sync" where
  "gsync_new E S key username =
     \<lparr>gy_store = S, gy_me = peer_of_key E key, gy_key = key, gy_username = username,
      gy_inflight = [], gy_deferred = [], gy_budget = budget_new ANSWERS_PER_TICK, gy_now_at = 0\<rparr>"

section \<open>Answering\<close>

definition gsync_on_request ::
    "env \<Rightarrow> peer_id \<Rightarrow> group_request \<Rightarrow> admitted_peers \<Rightarrow> group_sync \<Rightarrow> group_response \<times> group_sync" where
  "gsync_on_request E peer request adm y =
     (if \<not> is_admitted adm peer then (GUnavailable, y)
      else
        let (granted, budget) = budget_spend peer (gy_budget y); y1 = y\<lparr>gy_budget := budget\<rparr> in
        if \<not> granted then (GUnavailable, y1)
        else
          case request of
            GAsk \<Rightarrow> (GHeads (take GROUP_MAX_HEADS (log_shared_with (gy_store y) peer)), y1)
          | GFetch g from \<Rightarrow>
              (case store_serve E (gy_store y) g peer from of
                 Inr (Some (entries, standings)) \<Rightarrow> (GEntries g from entries standings, y1)
               | _ \<Rightarrow> (GUnavailable, y1)))"

section \<open>Fetching\<close>

definition gsync_defer :: "peer_id \<Rightarrow> group_id \<Rightarrow> group_sync \<Rightarrow> group_sync" where
  "gsync_defer peer g y =
     (if list_ex (\<lambda>(p, h). h = g) (gy_deferred y) then y
      else if MAX_DEFERRED \<le> length (gy_deferred y) then y
      else y\<lparr>gy_deferred := gy_deferred y @ [(peer, g)]\<rparr>)"

definition gsync_fetch ::
    "(group_id \<Rightarrow> nat) \<Rightarrow> peer_id \<Rightarrow> group_id \<Rightarrow> nat \<Rightarrow> group_action list \<times> group_sync \<Rightarrow>
     group_action list \<times> group_sync" where
  "gsync_fetch clk peer g from st =
     (case st of (acts, y) \<Rightarrow>
        if om_has (gy_inflight y) g then (acts, y)
        else if MAX_INFLIGHT \<le> length (gy_inflight y) then (acts, gsync_defer peer g y)
        else
          (acts @ [FetchAct peer g from],
           y\<lparr>gy_inflight := om_put g \<lparr>if_peer = peer, if_from = from, if_deadline = clk g + FETCH_TIMEOUT\<rparr>
                            (gy_inflight y)\<rparr>))"

definition head_seq_of :: "groups \<Rightarrow> group_id \<Rightarrow> nat" where
  "head_seq_of S g = (case store_get S g of Some r \<Rightarrow> gr_head_seq r | None \<Rightarrow> 0)"

definition silently_omitted :: "peer_id \<Rightarrow> group_id list \<Rightarrow> groups \<Rightarrow> group_id list" where
  "silently_omitted peer named S =
     map gr_id (filter (\<lambda>r. gr_id r \<notin> set named \<and> members_contains (store_members S (gr_id r)) peer)
       (store_list S))"

definition gsync_on_heads ::
    "(group_id \<Rightarrow> nat) \<Rightarrow> peer_id \<Rightarrow> group_head list \<Rightarrow> group_sync \<Rightarrow> group_action list \<times> group_sync" where
  "gsync_on_heads clk peer heads y =
     (let heads = take GROUP_MAX_HEADS heads;
          st = fold (\<lambda>h st.
                 case store_get (gy_store (snd st)) (gh_group h) of
                   None \<Rightarrow> gsync_fetch clk peer (gh_group h) 0 st
                 | Some r \<Rightarrow>
                     if gr_head_seq r < gh_head_seq h \<or> gh_standings h \<noteq> gr_digest r
                     then gsync_fetch clk peer (gh_group h) (gr_head_seq r) st else st)
               heads ([], y)
      in fold (\<lambda>g st. gsync_fetch clk peer g (head_seq_of (gy_store (snd st)) g) st)
           (silently_omitted peer (map gh_group heads) (gy_store (snd st))) st)"

text \<open>
  The loop that fills freed slots. While there is room \<open>fetch\<close> never puts anything back on the
  queue, so every round takes one element off it.
\<close>

lemma fetch_deferred:
  "length (gy_inflight y) < MAX_INFLIGHT \<Longrightarrow> gy_deferred (snd (gsync_fetch clk p g from (acts, y))) = gy_deferred y"
  by (simp add: gsync_fetch_def)

function gsync_drain ::
    "(group_id \<Rightarrow> nat) \<Rightarrow> admitted_peers \<Rightarrow> group_action list \<times> group_sync \<Rightarrow> group_action list \<times> group_sync" where
  "gsync_drain clk adm (acts, y) =
     (if length (gy_inflight y) < MAX_INFLIGHT then
        (case gy_deferred y of
           [] \<Rightarrow> (acts, y)
         | (peer, g) # rest \<Rightarrow>
             let y1 = y\<lparr>gy_deferred := rest\<rparr> in
             if \<not> is_admitted adm peer \<or> om_has (gy_inflight y1) g then gsync_drain clk adm (acts, y1)
             else gsync_drain clk adm (gsync_fetch clk peer g (head_seq_of (gy_store y1) g) (acts, y1)))
      else (acts, y))"
  by pat_completeness auto
termination
  by (relation "measure (\<lambda>(clk, adm, st). length (gy_deferred (snd st)))") (auto simp: fetch_deferred)

definition gsync_finish :: "group_id \<Rightarrow> peer_id \<Rightarrow> group_sync \<Rightarrow> group_sync" where
  "gsync_finish g peer y =
     (case map_of (gy_inflight y) g of
        Some f \<Rightarrow> if if_peer f = peer then y\<lparr>gy_inflight := om_del g (gy_inflight y)\<rparr> else y
      | None \<Rightarrow> y)"

section \<open>Ingesting\<close>

definition answer_invitation :: "env \<Rightarrow> group_id \<Rightarrow> int \<Rightarrow> group_sync \<Rightarrow> group_sync" where
  "answer_invitation E g at y =
     (let S = gy_store y;
          pending = (case store_get S g of Some r \<Rightarrow> gr_state r = Pending | None \<Rightarrow> False);
          named = members_contains (store_members S g) (gy_me y);
          spoken = (my_standing_seq S g \<noteq> None)
      in if \<not> pending \<or> \<not> named \<or> spoken then y
         else y\<lparr>gy_store := snd (store_author_standing E (gy_key y) g Unanswered (gy_username y) at S)\<rparr>)"

definition ratify :: "env \<Rightarrow> group_id \<Rightarrow> applied \<Rightarrow> int \<Rightarrow> group_sync \<Rightarrow> group_sync" where
  "ratify E g ap at y =
     (if ap_departed ap = [] then y
      else if \<not> (case store_get (gy_store y) g of Some r \<Rightarrow> gr_admin r = gy_me y | None \<Rightarrow> False) then y
      else fold (\<lambda>p y. y\<lparr>gy_store := snd (store_author E (gy_key y) g (Remove (to_base58 E p)) at (gy_store y))\<rparr>)
             (filter (\<lambda>p. p \<noteq> gy_me y) (ap_departed ap)) y)"

definition gsync_on_entries ::
    "env \<Rightarrow> (group_id \<Rightarrow> nat) \<Rightarrow> peer_id \<Rightarrow> group_id \<Rightarrow> nat \<Rightarrow> entry list \<Rightarrow> standing list \<Rightarrow> group_sync \<Rightarrow>
     group_action list \<times> group_sync" where
  "gsync_on_entries E clk peer g from entries standings y =
     (if \<not> (case map_of (gy_inflight y) g of Some f \<Rightarrow> if_peer f = peer \<and> if_from f = from | None \<Rightarrow> False)
      then ([], y)
      else
        let y1 = y\<lparr>gy_inflight := om_del g (gy_inflight y)\<rparr>;
            at = gy_now_at y;
            (outcome, S) =
              (if store_get (gy_store y1) g \<noteq> None
               then store_put E g from entries standings at (gy_store y1)
               else store_adopt E entries standings at (gy_store y1));
            y2 = y1\<lparr>gy_store := S\<rparr>
        in case outcome of
             Inl (EGap want got) \<Rightarrow> gsync_fetch clk peer g want ([], y2)
           | Inl _ \<Rightarrow> ([], y2)
           | Inr ap \<Rightarrow> ([], ratify E g ap at (answer_invitation E g at y2)))"

section \<open>Time\<close>

definition expire_pending :: "group_row list \<Rightarrow> int \<Rightarrow> group_sync \<Rightarrow> group_sync" where
  "expire_pending rows at y =
     fold (\<lambda>r y.
         if gr_state r \<noteq> Pending \<or> at - gr_first_seen r < PENDING_TTL then y
         else if members_contains (store_members (gy_store y) (gr_id r)) (gy_me y) then y
         else y\<lparr>gy_store := store_forget (gr_id r) (gy_store y)\<rparr>)
       rows y"

definition gsync_tick :: "nat \<Rightarrow> int \<Rightarrow> admitted_peers \<Rightarrow> group_sync \<Rightarrow> group_action list \<times> group_sync" where
  "gsync_tick now at adm y =
     (let y1 = y\<lparr>gy_now_at := at, gy_budget := budget_reset (gy_budget y),
               gy_inflight := filter (\<lambda>(g, f). now < if_deadline f \<and> is_ready adm (if_peer f)) (gy_inflight y),
               gy_deferred := filter (\<lambda>(p, g). is_admitted adm p) (gy_deferred y)\<rparr>
      in ([], expire_pending (store_list (gy_store y1)) at y1))"

section \<open>The entry point\<close>

definition gsync_on ::
    "env \<Rightarrow> (group_id \<Rightarrow> nat) \<Rightarrow> group_event \<Rightarrow> admitted_peers \<Rightarrow> group_sync \<Rightarrow> group_action list \<times> group_sync" where
  "gsync_on E clk ev adm y =
     (case ev of
        GHeadsEv peer heads \<Rightarrow>
          if \<not> is_ready adm peer then ([], y) else gsync_drain clk adm (gsync_on_heads clk peer heads y)
      | GEntriesEv peer g from entries standings \<Rightarrow>
          gsync_drain clk adm (gsync_on_entries E clk peer g from entries standings y)
      | GUnavailableEv peer g \<Rightarrow> gsync_drain clk adm ([], gsync_finish g peer y)
      | GFetchFailedEv peer g \<Rightarrow> gsync_drain clk adm ([], gsync_finish g peer y)
      | GAskFailedEv peer \<Rightarrow> gsync_drain clk adm ([], y)
      | GTickEv now at \<Rightarrow> gsync_drain clk adm (gsync_tick now at adm y))"

end
