(* ===== verification/Exchange.thy ===== *)
theory Exchange
  imports StoreSteps
begin

text \<open>
  What \<open>put\<close> does to the standings table, row by row, and what two nodes that answer each other's
  fetches end up with. Each peer's row is the strongest statement received about it.
\<close>

section \<open>The standings table, row by row\<close>

definition row_key :: "stand_row \<Rightarrow> u64 \<times> bytes" where
  "row_key r = (sr_seq r, st_body (sr_standing r))"

definition row_about :: "env \<Rightarrow> group_id \<Rightarrow> chain \<Rightarrow> peer_id \<Rightarrow> standing \<Rightarrow> stand_row option" where
  "row_about E g c p s =
     (case standing_verify E g s of
        Inl _ \<Rightarrow> None
      | Inr body \<Rightarrow>
          if parse_peer E (sb_peer body) = Some p \<and> ever_mentioned E c p
          then Some \<lparr>sr_seq = sb_seq body, sr_position = sb_position body, sr_standing = s\<rparr>
          else None)"

definition keep_row :: "env \<Rightarrow> group_id \<Rightarrow> chain \<Rightarrow> peer_id \<Rightarrow> standing \<Rightarrow> stand_row option \<Rightarrow> stand_row option" where
  "keep_row E g c p s old =
     (case row_about E g c p s of
        None \<Rightarrow> old
      | Some new \<Rightarrow>
          (case old of
             Some r \<Rightarrow> if wins (row_key new) (row_key r) then Some new else Some r
           | None \<Rightarrow> Some new))"

lemma word_of_row:
  assumes "rows_ok E g (t_standings S g)" "map_of (t_standings S g) p = Some r"
  shows "\<exists>h. map_of (load_standings E S g) p = Some h \<and> held_key h = row_key r"
proof -
  from row_word_ok [OF assms] obtain body where
    b: "standing_verify E g (sr_standing r) = Inr body" "row_word E r = Some (held_of (sr_standing r) body)"
    by blast
  from assms obtain body' where "standing_verify E g (sr_standing r) = Inr body'" "sr_seq r = sb_seq body'"
    unfolding rows_ok_def by blast
  with b assms show ?thesis
    by (auto simp: get_load held_of_def held_key_def row_key_def)
qed

lemma load_None: "rows_ok E g (t_standings S g) \<Longrightarrow> map_of (t_standings S g) p = None \<Longrightarrow>
    map_of (load_standings E S g) p = None"
  by (simp add: get_load)

lemma put_standing_row:
  assumes "put_step_ok E g S0 (w, S, d)" "put_standing E g c s (w, S, d) = (w', S', d')"
  shows "map_of (t_standings S' g) p = keep_row E g c p s (map_of (t_standings S g) p)"
proof -
  from assms(1) have rows: "rows_ok E g (t_standings S g)"
    and words: "\<And>q. map_of w q = map_of (load_standings E S g) q" by (auto simp: put_step_ok_def)
  have om: "om_inv (t_standings S g)" using rows by simp
  show ?thesis
  proof (cases "standing_verify E g s")
    case (Inl e)
    with assms(2) show ?thesis by (simp add: put_standing_def keep_row_def row_about_def)
  next
    case (Inr body)
    show ?thesis
    proof (cases "parse_peer E (sb_peer body)")
      case None
      with Inr assms(2) show ?thesis by (simp add: put_standing_def keep_row_def row_about_def)
    next
      case (Some q)
      let ?new = "\<lparr>sr_seq = sb_seq body, sr_position = sb_position body, sr_standing = s\<rparr>"
      have key: "held_key (held_of s body) = row_key ?new" by (simp add: held_key_def held_of_def row_key_def)
      have won: "fst (set_insert q (held_of s body) w) \<longleftrightarrow>
          (case map_of (t_standings S g) q of Some r \<Rightarrow> wins (row_key ?new) (row_key r) | None \<Rightarrow> True)"
      proof (cases "map_of (t_standings S g) q")
        case None
        with load_None [OF rows] words show ?thesis by (simp add: set_insert_def)
      next
        case (Some r)
        from word_of_row [OF rows Some] obtain h where "map_of w q = Some h" "held_key h = row_key r"
          using words by auto
        with Some key show ?thesis by (simp add: set_insert_def)
      qed
      have res: "t_standings S' g = (if ever_mentioned E c q \<and> fst (set_insert q (held_of s body) w)
          then om_put q ?new (t_standings S g) else t_standings S g)"
        using assms(2) Inr Some
        by (auto simp: put_standing_def write_standing_def case_prod_unfold Let_def split: if_splits)
      show ?thesis
        unfolding res using won Inr Some om
        by (auto simp: keep_row_def row_about_def om_simps split: option.splits if_splits)
    qed
  qed
qed

lemma put_standings_row:
  assumes "put_step_ok E g S0 (w, S, d)" "fold (put_standing E g c) ss (w, S, d) = (w', S', d')"
  shows "map_of (t_standings S' g) p = fold (keep_row E g c p) ss (map_of (t_standings S g) p)"
  using assms
proof (induction ss arbitrary: w S d)
  case (Cons s ss)
  obtain w1 S1 d1 where 1: "put_standing E g c s (w, S, d) = (w1, S1, d1)" by (metis prod_cases3)
  with put_standing_ok [OF Cons.prems(1), of c s] have "put_step_ok E g S0 (w1, S1, d1)" by simp
  from Cons.IH [OF this] Cons.prems 1 put_standing_row [OF Cons.prems(1) 1, of p] show ?case by simp
qed simp

text \<open>A table holds a row per member at most; \<open>put\<close> keeps the strongest.\<close>

lemma put_tx_rows:
  assumes inv: "others_inv E g S" and plan: "plan_ok E g S plan"
  shows "map_of (t_standings (snd (put_tx E g plan ss now S)) g) p =
    (if members_contains (chain_fold E (pp_chain plan)) p
     then fold (keep_row E g (pp_chain plan) p) ss (map_of (t_standings S g) p) else None)"
proof -
  let ?c = "pp_chain plan"
  let ?M = "moved_store E g plan S"
  obtain w T d where f: "fold (put_standing E g ?c) ss (load_standings E ?M g, ?M, []) = (w, T, d)"
    by (metis prod_cases3)
  have om: "om_inv (t_groups S)" using inv by (simp add: others_inv_def)
  from moved_store_facts [OF om plan] have st: "t_standings ?M = t_standings S"
    and rows: "rows_ok E g (t_standings S g)" by auto
  have ok: "put_step_ok E g ?M (load_standings E ?M g, ?M, [])" using rows st by (simp add: put_step_ok_def)
  from put_standings_ok [OF ok, of ?c ss] f have "rows_ok E g (t_standings T g)" by (simp add: put_step_ok_def)
  then have T: "om_inv (t_standings T g)" by (rule rows_ok_inv)
  have "snd (put_tx E g plan ss now S) = update_row g
      (\<lambda>r. r\<lparr>gr_name := chain_name ?c, gr_last_synced := now\<rparr>) (rebuild_caches E g ?c w T)"
    by (simp add: put_tx_moved [OF plan] Let_def f)
  then have "t_standings (snd (put_tx E g plan ss now S)) g =
      filter (\<lambda>(p, r). om_has (name_from w (chain_fold E ?c)) p) (t_standings T g)"
    by (simp add: rebuild_caches_def Let_def)
  moreover have "om_has (name_from w (chain_fold E ?c)) p \<longleftrightarrow> members_contains (chain_fold E ?c) p"
    using name_from_facts(2) by (simp add: members_contains_def)
  ultimately show ?thesis
    using put_standings_row [OF ok f, of p] st T by (simp add: om_get_filter split: option.split)
qed

section \<open>The strongest row\<close>

definition beats :: "stand_row option \<Rightarrow> stand_row option \<Rightarrow> bool" where
  "beats a b \<longleftrightarrow> (case a of None \<Rightarrow> False
     | Some x \<Rightarrow> (case b of None \<Rightarrow> True | Some y \<Rightarrow> wins (row_key x) (row_key y)))"

lemma keep_row_beats:
  "keep_row E g c p s old = (if beats (row_about E g c p s) old then row_about E g c p s else old)"
  by (auto simp: keep_row_def beats_def split: option.splits)

lemma beats_trans: "beats x y \<Longrightarrow> beats y z \<Longrightarrow> beats x z"
  by (auto simp: beats_def split: option.splits intro: wins_trans)

lemma beats_irrefl [simp]: "\<not> beats x x"
  by (simp add: beats_def split: option.splits)

lemma beats_asym: "beats x y \<Longrightarrow> \<not> beats y x"
  using beats_trans beats_irrefl by blast

lemma not_beats_trans: "\<not> beats x y \<Longrightarrow> beats z y \<Longrightarrow> \<not> beats x z"
  using beats_trans by blast

text \<open>Nothing received beats what is kept, and what is kept is the old row or something received.\<close>

lemma fold_keep_grows: "\<not> beats x old \<Longrightarrow> \<not> beats x (fold (keep_row E g c p) ss old)"
proof (induction ss arbitrary: old)
  case (Cons s ss)
  have "\<not> beats x (keep_row E g c p s old)"
    using Cons.prems beats_trans [of x "row_about E g c p s" old]
    by (auto simp: keep_row_beats)
  with Cons.IH show ?case by simp
qed simp

lemma fold_keep_max: "s \<in> set ss \<Longrightarrow> \<not> beats (row_about E g c p s) (fold (keep_row E g c p) ss old)"
proof (induction ss arbitrary: old)
  case (Cons a ss)
  show ?case
  proof (cases "s = a")
    case True
    have "\<not> beats (row_about E g c p a) (keep_row E g c p a old)" by (simp add: keep_row_beats)
    from fold_keep_grows [OF this] True show ?thesis by simp
  next
    case False
    with Cons show ?thesis by simp
  qed
qed simp

lemma fold_keep_in:
  "fold (keep_row E g c p) ss old = old \<or> (\<exists>s \<in> set ss. fold (keep_row E g c p) ss old = row_about E g c p s)"
proof (induction ss arbitrary: old)
  case (Cons a ss)
  have "keep_row E g c p a old = old \<or> keep_row E g c p a old = row_about E g c p a"
    by (simp add: keep_row_beats)
  with Cons.IH [of "keep_row E g c p a old"] show ?case by auto
qed simp

lemma fold_keep_id: "(\<And>s. s \<in> set ss \<Longrightarrow> \<not> beats (row_about E g c p s) old) \<Longrightarrow>
    fold (keep_row E g c p) ss old = old"
  by (induction ss) (simp_all add: keep_row_beats)

lemma fold_keep_idem:
  "fold (keep_row E g c p) ss (fold (keep_row E g c p) ss old) = fold (keep_row E g c p) ss old"
  by (rule fold_keep_id) (rule fold_keep_max)

section \<open>Repeating a put\<close>

text \<open>A departure is reported only for a member whose statement won.\<close>

lemma put_standing_departed:
  assumes "put_step_ok E g S0 (w, S, d)" "put_standing E g c s (w, S, d) = (w', S', d')"
  shows "d' = d \<or> (\<exists>p. d' = d @ [p] \<and> members_contains (chain_fold E c) p
    \<and> beats (row_about E g c p s) (map_of (t_standings S g) p))"
proof -
  from assms(1) have rows: "rows_ok E g (t_standings S g)"
    and words: "\<And>q. map_of w q = map_of (load_standings E S g) q" by (auto simp: put_step_ok_def)
  show ?thesis
  proof (cases "d' = d")
    case False
    with assms(2) obtain body p where b: "standing_verify E g s = Inr body" "parse_peer E (sb_peer body) = Some p"
      "ever_mentioned E c p" "fst (set_insert p (held_of s body) w)" "members_contains (chain_fold E c) p"
      "d' = d @ [p]"
      by (auto simp: put_standing_def case_prod_unfold Let_def split: sum.splits option.splits if_splits)
    have "beats (row_about E g c p s) (map_of (t_standings S g) p)"
    proof (cases "map_of (t_standings S g) p")
      case None
      with b show ?thesis by (simp add: beats_def row_about_def)
    next
      case (Some r)
      from word_of_row [OF rows Some] obtain h where "map_of w p = Some h" "held_key h = row_key r"
        using words by auto
      with b Some show ?thesis
        by (auto simp: beats_def row_about_def set_insert_def held_key_def held_of_def row_key_def split: if_splits)
    qed
    with b show ?thesis by blast
  qed simp
qed

lemma put_standings_departed:
  assumes "put_step_ok E g S0 (w, S, d)" "fold (put_standing E g c) ss (w, S, d) = (w', S', d')"
    and "\<And>s p. s \<in> set ss \<Longrightarrow> members_contains (chain_fold E c) p \<Longrightarrow>
      \<not> beats (row_about E g c p s) (map_of (t_standings S g) p)"
  shows "d' = d"
  using assms
proof (induction ss arbitrary: w S d)
  case (Cons s ss)
  obtain w1 S1 d1 where 1: "put_standing E g c s (w, S, d) = (w1, S1, d1)" by (metis prod_cases3)
  have row: "map_of (t_standings S1 g) p = map_of (t_standings S g) p"
    if "members_contains (chain_fold E c) p" for p
    using put_standing_row [OF Cons.prems(1) 1, of p] Cons.prems(3) [OF _ that, of s]
    by (simp add: keep_row_beats)
  have "d1 = d"
    using put_standing_departed [OF Cons.prems(1) 1] Cons.prems(3) [of s] by auto
  moreover have "d' = d1"
  proof (rule Cons.IH)
    show "put_step_ok E g S0 (w1, S1, d1)" using put_standing_ok [OF Cons.prems(1), of c s] 1 by simp
    show "fold (put_standing E g c) ss (w1, S1, d1) = (w', S', d')" using Cons.prems(2) 1 by simp
    show "\<And>s p. s \<in> set ss \<Longrightarrow> members_contains (chain_fold E c) p \<Longrightarrow>
      \<not> beats (row_about E g c p s) (map_of (t_standings S1 g) p)"
      using Cons.prems(3) row by simp
  qed
  ultimately show ?case by simp
qed simp

lemma members_diff_self: "members_inv m \<Longrightarrow> members_diff m m = []"
proof -
  assume "members_inv m"
  then have "set (members_diff m m) = {}" by (simp add: members_diff_set)
  then show ?thesis by simp
qed

text \<open>Two stores that differ in one group at most, and agree there, are equal.\<close>

lemma same_store:
  assumes "only_group g S T" "om_inv (t_groups S)" "map_of (t_groups S) g = map_of (t_groups T) g"
    and "t_entries S g = t_entries T g" "t_standings S g = t_standings T g" "t_members S g = t_members T g"
  shows "T = S"
proof -
  have "map_of (t_groups T) = map_of (t_groups S)"
    using assms(1-3) by (auto simp: only_group_def fun_eq_iff) (metis+)
  moreover have "om_inv (t_groups T)" using assms(1,2) by (simp add: only_group_def)
  ultimately have "t_groups T = t_groups S" using assms(2) by (intro om_ext)
  moreover have "t_entries T x = t_entries S x \<and> t_standings T x = t_standings S x \<and> t_members T x = t_members S x"
    for x using assms by (cases "x = g") (simp_all add: only_group_def)
  then have "t_entries T = t_entries S" "t_standings T = t_standings S" "t_members T = t_members S"
    by (simp_all add: fun_eq_iff)
  moreover have "gs_me T = gs_me S" using assms(1) by (simp add: only_group_def)
  ultimately show ?thesis by (cases S; cases T) simp
qed

lemma group_inv_om: "group_inv E S g \<Longrightarrow> om_inv (t_standings S g)"
  by (auto simp: group_inv_def intro: rows_ok_inv)

lemma same_row:
  assumes "row_fits g r c" "row_fits g r' c" "gr_digest r = gr_digest r'" "gr_state r = gr_state r'"
    and "gr_first_seen r = gr_first_seen r'" "gr_news r = gr_news r'" "gr_last_synced r = gr_last_synced r'"
  shows "r = r'"
  using assms by (cases r; cases r') (simp add: row_fits_def)

lemma put_tx_nothing_new:
  assumes inv: "store_inv E S" and r: "map_of (t_groups S) g = Some r" and c: "group_fits E S g r c"
    and rows: "rows_ok E g (t_standings S g)" and now: "gr_last_synced r = now"
    and old: "\<And>s p. s \<in> set ss \<Longrightarrow> members_contains (chain_fold E c) p \<Longrightarrow>
      \<not> beats (row_about E g c p s) (map_of (t_standings S g) p)"
  shows "put_tx E g \<lparr>pp_chain = c, pp_before = chain_fold E c, pp_head_seq = chain_len c,
      pp_fresh = [], pp_accepted = 0\<rparr> ss now S =
    (Inr \<lparr>ap_accepted = 0, ap_head_seq = chain_len c, ap_added = [], ap_removed = [],
          ap_we_joined = False, ap_we_lost = False, ap_departed = []\<rparr>, S)" (is "put_tx E g ?plan ss now S = _")
proof -
  from c have core: "core_fits E S g r c" by (simp add: group_fits_core)
  note plan = put_read_nothing(2) [OF r core rows]
  obtain w T d where f: "fold (put_standing E g c) ss (load_standings E S g, S, []) = (w, T, d)"
    by (metis prod_cases3)
  have M: "moved_store E g ?plan S = S" by (simp add: moved_store_def)
  have "put_step_ok E g S (load_standings E S g, S, [])" using rows by (simp add: put_step_ok_def)
  from put_standings_departed [OF this f old] have d: "d = []" by blast
  from put_tx_ok [OF store_inv_others [OF inv] plan, of ss now] r obtain ap S' r' where
    tx: "put_tx E g ?plan ss now S = (Inr ap, S')" and S': "store_inv E S'" "only_group g S S'"
      "map_of (t_groups S') g = Some r'" "group_fits E S' g r' c"
      "gr_state r' = gr_state r" "gr_first_seen r' = gr_first_seen r" "gr_news r' = gr_news r"
      "gr_last_synced r' = now"
    by auto
  have om: "om_inv (t_standings S g)" "om_inv (t_standings S' g)"
    using store_inv_group [OF inv, of g] store_inv_group [OF S'(1), of g] by (simp_all add: group_inv_om)
  have "map_of (t_standings S' g) p = map_of (t_standings S g) p" for p
  proof (cases "members_contains (chain_fold E c) p")
    case True
    then have "fold (keep_row E g c p) ss (map_of (t_standings S g) p) = map_of (t_standings S g) p"
      using old by (intro fold_keep_id) blast
    with True put_tx_rows [OF store_inv_others [OF inv] plan, of ss now p] tx show ?thesis by simp
  next
    case False
    with c have "\<not> om_has (t_standings S g) p" by (auto simp: group_fits_def caches_fit_def)
    with False put_tx_rows [OF store_inv_others [OF inv] plan, of ss now p] tx show ?thesis
      by (simp add: om_has_def)
  qed
  with om have st: "t_standings S' g = t_standings S g" by (intro om_ext) auto
  then have words: "load_standings E S' g = load_standings E S g" by (simp add: load_standings_def)
  have "r' = r" using c S' words now by (intro same_row) (auto simp: group_fits_def caches_fit_def)
  moreover have "t_entries S' g = t_entries S g" "t_members S' g = t_members S g"
    using c S'(4) words by (simp_all add: group_fits_def caches_fit_def)
  ultimately have "S' = S"
    using same_store [OF S'(2)] inv r S'(3) st by (simp add: store_inv_def)
  moreover have "ap = \<lparr>ap_accepted = 0, ap_head_seq = chain_len c, ap_added = [], ap_removed = [],
          ap_we_joined = False, ap_we_lost = False, ap_departed = []\<rparr>"
    using tx by (simp add: put_tx_moved [OF plan] M f d Let_def members_diff_self)
  ultimately show ?thesis using tx by simp
qed

end
