(* ===== verification/ChainTheorems.thy ===== *)
theory ChainTheorems
  imports Sample
begin

text \<open>
  The properties of the membership log: which entry lists a node accepts, that accepting is
  independent of batching, what the fold of an accepted chain guarantees, and what its head
  commits to.
\<close>

section \<open>The rules, declaratively\<close>

definition chain_prefix :: "chain \<Rightarrow> nat \<Rightarrow> chain" where
  "chain_prefix c i = c\<lparr>ch_entries := take i (ch_entries c)\<rparr>"

definition genesis_op_ok :: "env \<Rightarrow> chain \<Rightarrow> bool" where
  "genesis_op_ok E c \<longleftrightarrow> (\<exists>a n name. eb_op (v_body (ch_entries c ! 0)) = Create a n name
     \<and> parse_peer E a = Some (ch_admin c) \<and> name \<noteq> [] \<and> length name \<le> MAX_NAME_LEN)"

definition rules_hold :: "env \<Rightarrow> chain \<Rightarrow> bool" where
  "rules_hold E c \<longleftrightarrow> ch_entries c \<noteq> [] \<and> genesis_op_ok E c
     \<and> (\<forall>i < chain_len c. entry_fits E c i)
     \<and> (\<forall>i. 0 < i \<and> i < chain_len c \<longrightarrow> op_allowed E (chain_prefix c i) (eb_op (v_body (ch_entries c ! i))))"

lemma chain_prefix_push:
  "i \<le> length (ch_entries c) \<Longrightarrow> chain_prefix (chain_push c v) i = chain_prefix c i"
  by (simp add: chain_prefix_def chain_push_def)

lemma chain_prefix_all: "chain_prefix c (length (ch_entries c)) = c"
  by (simp add: chain_prefix_def)

lemma chain_ok_rules: "chain_ok E c \<Longrightarrow> rules_hold E c"
proof (induction rule: chain_ok.induct)
  case (genesis e i adm v)
  then have "entry_fits E \<lparr>ch_id = i, ch_admin = adm, ch_entries = [v]\<rparr> 0"
    using chain_ok_entry_fits [OF chain_ok.genesis [OF genesis]] by (simp add: chain_len_def)
  with genesis show ?case
    by (auto simp: rules_hold_def genesis_op_ok_def chain_len_def check_genesis_iff)
next
  case (push c e v)
  have ok: "chain_ok E (chain_push c v)" using push.hyps by (rule chain_ok.push)
  have "op_allowed E (chain_prefix (chain_push c v) i) (eb_op (v_body (ch_entries (chain_push c v) ! i)))"
    if "0 < i" "i < chain_len (chain_push c v)" for i
  proof (cases "i = length (ch_entries c)")
    case True
    with push.hyps(2) show ?thesis
      by (auto simp: chain_prefix_push chain_prefix_all check_next_iff)
  next
    case False
    with that push.IH show ?thesis
      by (auto simp: rules_hold_def chain_prefix_push chain_len_def nth_append)
  qed
  with push.IH chain_ok_entry_fits [OF ok] show ?case
    by (auto simp: rules_hold_def genesis_op_ok_def nth_append)
qed

lemma fits_verified:
  "entry_fits E c i \<Longrightarrow> ch_entries c ! i = \<lparr>v_entry = v_entry (ch_entries c ! i),
     v_body = v_body (ch_entries c ! i), v_hash = entry_hash_of E (v_entry (ch_entries c ! i))\<rparr>"
  by (auto simp: entry_fits_def Let_def entry_hash_of_def)

lemma rules_butlast:
  assumes "rules_hold E (chain_push c v)" "ch_entries c \<noteq> []"
  shows "rules_hold E c"
proof -
  have "chain_len (chain_push c v) = Suc (chain_len c)" by (simp add: chain_len_def)
  moreover have "entry_fits E c i" if "i < chain_len c" for i
    using assms(1) that entry_fits_push [of i c E v] by (simp add: rules_hold_def chain_len_def)
  moreover have "op_allowed E (chain_prefix c i) (eb_op (v_body (ch_entries c ! i)))"
    if "0 < i" "i < chain_len c" for i
    using assms(1) that by (auto simp: rules_hold_def chain_len_def chain_prefix_push nth_append
        dest!: spec [of _ i])
  moreover have "genesis_op_ok E c"
    using assms by (simp add: rules_hold_def genesis_op_ok_def nth_append)
  ultimately show ?thesis using assms(2) by (simp add: rules_hold_def)
qed

lemma rules_next:
  assumes "rules_hold E (chain_push c v)" "ch_entries c \<noteq> []"
  shows "check_next E c (v_entry v) = Inr v"
proof -
  let ?n = "length (ch_entries c)"
  have last: "entry_fits E (chain_push c v) ?n" "op_allowed E c (eb_op (v_body v))"
    using assms by (auto simp: rules_hold_def chain_len_def chain_prefix_push chain_prefix_all
        dest!: spec [of _ ?n])
  have "v_hash (ch_entries (chain_push c v) ! (?n - 1)) = chain_head c"
    using assms(2) by (simp add: nth_append chain_head_last last_conv_nth)
  with last assms(2) fits_verified [OF last(1)] show ?thesis
    by (auto simp: check_next_iff entry_fits_def Let_def chain_len_def signed_by_def)
qed

lemma rules_genesis:
  assumes "rules_hold E \<lparr>ch_id = i, ch_admin = adm, ch_entries = [v]\<rparr>"
  shows "check_genesis E (v_entry v) = Inr (i, adm, v)"
proof -
  let ?c = "\<lparr>ch_id = i, ch_admin = adm, ch_entries = [v]\<rparr>"
  have "entry_fits E ?c 0" "genesis_op_ok E ?c" using assms by (simp_all add: rules_hold_def chain_len_def)
  with fits_verified [of E ?c 0] show ?thesis
    by (auto simp: check_genesis_iff entry_fits_def genesis_op_ok_def signed_by_def split: option.splits)
qed

lemma rules_chain_ok: "rules_hold E c \<Longrightarrow> chain_ok E c"
proof (induction "ch_entries c" arbitrary: c rule: rev_induct)
  case Nil
  then show ?case by (simp add: rules_hold_def)
next
  case (snoc v vs)
  let ?c = "c\<lparr>ch_entries := vs\<rparr>"
  have c: "c = chain_push ?c v" using snoc.hyps(2) by (simp add: chain_push_def)
  show ?case
  proof (cases "vs = []")
    case True
    then have "c = \<lparr>ch_id = ch_id c, ch_admin = ch_admin c, ch_entries = [v]\<rparr>" using snoc.hyps(2) by simp
    with snoc.prems chain_ok.genesis rules_genesis show ?thesis by metis
  next
    case False
    with snoc.prems c have "rules_hold E (chain_push ?c v)" "ch_entries ?c \<noteq> []" by simp_all
    from snoc.hyps(1) [OF _ rules_butlast [OF this]] chain_ok.push [OF _ rules_next [OF this]] c
    show ?thesis by simp
  qed
qed

lemma chain_ok_iff: "chain_ok E c \<longleftrightarrow> rules_hold E c"
  using chain_ok_rules rules_chain_ok by blast

section \<open>Lemmas on heads\<close>

lemma head_hash_at: "chain_ok E c \<Longrightarrow> hash_at c (chain_len c - 1) = Some (chain_head c)"
  using chain_ok_nonempty [of E c] by (simp add: hash_at_def chain_len_def chain_head_last last_conv_nth)

lemma bodies_entries: "map e_body (chain_entries c) = bodies c"
  by (simp add: bodies_def chain_entries_def comp_def)

lemma same_bodies_same_ops:
  assumes "chain_ok E c" "chain_ok E d" "bodies c = bodies d"
  shows "map v_body (ch_entries c) = map v_body (ch_entries d)"
proof (rule nth_equalityI)
  from assms(3) have len: "chain_len c = chain_len d"
    unfolding bodies_def chain_len_def by (metis length_map)
  then show "length (map v_body (ch_entries c)) = length (map v_body (ch_entries d))"
    by (simp add: chain_len_def)
  fix i assume "i < length (map v_body (ch_entries c))"
  then have i: "i < chain_len c" "i < chain_len d" using len by (simp_all add: chain_len_def)
  have "bodies c ! i = bodies d ! i" using assms(3) by simp
  with i chain_ok_entry_fits [OF assms(1) i(1)] chain_ok_entry_fits [OF assms(2) i(2)]
  show "map v_body (ch_entries c) ! i = map v_body (ch_entries d) ! i"
    by (simp add: entry_fits_def Let_def bodies_def chain_len_def)
qed

lemma fold_from_map: "fold_from E m vs = fold (\<lambda>b. apply_op E (eb_op b)) (map v_body vs) m"
  by (induction vs arbitrary: m) simp_all

lemma fold_from_bodies: "map v_body vs = map v_body ws \<Longrightarrow> fold_from E m vs = fold_from E m ws"
  by (simp only: fold_from_map)

lemma same_bodies_same_group:
  assumes "chain_ok E c" "chain_ok E d" "bodies c = bodies d"
  shows "ch_id c = ch_id d \<and> ch_admin c = ch_admin d \<and> chain_name c = chain_name d
    \<and> chain_fold E c = chain_fold E d"
proof -
  note ops = same_bodies_same_ops [OF assms]
  have r: "rules_hold E c" "rules_hold E d" using assms by (simp_all add: chain_ok_iff)
  obtain v vs where v: "ch_entries c = v # vs" using r(1) by (cases "ch_entries c") (simp_all add: rules_hold_def)
  obtain w ws where w: "ch_entries d = w # ws" using r(2) by (cases "ch_entries d") (simp_all add: rules_hold_def)
  have e: "e_body (v_entry v) = e_body (v_entry w)" using assms(3) v w by (simp add: bodies_def)
  have b: "v_body v = v_body w" using ops v w by simp
  have f: "entry_fits E c 0" "entry_fits E d 0" using r v w by (simp_all add: rules_hold_def chain_len_def)
  have g: "genesis_op_ok E c" "genesis_op_ok E d" using r by (simp_all add: rules_hold_def)
  have "ch_id c = ch_id d" using f e v w by (simp add: entry_fits_def Let_def)
  moreover have "ch_admin c = ch_admin d" using g b v w by (auto simp: genesis_op_ok_def)
  moreover have "chain_name c = chain_name d" using b v w by (simp add: chain_name_def)
  moreover have "chain_fold E c = chain_fold E d"
    unfolding chain_fold_def using ops by (rule fold_from_bodies)
  ultimately show ?thesis by simp
qed

section \<open>Properties\<close>

text \<open>C2. \<open>MembershipChain::load\<close> accepts a list of entries exactly when it is not empty, entry 0 is
  a \<open>Create\<close> naming a parseable admin and a name of 1 to 64 bytes, every entry decodes, is within
  the size limit, carries its position, is linked to the hash of the one before it, belongs to the
  group its genesis entry hashes to and is signed by the admin, and every later operation was
  allowed for the members at that point (no second genesis, no removal of the admin or of a
  non-member, no unusable key). The chain then holds exactly those entries.\<close>

theorem load_iff_rules:
  "chain_load E es = Inr c \<longleftrightarrow> rules_hold E c \<and> chain_entries c = es"
  by (simp add: chain_load_iff chain_ok_iff)

text \<open>C26. Extending a chain is all or nothing and does not depend on how entries are batched: one
  \<open>extend\<close> with two batches joined succeeds exactly when the two \<open>extend\<close>s in turn do, with the
  same chain and the sum of the counts; on any error the chain is the one before the call.\<close>

theorem extend_batches:
  "chain_extend E c (xs @ ys) =
     (case chain_extend E c xs of
        (Inl err, _) \<Rightarrow> (Inl err, c)
      | (Inr n, c1) \<Rightarrow>
          (case chain_extend E c1 ys of
             (Inl err, c1') \<Rightarrow> (Inl err, c)
           | (Inr m, c2) \<Rightarrow> (Inr (n + m), c2)))"
  by (auto simp: chain_extend_steps chain_steps_append split: sum.splits)

text \<open>C27. In every loaded chain the admin is a member and the only one marked as admin, so no
  sequence of operations can leave a group without its admin; the group's name is never empty and
  at most 64 bytes.\<close>

theorem admin_is_member:
  assumes "chain_load E es = Inr c"
  shows "members_contains (chain_fold E c) (ch_admin c)
    \<and> (\<forall>p x. map_of (chain_fold E c) p = Some x \<longrightarrow> (m_is_admin x \<longleftrightarrow> p = ch_admin c))
    \<and> chain_name c \<noteq> [] \<and> length (chain_name c) \<le> MAX_NAME_LEN"
  using chain_ok_admin [of E c] chain_ok_name [of E c] assms by (simp add: chain_load_iff)

theorem admin_is_member_witness: "members_contains (chain_fold sample chain4) alice"
  using admin_is_member [OF loads(4)] by (simp add: id_samples)

text \<open>C17. \<open>departure_seq\<close> is what membership says: a peer that was ever in (the admin, or added) is
  a member now exactly when \<open>departure_seq\<close> finds no entry, and an entry it finds is a removal of
  that peer after which no entry brings it back. \<open>serve\<close> relies on it to cut the chain.\<close>

theorem departure_seq_correct:
  assumes "base58_ok E" "chain_load E es = Inr c"
  shows "(members_contains (chain_fold E c) p \<longleftrightarrow> ever_member E c p \<and> departure_seq E c p = None)
    \<and> (\<forall>i. departure_seq E c p = Some i \<longrightarrow> i < chain_len c
          \<and> op_removes E p (eb_op (v_body (ch_entries c ! i)))
          \<and> (\<forall>j. i < j \<and> j < chain_len c \<longrightarrow> \<not> op_adds E p (eb_op (v_body (ch_entries c ! j)))))"
proof -
  from assms(2) have c: "chain_ok E c" by (simp add: chain_load_iff)
  from departure_iff [OF assms(1) c] departure_entry [OF assms(1) c] show ?thesis by blast
qed

theorem departure_seq_correct_witness: "\<not> members_contains (chain_fold sample chain4) bob
    \<and> departure_seq sample chain4 bob = Some 3"
  using departure_seq_correct [OF sample_base58 loads(4), of bob]
  by (simp add: departure_seq_def chain_defs body_defs)

text \<open>C16. A head hash commits to the whole history (SHA-256 taken as injective): two chains a node
  would load that end in the same head hash have the same signed bodies, position by position,
  and so the same group, admin, name and members.\<close>

theorem head_commits:
  assumes "inj (sha256 E)" "chain_load E es = Inr c" "chain_load E fs = Inr d"
    and "chain_head c = chain_head d"
  shows "map e_body es = map e_body fs \<and> ch_id c = ch_id d \<and> ch_admin c = ch_admin d
    \<and> chain_name c = chain_name d \<and> chain_fold E c = chain_fold E d"
proof -
  from assms have c: "chain_ok E c" "chain_entries c = es" and d: "chain_ok E d" "chain_entries d = fs"
    by (simp_all add: chain_load_iff)
  have len: "0 < chain_len c" "0 < chain_len d"
    using chain_ok_nonempty [OF c(1)] chain_ok_nonempty [OF d(1)] by (simp_all add: chain_len_def)
  have "hash_at c (chain_len c - 1) = hash_at d (chain_len d - 1)"
    using head_hash_at [OF c(1)] head_hash_at [OF d(1)] assms(4) by simp
  with same_hash_same_prefix [OF assms(1) c(1) d(1), of "chain_len c - 1" "chain_len d - 1"] len
  have "chain_len c - 1 = chain_len d - 1" "take (chain_len c) (bodies c) = take (chain_len c) (bodies d)"
    by simp_all
  moreover from this(1) len have "chain_len c = chain_len d" by linarith
  ultimately have "take (chain_len c) (bodies c) = take (chain_len d) (bodies d)" by simp
  then have "bodies c = bodies d" by (simp add: bodies_def chain_len_def)
  with same_bodies_same_group [OF c(1) d(1)] bodies_entries [of c] bodies_entries [of d] c d
  show ?thesis by simp
qed

theorem head_commits_witness:
  "map e_body [ent 0, ent 1] = map e_body [ent 0, ent 1] \<and> chain_name chain2 = chain_name chain2
     \<and> chain_head chain2 = EntryHash [0, 1]"
  using head_commits [OF sample_inj loads(2) loads(2) refl] by (simp add: chain_eval)

text \<open>C28. An entry the admin signs is accepted: unless the body cannot be encoded or signed, is too
  large, or the operation breaks the rules, \<open>author\<close> returns an entry and the chain one longer,
  ending in that operation, and every replica holding the same chain extends with that entry to
  the same chain.\<close>

theorem author_accepted:
  assumes "cbor_ok E" "sign_ok E" "peer_of_key E key = ch_admin c"
    and "enc_entry E \<lparr>eb_group = ch_id c, eb_seq = chain_len c, eb_prev = chain_head c,
           eb_at = at, eb_op = x\<rparr> = Some bs"
    and "sign_bytes E key bs = Some sg" "length bs + length sg \<le> MAX_ENTRY_BYTES" "op_allowed E c x"
  shows "\<exists>c'. chain_author E key x at c = (Inr \<lparr>e_body = bs, e_signature = sg\<rparr>, c')
    \<and> chain_extend E c [\<lparr>e_body = bs, e_signature = sg\<rparr>] = (Inr 1, c')
    \<and> chain_len c' = Suc (chain_len c) \<and> eb_op (v_body (last (ch_entries c'))) = x
    \<and> chain_fold E c' = apply_op E x (chain_fold E c)"
proof -
  from chain_author_accepts [OF assms] obtain v where
    v: "chain_author E key x at c = (Inr \<lparr>e_body = bs, e_signature = sg\<rparr>, chain_push c v)"
    "eb_op (v_body v) = x" by auto
  then have "chain_steps E c [\<lparr>e_body = bs, e_signature = sg\<rparr>] = Inr (chain_push c v)"
    by (intro chain_author_steps)
  with v show ?thesis by (simp add: chain_extend_steps chain_len_def)
qed

theorem author_accepted_witness:
  "\<exists>c'. chain_author sample (Keypair 0) (Add ''aa'') 0 chain1 = (Inr (ent 1), c') \<and> chain_len c' = 2"
  using author_accepted [OF sample_cbor sample_sign, of "Keypair 0" chain1 0 "Add ''aa''" "[1]" "[0, 1]"]
    enc_sample(2)
  by (auto simp: chain_eval peer_defs ent_def)

end
