(* ===== verification/SampleStore.thy ===== *)
theory SampleStore
  imports Sample
begin

text \<open>
  The stores of the sample history: alice's after creating the group, and bob's after adopting it.
\<close>

definition row_of :: "chain \<Rightarrow> state \<Rightarrow> bytes \<Rightarrow> group_row" where
  "row_of c st dig = \<lparr>gr_id = team, gr_name = ''team'', gr_admin = alice, gr_state = st,
     gr_head_seq = chain_len c, gr_head_hash = chain_head c, gr_digest = dig,
     gr_first_seen = 0, gr_last_synced = 0, gr_news = 0\<rparr>"

lemma usernames: "normalise_username ''alice'' = Inr ''alice''" "normalise_username ''bob'' = Inr ''bob''"
proof -
  have p: "plain_text ''alice''" "plain_text ''bob''" by code_simp+
  have c: "list_all username_char ''alice''" "list_all username_char ''bob''" by code_simp+
  have a: "is_ascii_alphanumeric (CHR ''a'')" "is_ascii_alphanumeric (CHR ''b'')" by code_simp+
  show "normalise_username ''alice'' = Inr ''alice''"
    unfolding normalise_username_def trim_plain [OF p(1)] lowercase_plain [OF p(1)] Let_def
    using c(1) a(1) by (simp add: USERNAME_MIN_LEN_def USERNAME_MAX_LEN_def)
  show "normalise_username ''bob'' = Inr ''bob''"
    unfolding normalise_username_def trim_plain [OF p(2)] lowercase_plain [OF p(2)] Let_def
    using c(2) a(2) by (simp add: USERNAME_MIN_LEN_def USERNAME_MAX_LEN_def)
qed

lemma verify_samples:
  "standing_verify sample team stand_alice = Inr word0" "standing_verify sample team stand_bob = Inr word1"
  "standing_verify sample team stand_bob_out = Inr word2"
  unfolding standing_verify_iff
  using usernames dec_sample [unfolded body_defs]
  by (auto simp: stand_defs body_defs standing_wire_len_def MAX_STANDING_BYTES_def)

lemma author_samples:
  "standing_author sample (Keypair 0) team 1 In ''alice'' 0 = Inr stand_alice"
  "standing_author sample (Keypair 1) team 1 In ''bob'' 0 = Inr stand_bob"
  "standing_author sample (Keypair 1) team 2 Out ''bob'' 0 = Inr stand_bob_out"
  using usernames enc_sample [unfolded body_defs]
  by (simp_all add: standing_author_def stand_defs team_def peer_defs unary_def numeral_2_eq_2)

definition alice_store :: groups where
  "alice_store = \<lparr>gs_me = alice,
     t_groups = [(team, row_of chain1 Active (standings_digest sample
        [(alice, \<lparr>m_peer = alice, m_username = Some ''alice'', m_is_admin = True\<rparr>)]
        [(alice, held_of stand_alice word0)]))],
     t_entries = (\<lambda>_. [])(team := [(0, EntryHash [0, 0], ent 0)]),
     t_standings = (\<lambda>_. [])(team := [(alice, \<lparr>sr_seq = 1, sr_position = In, sr_standing = stand_alice\<rparr>)]),
     t_members = (\<lambda>_. [])(team := [(alice, \<lparr>m_peer = alice, m_username = Some ''alice'', m_is_admin = True\<rparr>)])\<rparr>"

lemma create_sample: "chain_create sample (Keypair 0) ''team'' [7] 0 = Inr chain1"
  using enc_sample(1) loads(1)
  by (simp add: chain_create_def entry_sign_def Let_def body_defs peer_defs unary_def ent_def
      entry_wire_len_def MAX_ENTRY_BYTES_def)

lemma name_samples: "chain_name chain1 = ''team''" "chain_name chain2 = ''team''"
  "chain_name chain3 = ''team''" "chain_name chain4 = ''team''"
  by (simp_all add: chain_name_def chain_defs body0_def)

lemma alice_members: "name_from [(alice, held_of stand_alice word0)] (chain_fold sample chain1)
    = [(alice, \<lparr>m_peer = alice, m_username = Some ''alice'', m_is_admin = True\<rparr>)]"
  by (simp add: fold_samples name_from_def mem_def set_username_def held_of_def word0_def)

lemma created: "store_create sample (Keypair 0) ''team'' ''alice'' (Some [7]) 0 (empty_store alice)
    = (Inr team, alice_store)"
proof -
  have "store_create sample (Keypair 0) ''team'' ''alice'' (Some [7]) 0 (empty_store alice)
    = (Inr team, rebuild_caches sample team chain1 [(alice, held_of stand_alice word0)]
        (write_standing team alice stand_alice 1 In (installed sample chain1 Active 0 (empty_store alice))))"
    using create_sample author_samples(1) verify_samples(1)
    by (simp add: store_create_def store_get_def empty_store_def id_samples installed_def set_insert_def
        next_standing_seq_def word0_def)
  also have "\<dots> = (Inr team, alice_store)"
    by (simp add: alice_store_def installed_def insert_group_def fresh_row_def row_of_def write_entries_def
        entries_samples set_head_def update_row_def id_samples rebuild_caches_def write_standing_def
        Let_def alice_members empty_store_def name_samples om_has_def entry_hash_of_def of_body_def tagged_def TAG_ENTRY_def ent_simps)
  finally show ?thesis .
qed

lemma alice_inv: "store_inv sample alice_store"
  using store_inv_create [OF store_inv_empty sample_cbor sample_base58,
      of "Keypair 0" "''team''" "''alice''" "Some [7]" 0 alice]
  by (simp add: created)

lemma alice_facts: "gs_me alice_store = alice"
  "store_get alice_store team = Some (row_of chain1 Active (standings_digest sample
        [(alice, \<lparr>m_peer = alice, m_username = Some ''alice'', m_is_admin = True\<rparr>)]
        [(alice, held_of stand_alice word0)]))"
  "store_chain sample alice_store team = Inr chain1"
  using loads(1) by (simp_all add: alice_store_def store_get_def store_chain_def)

end
