(* ===== verification/StoreTheorems.thy ===== *)
theory StoreTheorems
  imports Exchange ChainTheorems SampleStore
begin

text \<open>
  The properties of the group store: what \<open>put\<close> does and that repeating it does nothing, what
  \<open>serve\<close> discloses, the invariant of every reachable store, and that two members that fetch
  from each other agree.
\<close>

section \<open>What a put reads\<close>

definition put_overlap :: "chain \<Rightarrow> nat \<Rightarrow> entry list \<Rightarrow> nat" where
  "put_overlap c from es = min (chain_len c - from) (length es)"

lemma put_read_iff:
  assumes "store_get S g = Some r" "store_chain E S g = Inr c"
  shows "put_read E g from es S = Inr plan \<longleftrightarrow>
     from \<le> chain_len c
     \<and> (\<forall>i < put_overlap c from es. hash_at c (from + i) = Some (entry_hash_of E (es ! i)))
     \<and> (\<exists>c'. chain_steps E c (drop (put_overlap c from es) es) = Inr c'
          \<and> plan = \<lparr>pp_chain = c', pp_before = chain_fold E c, pp_head_seq = chain_len c,
              pp_fresh = drop (put_overlap c from es) es,
              pp_accepted = length es - put_overlap c from es\<rparr>)"
  using assms
  by (auto simp: put_read_def store_require_def bindE_Inr_iff Let_def chain_extend_steps
      put_overlap_def [symmetric] check_overlap_iff put_overlap_def min_def split: sum.splits)

lemma steps_hash_at:
  assumes "chain_steps E c ys = Inr c'"
  shows "i < chain_len c \<Longrightarrow> hash_at c' i = hash_at c i"
    and "chain_ok E c \<Longrightarrow> i < length ys \<Longrightarrow> hash_at c' (chain_len c + i) = Some (entry_hash_of E (ys ! i))"
proof -
  from chain_steps_grow [OF assms] obtain vs where
    vs: "c' = c\<lparr>ch_entries := ch_entries c @ vs\<rparr>" "map v_entry vs = ys" by blast
  show "i < chain_len c \<Longrightarrow> hash_at c' i = hash_at c i"
    using vs by (simp add: hash_at_def chain_len_def nth_append)
  assume ok: "chain_ok E c" and i: "i < length ys"
  from chain_ok_steps [OF ok assms] have "entry_fits E c' (chain_len c + i)"
    using i vs by (intro chain_ok_entry_fits) (auto simp: chain_len_def)
  with vs i show "hash_at c' (chain_len c + i) = Some (entry_hash_of E (ys ! i))"
    by (auto simp: entry_fits_def Let_def hash_at_def chain_len_def entry_hash_of_def nth_append)
qed

text \<open>A batch that was ingested is an overlap the next time.\<close>

lemma put_read_again:
  assumes "store_get S g = Some r" "store_chain E S g = Inr c" "chain_ok E c"
    and "put_read E g from es S = Inr plan"
    and "store_get S' g = Some r'" "store_chain E S' g = Inr (pp_chain plan)"
  shows "put_read E g from es S' = Inr \<lparr>pp_chain = pp_chain plan, pp_before = chain_fold E (pp_chain plan),
    pp_head_seq = chain_len (pp_chain plan), pp_fresh = [], pp_accepted = 0\<rparr>"
proof -
  let ?n = "put_overlap c from es"
  from assms(4) [unfolded put_read_iff [OF assms(1,2)]] have le: "from \<le> chain_len c"
    and old: "\<And>i. i < ?n \<Longrightarrow> hash_at c (from + i) = Some (entry_hash_of E (es ! i))"
    and steps: "chain_steps E c (drop ?n es) = Inr (pp_chain plan)" by auto
  have len: "chain_len (pp_chain plan) = chain_len c + (length es - ?n)"
    using chain_steps_facts(4) [OF steps] by simp
  then have n': "put_overlap (pp_chain plan) from es = length es"
    using le by (auto simp: put_overlap_def)
  have "hash_at (pp_chain plan) (from + i) = Some (entry_hash_of E (es ! i))" if "i < length es" for i
  proof (cases "i < ?n")
    case True
    then have "from + i < chain_len c" unfolding put_overlap_def by linarith
    with steps_hash_at(1) [OF steps this] old [OF True] show ?thesis by simp
  next
    case False
    with that have n: "?n = chain_len c - from" by (simp add: put_overlap_def)
    with False le have "from + i = chain_len c + (i - ?n)" by simp
    with steps_hash_at(2) [OF steps assms(3), of "i - ?n"] that False show ?thesis by simp
  qed
  then show ?thesis
    unfolding put_read_iff [OF assms(5,6)] using le len n' by (auto simp: put_overlap_def)
qed

section \<open>Reading the member cache\<close>

lemma fold_insert_contains:
  "members_inv m \<Longrightarrow> members_inv (fold (\<lambda>(p, x) m. members_set_username p (u x) (members_insert p (a x) m)) xs m)
    \<and> (members_contains (fold (\<lambda>(p, x) m. members_set_username p (u x) (members_insert p (a x) m)) xs m) q
        \<longleftrightarrow> q \<in> fst ` set xs \<or> members_contains m q)"
proof (induction xs arbitrary: m)
  case (Cons e xs)
  obtain p x where e: "e = (p, x)" by (cases e)
  have "members_contains (members_set_username p v k) q = members_contains k q" if "members_inv k" for v k q
    using that by (auto simp: members_set_username_def members_contains_def om_has_def om_simps split: option.split)
  with Cons e show ?case by (auto simp: Cons.IH [of "members_set_username p (u x) (members_insert p (a x) m)"])
qed simp

lemma store_members_contains:
  "members_contains (store_members S g) p \<longleftrightarrow> om_has (t_members S g) p"
  using fold_insert_contains [of "[]" m_username m_is_admin "t_members S g" p]
  by (simp add: store_members_def om_has_iff)

lemma cached_members:
  assumes "group_fits E S g r c"
  shows "members_contains (store_members S g) p \<longleftrightarrow> members_contains (chain_fold E c) p"
  unfolding store_members_contains
  using assms name_from_facts(2) [of "load_standings E S g" "chain_fold E c" p]
  by (simp add: group_fits_def caches_fit_def members_contains_def)

lemma entries_between_drop: "entries_between c from to = drop from (take to (chain_entries c))"
  by (cases "from \<le> to") (auto simp: entries_between_def chain_entries_def take_map drop_map)

section \<open>The identity of the store is fixed\<close>

lemma frame_me [simp]:
  "gs_me (write_entries E g i es S) = gs_me S" "gs_me (write_standing g p s w pos S) = gs_me S"
  "gs_me (snd (set_head g o' q h S)) = gs_me S" "gs_me (insert_group r S) = gs_me S"
  "gs_me (rebuild_caches E g c ws S) = gs_me S" "gs_me (note_news g S) = gs_me S"
  by (auto simp: write_entries_def write_standing_def set_head_def insert_group_def rebuild_caches_def
      Let_def note_news_def split: option.split)

lemma put_standing_me: "gs_me (fst (snd (put_standing E g c s st))) = gs_me (fst (snd st))"
  by (auto simp: put_standing_def case_prod_unfold Let_def split: sum.split option.split)

lemma put_standings_me: "gs_me (fst (snd (fold (put_standing E g c) ss st))) = gs_me (fst (snd st))"
  by (induction ss arbitrary: st) (simp_all add: put_standing_me)

lemma store_me:
  "gs_me (snd (put_tx E g plan ss now S)) = gs_me S"
  "gs_me (snd (store_put E g from es ss now S)) = gs_me S"
  "gs_me (snd (author_tx E g prep at S)) = gs_me S"
  "gs_me (snd (store_author E key g x at S)) = gs_me S"
  "gs_me (snd (refresh_digest E g S)) = gs_me S"
proof -
  have "gs_me (fst (snd (fold (put_standing E g c) ss (w, T, d)))) = gs_me T" for c ss w T d
    by (simp add: put_standings_me)
  moreover have "gs_me (snd (set_head g o' q h T)) = gs_me T" for o' q h T by simp
  ultimately show 1: "gs_me (snd (put_tx E g plan ss now S)) = gs_me S" for plan ss
    by (auto simp: put_tx_def Let_def case_prod_unfold)
  show 2: "gs_me (snd (author_tx E g prep at S)) = gs_me S" for prep
    by (auto simp: author_tx_def Let_def case_prod_unfold)
  show "gs_me (snd (store_put E g from es ss now S)) = gs_me S"
    by (simp add: store_put_def 1 split: sum.split)
  show "gs_me (snd (store_author E key g x at S)) = gs_me S"
    by (simp add: store_author_def 2 split: sum.split)
  show "gs_me (snd (refresh_digest E g S)) = gs_me S"
    by (simp add: refresh_digest_def split: sum.split)
qed

lemma store_step_me: "store_step E key S S' \<Longrightarrow> gs_me S' = gs_me S"
proof (induction rule: store_step.induct)
  case (create S name username nonce at)
  show ?case by (auto simp: store_create_def Let_def split: sum.split)
next
  case (adopt S es ss now)
  have "snd (case x of (Inl err, S5) \<Rightarrow> (Inl err, S5) | (Inr ap, S5) \<Rightarrow> (Inr (f ap), S5)) = snd x"
    for x :: "(store_error + applied) \<times> groups" and f :: "applied \<Rightarrow> applied"
    by (cases x) (simp split: sum.split)
  note res = this [of "\<lambda>ap. ap\<lparr>ap_head_seq := _, ap_accepted := _, ap_we_joined := _\<rparr>"]
  show ?case by (simp add: store_adopt_def Let_def store_me res split: sum.split)
next
  case (author_standing S g pos username at)
  have res: "snd (case x of (Inl err, S3) \<Rightarrow> (Inl err, S3) | (Inr _, S3) \<Rightarrow> (Inr s, S3)) = snd x"
    for x :: "(store_error + unit) \<times> groups" and s :: standing by (cases x) (simp split: sum.split)
  show ?case by (auto simp: store_author_standing_def Let_def store_me res split: sum.split)
qed (simp_all add: store_me store_news_told_def store_set_state_def store_forget_def)

lemma reachable_inv:
  assumes "reachable E key S" "cbor_ok E" "base58_ok E"
  shows "store_inv E S \<and> gs_me S = peer_of_key E key"
  using assms(1)
proof (induction rule: reachable.induct)
  case start
  show ?case by (simp add: store_inv_empty) (simp add: empty_store_def)
next
  case (step S S')
  then show ?case using store_step_inv [OF step.hyps(2)] assms(2,3) store_step_me by metis
qed

section \<open>Digests and the parts of a word they read\<close>

lemma digest_latest_cong:
  assumes "members_inv m"
    and "\<And>p. members_contains m p \<Longrightarrow> set_latest w p = set_latest w' p \<and> set_username w p = set_username w' p"
  shows "standings_digest E m w = standings_digest E m w'"
proof -
  have "digest_part E w x = digest_part E w' x" if "(p, x) \<in> set m" for p x
  proof -
    from members_set_peer [OF assms(1) that] have "members_contains m (m_peer x)" by simp
    from assms(2) [OF this] have "set_latest w (m_peer x) = set_latest w' (m_peer x)"
      and "set_username w (m_peer x) = set_username w' (m_peer x)" by simp_all
    then show ?thesis unfolding digest_part_def by (simp only:)
  qed
  then have "map (\<lambda>(p, x). digest_part E w x) m = map (\<lambda>(p, x). digest_part E w' x) m" by auto
  then show ?thesis by (simp only: standings_digest_def)
qed

lemma digest_iff:
  assumes "inj (sha256 E)" "peer_prefix_free E" "short_names s" "short_names t" "members_inv m"
  shows "standings_digest E m s = standings_digest E m t \<longleftrightarrow>
     (\<forall>p. members_contains m p \<longrightarrow> set_latest s p = set_latest t p \<and> set_username s p = set_username t p)"
proof
  assume eq: "standings_digest E m s = standings_digest E m t"
  show "\<forall>p. members_contains m p \<longrightarrow> set_latest s p = set_latest t p \<and> set_username s p = set_username t p"
    using digest_agrees [OF assms eq] by (auto simp: members_contains_def om_has_def)
next
  assume "\<forall>p. members_contains m p \<longrightarrow> set_latest s p = set_latest t p \<and> set_username s p = set_username t p"
  then show "standings_digest E m s = standings_digest E m t"
    by (intro digest_latest_cong [OF assms(5)]) simp
qed

section \<open>Two nodes exchanging what they serve\<close>

lemma member_mentioned: "chain_ok E c \<Longrightarrow> members_contains (chain_fold E c) p \<Longrightarrow> ever_mentioned E c p"
proof (induction rule: chain_ok.induct)
  case (genesis e i adm v)
  then show ?case
    by (auto simp: ever_mentioned_def chain_fold_def contains_apply_op check_genesis_iff op_adds_def)
next
  case (push c e v)
  then have v: "v_entry v = e" "dec_entry E (e_body e) = Some (v_body v)" by (auto simp: check_next_iff)
  have mono: "ever_mentioned E c p \<Longrightarrow> ever_mentioned E (chain_push c v) p"
    by (auto simp: ever_mentioned_def chain_entries_def list_ex_iff)
  have "ever_mentioned E (chain_push c v) p" if "op_adds E p (eb_op (v_body v))"
    using that v push.hyps(2)
    by (auto simp: ever_mentioned_def chain_entries_def entry_body_of_def op_adds_def check_next_iff
        op_allowed_def split: op.splits)
  with push.prems push.IH mono show ?case by (auto simp: contains_apply_op)
qed

lemma member_ever: "members_contains (chain_fold E c) p \<Longrightarrow> ever_member E c p"
proof -
  have "members_inv m \<Longrightarrow> members_contains (fold_from E m vs) p \<Longrightarrow>
      members_contains m p \<or> (\<exists>v \<in> set vs. op_adds E p (eb_op (v_body v)))" for m vs
  proof (induction vs arbitrary: m)
    case (Cons v vs)
    from Cons.IH [of "apply_op E (eb_op (v_body v)) m"] Cons.prems show ?case
      by (auto simp: contains_apply_op)
  qed simp
  from this [of "[]" "ch_entries c"]
  show "members_contains (chain_fold E c) p \<Longrightarrow> ever_member E c p"
    by (auto simp: chain_fold_def ever_member_def)
qed

lemma served_rows:
  assumes "rows_ok E g (t_standings S g)" "s \<in> set (store_standings E S g)"
  shows "\<exists>q r. map_of (t_standings S g) q = Some r \<and> sr_standing r = s"
  using assms om_in_set_iff [OF rows_ok_inv [OF assms(1)]]
  by (fastforce simp: store_standings_def)

lemma served_row_in:
  assumes "rows_ok E g (t_standings S g)" "map_of (t_standings S g) q = Some r"
  shows "sr_standing r \<in> set (store_standings E S g)"
  using assms om_in_set_iff [OF rows_ok_inv [OF assms(1)]]
  by (force simp: store_standings_def)

lemma row_about_own:
  assumes "rows_ok E g t" "map_of t q = Some r" "ever_mentioned E c p"
  shows "row_about E g c p (sr_standing r) = (if q = p then Some r else None)"
proof -
  from assms(1,2) obtain body where "standing_verify E g (sr_standing r) = Inr body"
    "parse_peer E (sb_peer body) = Some q" "sr_seq r = sb_seq body" "sr_position r = sb_position body"
    unfolding rows_ok_def by blast
  with assms(3) show ?thesis by (cases r) (auto simp: row_about_def)
qed

text \<open>Keeping what another table serves: one of the two rows, beaten by neither.\<close>

lemma keep_served:
  assumes "rows_ok E g (t_standings S g)" "ever_mentioned E c p"
  defines "a \<equiv> map_of (t_standings S g) p"
  assumes m_def: "m = fold (keep_row E g c p) (store_standings E S g) b"
  shows "(m = a \<or> m = b) \<and> \<not> beats a m \<and> \<not> beats b m"
proof (intro conjI)
  have about: "row_about E g c p s = None \<or> row_about E g c p s = a" if "s \<in> set (store_standings E S g)" for s
    using served_rows [OF assms(1) that] row_about_own [OF assms(1) _ assms(2)] by (auto simp: a_def)
  show "m = a \<or> m = b"
  proof (cases "m = b")
    case False
    with fold_keep_in [of E g c p "store_standings E S g" b] obtain s where
      "s \<in> set (store_standings E S g)" "m = row_about E g c p s" by (auto simp: m_def)
    with about have "m = None \<or> m = a" by auto
    moreover have "m \<noteq> None"
    proof
      assume "m = None"
      with fold_keep_grows [of b b E g c p "store_standings E S g"] False show False
        by (cases b) (auto simp: m_def beats_def)
    qed
    ultimately show ?thesis by blast
  qed simp
  show "\<not> beats b m" unfolding m_def by (rule fold_keep_grows) simp
  show "\<not> beats a m"
  proof (cases a)
    case None
    then show ?thesis by (simp add: beats_def)
  next
    case (Some r)
    then have "sr_standing r \<in> set (store_standings E S g)" "row_about E g c p (sr_standing r) = a"
      using served_row_in [OF assms(1)] row_about_own [OF assms(1) _ assms(2)] by (simp_all add: a_def)
    then show ?thesis using fold_keep_max unfolding m_def by metis
  qed
qed

definition same_statement :: "stand_row option \<Rightarrow> stand_row option \<Rightarrow> bool" where
  "same_statement a b \<longleftrightarrow> map_option row_key a = map_option row_key b"

lemma no_beats_same: "\<not> beats a b \<Longrightarrow> \<not> beats b a \<Longrightarrow> same_statement a b"
  using wins_total [of "row_key (the a)" "row_key (the b)"]
  by (cases a; cases b) (auto simp: beats_def same_statement_def)

lemma same_statement_word:
  assumes "rows_ok E g (t_standings S g)" "rows_ok E g (t_standings T g)"
    and "same_statement (map_of (t_standings S g) p) (map_of (t_standings T g) p)"
  shows "set_latest (load_standings E S g) p = set_latest (load_standings E T g) p
    \<and> set_username (load_standings E S g) p = set_username (load_standings E T g) p"
proof (cases "map_of (t_standings S g) p")
  case None
  with assms(3) have "map_of (t_standings T g) p = None" by (simp add: same_statement_def)
  with None assms show ?thesis by (simp add: set_latest_def set_username_def load_None)
next
  case (Some r)
  with assms(3) obtain r' where r': "map_of (t_standings T g) p = Some r'" and k: "row_key r = row_key r'"
    by (cases "map_of (t_standings T g) p") (simp_all add: same_statement_def)
  from row_word_ok [OF assms(1) Some] obtain b where
    b: "standing_verify E g (sr_standing r) = Inr b" "row_word E r = Some (held_of (sr_standing r) b)" by blast
  from row_word_ok [OF assms(2) r'] obtain b' where
    b': "standing_verify E g (sr_standing r') = Inr b'" "row_word E r' = Some (held_of (sr_standing r') b')" by blast
  have "st_body (sr_standing r) = st_body (sr_standing r')" using k by (simp add: row_key_def)
  with b(1) b'(1) have "b = b'" by (simp add: standing_verify_iff)
  with b b' Some r' assms show ?thesis
    by (simp add: set_latest_def set_username_def get_load held_of_def)
qed

lemma serve_member:
  assumes "store_inv E S" "map_of (t_groups S) g = Some r" "group_fits E S g r c"
    and "members_contains (chain_fold E c) (gs_me S)" "members_contains (chain_fold E c) p"
  shows "store_serve E S g p from = Inr (Some (drop from (chain_entries c), store_standings E S g))"
proof -
  have "take (chain_len c) (chain_entries c) = chain_entries c" by (simp add: chain_len_def chain_entries_def)
  with assms show ?thesis
    by (simp add: store_serve_def cached_members Let_def store_chain_fits entries_between_drop)
qed

text \<open>A node that fetches from where it is gets the rest of the chain and the stronger rows.\<close>

lemma pull_ok:
  assumes inv: "store_inv E B" and r: "map_of (t_groups B) g = Some r" and c: "group_fits E B g r c"
    and steps: "chain_steps E c es = Inr c'"
  shows "\<exists>ap B' r'. store_put E g (chain_len c) es ss now B = (Inr ap, B') \<and> store_inv E B'
    \<and> gs_me B' = gs_me B \<and> map_of (t_groups B') g = Some r' \<and> group_fits E B' g r' c'
    \<and> ap_accepted ap = length es
    \<and> (\<forall>p. members_contains (chain_fold E c') p \<longrightarrow>
          map_of (t_standings B' g) p = fold (keep_row E g c' p) ss (map_of (t_standings B g) p))"
proof -
  let ?plan = "\<lparr>pp_chain = c', pp_before = chain_fold E c, pp_head_seq = chain_len c, pp_fresh = es,
      pp_accepted = length es\<rparr>"
  have "store_chain E B g = Inr c" using c by (rule store_chain_fits)
  with r steps have read: "put_read E g (chain_len c) es B = Inr ?plan"
    by (simp add: put_read_iff store_get_def put_overlap_def)
  then have plan: "plan_ok E g B ?plan" by (rule put_read_plan [OF inv])
  from put_tx_ok [OF store_inv_others [OF inv] plan, of ss now] obtain ap B' r' where
    tx: "put_tx E g ?plan ss now B = (Inr ap, B')" and B': "store_inv E B'" "only_group g B B'"
      "map_of (t_groups B') g = Some r'" "group_fits E B' g r' c'" "ap_accepted ap = length es" by auto
  have "store_put E g (chain_len c) es ss now B = (Inr ap, B')" by (simp add: store_put_def read tx)
  moreover have "map_of (t_standings B' g) p = fold (keep_row E g c' p) ss (map_of (t_standings B g) p)"
    if "members_contains (chain_fold E c') p" for p
    using put_tx_rows [OF store_inv_others [OF inv] plan, of ss now p] that tx by simp
  ultimately show ?thesis using B' by (auto simp: only_group_def)
qed

lemma same_heads:
  assumes S: "store_inv E S" "map_of (t_groups S) g = Some r" "group_fits E S g r c"
    and T: "store_inv E T" "map_of (t_groups T) g = Some r'" "group_fits E T g r' c"
    and same: "\<And>p. members_contains (chain_fold E c) p \<Longrightarrow>
      same_statement (map_of (t_standings S g) p) (map_of (t_standings T g) p)"
  shows "map_option group_head_of (store_get S g) = map_option group_head_of (store_get T g)"
proof -
  have rows: "rows_ok E g (t_standings S g)" "rows_ok E g (t_standings T g)"
    using store_inv_group [OF S(1), of g] store_inv_group [OF T(1), of g] by (simp_all add: group_inv_def)
  have "standings_digest E (chain_fold E c) (load_standings E S g)
      = standings_digest E (chain_fold E c) (load_standings E T g)"
    using same_statement_word [OF rows same] by (intro digest_latest_cong) simp_all
  with S T show ?thesis
    by (simp add: store_get_def group_head_of_def group_fits_def caches_fit_def row_fits_def)
qed

section \<open>Properties\<close>

text \<open>C1. Every store reachable from an empty database by any sequence of \<open>create\<close>, \<open>put\<close>, \<open>adopt\<close>,
  \<open>author\<close>, \<open>author_standing\<close>, \<open>news_told\<close>, \<open>set_state\<close> and \<open>forget\<close> calls, failing ones included,
  is consistent: each group's row has a chain in the entries table that satisfies the rules, and the
  row's head, admin and name, the cached member list and the standings digest are what that chain
  and the standings table say.\<close>

theorem reachable_consistent:
  assumes "reachable E key S" "cbor_ok E" "base58_ok E" "store_get S g = Some r"
  shows "\<exists>c. store_chain E S g = Inr c \<and> rules_hold E c \<and> ch_id c = g
    \<and> gr_head_seq r = chain_len c \<and> gr_head_hash r = chain_head c
    \<and> gr_admin r = ch_admin c \<and> gr_name r = chain_name c
    \<and> (\<forall>p. members_contains (store_members S g) p \<longleftrightarrow> members_contains (chain_fold E c) p)
    \<and> gr_digest r = standings_digest E (chain_fold E c) (load_standings E S g)"
proof -
  from reachable_inv [OF assms(1-3)] have "store_inv E S" by simp
  from store_inv_known [OF this assms(4)] obtain c where
    c: "group_fits E S g r c" "store_chain E S g = Inr c" .
  with cached_members [OF c(1)] show ?thesis
    by (auto simp: group_fits_def caches_fit_def row_fits_def chain_ok_iff intro!: exI [of _ c])
qed

theorem reachable_consistent_witness:
  "\<exists>c. store_chain sample alice_store team = Inr c \<and> rules_hold sample c \<and> chain_len c = 1"
proof -
  have "reachable sample (Keypair 0) (empty_store (peer_of_key sample (Keypair 0)))" by (rule reachable.start)
  then have "reachable sample (Keypair 0) (empty_store alice)" by (simp add: peer_defs)
  from reachable.step [OF this store_step.create, of "''team''" "''alice''" "Some [7]" 0]
  have "reachable sample (Keypair 0) alice_store" by (simp add: created)
  from reachable_consistent [OF this sample_cbor sample_base58 alice_facts(2)] alice_facts(3)
  show ?thesis by (auto simp: len_samples)
qed

text \<open>C3. \<open>put\<close> is all or nothing. On an error the store is untouched. Otherwise the batch starts at
  or before the head, agrees with every entry already held, its remaining entries extend the held
  chain under the rules, the stored chain is exactly that extension with the count of new entries
  reported, no other group and neither this node's consent nor the news counter changes, and
  \<open>we_joined\<close>/\<open>we_lost_membership\<close> are the change in our own membership.\<close>

theorem put_outcome:
  assumes "store_inv E S" "store_put E g from es ss now S = (res, S')"
  shows "case res of
      Inl err \<Rightarrow> S' = S
    | Inr ap \<Rightarrow> \<exists>r r' c c'. store_get S g = Some r \<and> store_chain E S g = Inr c \<and> from \<le> chain_len c
        \<and> (\<forall>i < put_overlap c from es. hash_at c (from + i) = Some (entry_hash_of E (es ! i)))
        \<and> chain_extend E c (drop (put_overlap c from es) es) = (Inr (ap_accepted ap), c')
        \<and> store_chain E S' g = Inr c' \<and> ap_head_seq ap = chain_len c' \<and> only_group g S S'
        \<and> store_get S' g = Some r' \<and> gr_state r' = gr_state r \<and> gr_news r' = gr_news r
        \<and> (ap_we_joined ap \<longleftrightarrow> \<not> members_contains (chain_fold E c) (gs_me S) \<and> members_contains (chain_fold E c') (gs_me S))
        \<and> (ap_we_lost ap \<longleftrightarrow> members_contains (chain_fold E c) (gs_me S) \<and> \<not> members_contains (chain_fold E c') (gs_me S))"
proof (cases rule: store_put_cases [OF assms(1), of g "from" es ss now, case_names err ok])
  case (err e)
  with assms(2) show ?thesis by auto
next
  case (ok plan ap T)
  with assms(2) have res: "res = Inr ap" "T = S'" by simp_all
  from ok(2) obtain r c where r: "map_of (t_groups S) g = Some r" and c: "core_fits E S g r c"
    by (auto simp: plan_ok_def)
  have chain: "store_chain E S g = Inr c" using c by (rule store_chain_core)
  from ok(1) [unfolded put_read_iff [OF r [folded store_get_def] chain]] have
    le: "from \<le> chain_len c"
    and old: "\<forall>i < put_overlap c from es. hash_at c (from + i) = Some (entry_hash_of E (es ! i))"
    and steps: "chain_steps E c (drop (put_overlap c from es) es) = Inr (pp_chain plan)"
    and pp: "pp_before plan = chain_fold E c" "pp_accepted plan = length es - put_overlap c from es" by auto
  from put_tx_ok [OF store_inv_others [OF assms(1)] ok(2), of ss now] ok(4) r obtain r' where
    S': "store_inv E T" "only_group g S T" "map_of (t_groups T) g = Some r'" "group_fits E T g r' (pp_chain plan)"
      "gr_state r' = gr_state r" "gr_news r' = gr_news r"
      "ap_accepted ap = pp_accepted plan" "ap_head_seq ap = chain_len (pp_chain plan)" by auto
  have ext: "chain_extend E c (drop (put_overlap c from es) es) = (Inr (ap_accepted ap), pp_chain plan)"
    by (simp add: chain_extend_steps steps S' pp)
  have "ap_we_joined ap = (\<not> members_contains (chain_fold E c) (gs_me S) \<and> members_contains (chain_fold E (pp_chain plan)) (gs_me S))
    \<and> ap_we_lost ap = (members_contains (chain_fold E c) (gs_me S) \<and> \<not> members_contains (chain_fold E (pp_chain plan)) (gs_me S))"
    using ok(4) by (auto simp: put_tx_moved [OF ok(2)] Let_def case_prod_unfold pp)
  with r chain le old ext S' store_chain_fits [OF S'(4)] res show ?thesis
    by (auto simp: store_get_def intro!: exI [of _ "pp_chain plan"])
qed

lemma put_next: "put_read sample team 1 [ent 1] alice_store = Inr \<lparr>pp_chain = chain2,
    pp_before = chain_fold sample chain1, pp_head_seq = 1, pp_fresh = [ent 1], pp_accepted = 1\<rparr>"
  using next2 steps_sample(1)
  by (simp add: put_read_iff [OF alice_facts(2,3)] put_overlap_def len_samples)

lemma put_next_ok: "\<exists>ap S'. store_put sample team 1 [ent 1] [] 0 alice_store = (Inr ap, S')"
  using put_tx_ok [OF store_inv_others [OF alice_inv] put_read_plan [OF alice_inv put_next], of "[]" 0]
  unfolding store_put_def put_next sum.case by blast

theorem put_outcome_witness:
  "\<exists>ap S'. store_put sample team 1 [ent 1] [] 0 alice_store = (Inr ap, S')
     \<and> store_chain sample S' team = Inr chain2 \<and> ap_accepted ap = 1"
proof -
  from put_next_ok obtain ap S' where p: "store_put sample team 1 [ent 1] [] 0 alice_store = (Inr ap, S')" by blast
  from put_outcome [OF alice_inv p] alice_facts(3) obtain c' where
    "chain_extend sample chain1 (drop (put_overlap chain1 1 [ent 1]) [ent 1]) = (Inr (ap_accepted ap), c')"
    "store_chain sample S' team = Inr c'" by auto
  moreover have "put_overlap chain1 1 [ent 1] = 0" by (simp add: put_overlap_def len_samples)
  ultimately show ?thesis using p next2 steps_sample(1) by (auto simp: chain_extend_steps)
qed

text \<open>C14. Repeating a \<open>put\<close> changes nothing at all: after a \<open>put\<close> that succeeded, the same call
  succeeds, accepts no entry, reports no member change and no departure, and leaves the very same
  store.\<close>

theorem put_again:
  assumes inv: "store_inv E S" and put: "store_put E g from es ss now S = (Inr ap, S1)"
  shows "store_put E g from es ss now S1 =
    (Inr \<lparr>ap_accepted = 0, ap_head_seq = ap_head_seq ap, ap_added = [], ap_removed = [],
          ap_we_joined = False, ap_we_lost = False, ap_departed = []\<rparr>, S1)"
proof (cases rule: store_put_cases [OF inv, of g "from" es ss now, case_names err ok])
  case (err e)
  with put show ?thesis by simp
next
  case (ok plan ap' T)
  with put have res: "ap' = ap" "T = S1" by simp_all
  from ok(2) obtain r c where r: "map_of (t_groups S) g = Some r" and c: "core_fits E S g r c"
    by (auto simp: plan_ok_def)
  from put_tx_ok [OF store_inv_others [OF inv] ok(2), of ss now] ok(4) res obtain r' where
    S1: "store_inv E S1" "map_of (t_groups S1) g = Some r'" "group_fits E S1 g r' (pp_chain plan)"
      "gr_last_synced r' = now" "ap_head_seq ap = chain_len (pp_chain plan)" by auto
  from c have "chain_ok E c" by (simp add: core_fits_def)
  from put_read_again [OF r [folded store_get_def] store_chain_core [OF c] this ok(1)
      S1(2) [folded store_get_def] store_chain_fits [OF S1(3)]]
  have read: "put_read E g from es S1 = Inr \<lparr>pp_chain = pp_chain plan, pp_before = chain_fold E (pp_chain plan),
    pp_head_seq = chain_len (pp_chain plan), pp_fresh = [], pp_accepted = 0\<rparr>" .
  have rows: "rows_ok E g (t_standings S1 g)"
    using store_inv_group [OF S1(1), of g] by (simp add: group_inv_def)
  have "\<not> beats (row_about E g (pp_chain plan) p s) (map_of (t_standings S1 g) p)"
    if "s \<in> set ss" "members_contains (chain_fold E (pp_chain plan)) p" for s p
    using put_tx_rows [OF store_inv_others [OF inv] ok(2), of ss now p] that ok(4) res
      fold_keep_max [OF that(1)] by simp
  from put_tx_nothing_new [OF S1(1-3) rows S1(4) this] read S1(5)
  show ?thesis by (simp add: store_put_def)
qed

theorem put_again_witness:
  "\<exists>ap ap' S'. store_put sample team 1 [ent 1] [] 0 alice_store = (Inr ap, S')
     \<and> store_put sample team 1 [ent 1] [] 0 S' = (Inr ap', S') \<and> ap_accepted ap' = 0"
proof -
  from put_next_ok obtain ap S' where p: "store_put sample team 1 [ent 1] [] 0 alice_store = (Inr ap, S')" by blast
  from put_again [OF alice_inv p] p show ?thesis by auto
qed

text \<open>C5. What \<open>serve\<close> discloses. An answer is given only by a node that is itself a member, and
  only to a peer that was once in the group. A current member gets the whole chain from where it
  asks and every standing. A former member gets the chain up to and including the entry that
  removed it, nothing later, and no standing. A peer that was never in gets nothing.\<close>

theorem serve_discloses:
  assumes "store_inv E S" "base58_ok E" "store_get S g = Some r" "store_chain E S g = Inr c"
  shows "(\<forall>es ss. store_serve E S g p from = Inr (Some (es, ss)) \<longrightarrow>
        members_contains (chain_fold E c) (gs_me S) \<and> ever_member E c p
        \<and> (if members_contains (chain_fold E c) p
            then es = drop from (chain_entries c) \<and> ss = store_standings E S g
            else ss = [] \<and> (\<exists>i < chain_len c. op_removes E p (eb_op (v_body (ch_entries c ! i)))
              \<and> (\<forall>j. i < j \<and> j < chain_len c \<longrightarrow> \<not> op_adds E p (eb_op (v_body (ch_entries c ! j))))
              \<and> es = drop from (take (Suc i) (chain_entries c)))))
    \<and> (members_contains (chain_fold E c) (gs_me S) \<and> ever_member E c p \<longrightarrow>
        (\<exists>es ss. store_serve E S g p from = Inr (Some (es, ss))))
    \<and> (\<exists>answer. store_serve E S g p from = Inr answer)"
proof -
  from store_inv_known [OF assms(1,3)] assms(4) have fits: "group_fits E S g r c"
    by (metis sum.inject(2))
  then have ok: "chain_ok E c" by (simp add: group_fits_def)
  have serve: "store_serve E S g p from =
      (if \<not> members_contains (chain_fold E c) (gs_me S) then Inr None
       else if members_contains (chain_fold E c) p
       then Inr (Some (drop from (take (chain_len c) (chain_entries c)), store_standings E S g))
       else case departure_seq E c p of
              Some i \<Rightarrow> Inr (Some (drop from (take (Suc i) (chain_entries c)), []))
            | None \<Rightarrow> Inr None)"
    by (simp add: store_serve_def cached_members [OF fits] assms(4) entries_between_drop Let_def
        split: option.split)
  have all: "take (chain_len c) (chain_entries c) = chain_entries c"
    by (simp add: chain_len_def chain_entries_def)
  show ?thesis
  proof (cases "departure_seq E c p")
    case None
    then show ?thesis
      using departure_iff [OF assms(2) ok, of p] serve all by auto
  next
    case (Some i)
    have "ever_member E c p"
    proof (rule ccontr)
      assume never: "\<not> ever_member E c p"
      from departure_entry [OF assms(2) ok Some] have i: "i < chain_len c"
        "op_removes E p (eb_op (v_body (ch_entries c ! i)))" by auto
      from ok have "rules_hold E c" by (simp add: chain_ok_iff)
      with i have "0 < i \<and> op_allowed E (chain_prefix c i) (eb_op (v_body (ch_entries c ! i)))"
        by (cases "i = 0") (auto simp: rules_hold_def genesis_op_ok_def op_removes_def)
      with i have "members_contains (chain_fold E (chain_prefix c i)) p"
        by (auto simp: op_allowed_def op_removes_def split: op.splits option.splits)
      moreover have "ever_member E (chain_prefix c i) p \<Longrightarrow> ever_member E c p"
        by (auto simp: ever_member_def chain_prefix_def dest: in_set_takeD)
      ultimately show False using never member_ever by blast
    qed
    with Some departure_entry [OF assms(2) ok Some] departure_iff [OF assms(2) ok, of p] serve
    show ?thesis by auto
  qed
qed

theorem serve_discloses_witness:
  "\<exists>es ss. store_serve sample alice_store team alice 0 = Inr (Some (es, ss)) \<and> es = [ent 0]"
proof -
  have m: "members_contains (chain_fold sample chain1) alice"
    by (simp add: fold_samples mem_def members_contains_def om_has_def)
  from serve_discloses [OF alice_inv sample_base58 alice_facts(2,3), of alice 0] m member_ever [OF m]
  show ?thesis by (auto simp: alice_facts(1) entries_samples)
qed

text \<open>C4. Two members of a group converge in one exchange. When B's chain is a prefix of A's, B's
  fetch from its own head is answered, what it puts is accepted, A's fetch from its own head is
  answered by B and accepted too, and the two nodes then advertise the same head: same position,
  same hash and same standings digest, whatever standings each held before.\<close>

theorem exchange_converges:
  assumes A: "store_inv E A" "store_get A g = Some rA" "store_chain E A g = Inr c'"
    and B: "store_inv E B" "store_get B g = Some rB" "store_chain E B g = Inr c"
    and prefix: "chain_entries c' = chain_entries c @ es"
    and members: "members_contains (chain_fold E c') (gs_me A)" "members_contains (chain_fold E c') (gs_me B)"
  shows "\<exists>ss ap1 B' ss' ap2 A'.
      store_serve E A g (gs_me B) (chain_len c) = Inr (Some (es, ss))
    \<and> store_put E g (chain_len c) es ss now B = (Inr ap1, B')
    \<and> store_serve E B' g (gs_me A) (chain_len c') = Inr (Some ([], ss'))
    \<and> store_put E g (chain_len c') [] ss' now' A = (Inr ap2, A')
    \<and> map_option group_head_of (store_get A' g) = map_option group_head_of (store_get B' g)"
proof -
  have fA: "group_fits E A g rA c'" using store_inv_known [OF A(1,2)] A(3) by (metis sum.inject(2))
  have fB: "group_fits E B g rB c" using store_inv_known [OF B(1,2)] B(3) by (metis sum.inject(2))
  note rA = A(2) [unfolded store_get_def] and rB = B(2) [unfolded store_get_def]
  have ok: "chain_ok E c" "chain_ok E c'" using fA fB by (simp_all add: group_fits_def)
  have len: "length (chain_entries c) = chain_len c" "length (chain_entries c') = chain_len c'"
    by (simp_all add: chain_entries_def chain_len_def)
  have steps: "chain_steps E c es = Inr c'"
    using chain_load_append [OF chain_ok_load [OF ok(1)], of es] chain_ok_load [OF ok(2)] prefix
    by (cases "chain_steps E c es") simp_all
  let ?ss = "store_standings E A g"
  have serve1: "store_serve E A g (gs_me B) (chain_len c) = Inr (Some (es, ?ss))"
    using serve_member [OF A(1) rA fA members] prefix len by simp
  from pull_ok [OF B(1) rB fB steps, of ?ss now] obtain ap1 B' rB' where
    put1: "store_put E g (chain_len c) es ?ss now B = (Inr ap1, B')"
    and B': "store_inv E B'" "gs_me B' = gs_me B" "map_of (t_groups B') g = Some rB'" "group_fits E B' g rB' c'"
    and rowsB': "\<And>p. members_contains (chain_fold E c') p \<Longrightarrow>
          map_of (t_standings B' g) p = fold (keep_row E g c' p) ?ss (map_of (t_standings B g) p)" by blast
  let ?ss' = "store_standings E B' g"
  have serve2: "store_serve E B' g (gs_me A) (chain_len c') = Inr (Some ([], ?ss'))"
    using serve_member [OF B'(1,3,4) _ members(1)] members(2) B'(2) len by simp
  have "chain_steps E c' [] = Inr c'" by simp
  from pull_ok [OF A(1) rA fA this, of ?ss' now'] obtain ap2 A' rA' where
    put2: "store_put E g (chain_len c') [] ?ss' now' A = (Inr ap2, A')"
    and A': "store_inv E A'" "map_of (t_groups A') g = Some rA'" "group_fits E A' g rA' c'"
    and rowsA': "\<And>p. members_contains (chain_fold E c') p \<Longrightarrow>
          map_of (t_standings A' g) p = fold (keep_row E g c' p) ?ss' (map_of (t_standings A g) p)" by blast
  have "same_statement (map_of (t_standings A' g) p) (map_of (t_standings B' g) p)"
    if p: "members_contains (chain_fold E c') p" for p
  proof -
    let ?a = "map_of (t_standings A g) p" and ?b = "map_of (t_standings B' g) p"
    have m: "ever_mentioned E c' p" using member_mentioned [OF ok(2) p] .
    have rA: "rows_ok E g (t_standings A g)" and rB: "rows_ok E g (t_standings B' g)"
      using store_inv_group [OF A(1), of g] store_inv_group [OF B'(1), of g] by (simp_all add: group_inv_def)
    from keep_served [OF rA m rowsB' [OF p]] have 1: "\<not> beats ?a ?b" by blast
    from keep_served [OF rB m rowsA' [OF p]] have 2: "map_of (t_standings A' g) p = ?b \<or>
        map_of (t_standings A' g) p = ?a" "\<not> beats ?b (map_of (t_standings A' g) p)" by blast+
    from 2(1) show ?thesis
    proof
      assume "map_of (t_standings A' g) p = ?b"
      then show ?thesis by (simp add: same_statement_def)
    next
      assume a: "map_of (t_standings A' g) p = ?a"
      with 2(2) 1 show ?thesis using no_beats_same [of ?a ?b] by simp
    qed
  qed
  from same_heads [OF A' B'(1,3,4) this] serve1 put1 serve2 put2 show ?thesis by blast
qed

lemma bob_author: "chain_author sample (Keypair 0) (Add ''aa'') 0 chain1 = (Inr (ent 1), chain2)"
proof -
  from chain_author_accepts [OF sample_cbor sample_sign, of "Keypair 0" chain1 0 "Add ''aa''" "[1]" "[0, 1]"]
    enc_sample(2) obtain v where v: "chain_author sample (Keypair 0) (Add ''aa'') 0 chain1 = (Inr (ent 1), chain_push chain1 v)"
    by (auto simp: chain_eval peer_defs ent_def)
  with chain_author_steps [OF v] next2 steps_sample(1) show ?thesis by simp
qed

lemma alice_grows: "\<exists>T. store_author sample (Keypair 0) team (Add ''aa'') 0 alice_store = (Inr (ent 1), T)
    \<and> store_inv sample T \<and> gs_me T = alice \<and> (\<exists>r. store_get T team = Some r) \<and> store_chain sample T team = Inr chain2"
  using author_done [OF alice_inv alice_facts(2,3) bob_author] alice_facts(1)
  by (auto simp: only_group_def intro: store_chain_fits)

lemma empty_me: "gs_me (empty_store p) = p"
  by (simp add: empty_store_def)

lemma bob_adopts: "\<exists>T. store_inv sample T \<and> gs_me T = bob \<and> (\<exists>r. store_get T team = Some r)
    \<and> store_chain sample T team = Inr chain1"
proof -
  have "store_get (empty_store bob) (ch_id chain1) = None" by (simp add: store_get_def empty_store_def)
  from adopt_new [OF store_inv_empty loads(1) this, of "[]" 0] obtain ap T r where
    "store_inv sample T" "only_group team (empty_store bob) T" "map_of (t_groups T) team = Some r"
    "group_fits sample T team r chain1" by (auto simp: id_samples)
  then show ?thesis
    by (auto simp: only_group_def store_get_def empty_me intro!: exI [of _ T] store_chain_fits)
qed

theorem exchange_converges_witness:
  "\<exists>A B A' B'. gs_me A = alice \<and> gs_me B = bob
    \<and> (\<exists>ss ap ss' ap'. store_put sample team 1 [ent 1] ss 0 B = (Inr ap, B')
         \<and> store_put sample team 2 [] ss' 0 A = (Inr ap', A'))
    \<and> map_option group_head_of (store_get A' team) = map_option group_head_of (store_get B' team)"
proof -
  from alice_grows obtain A rA where A: "store_inv sample A" "store_get A team = Some rA"
    "store_chain sample A team = Inr chain2" "gs_me A = alice" by blast
  from bob_adopts obtain B rB where B: "store_inv sample B" "store_get B team = Some rB"
    "store_chain sample B team = Inr chain1" "gs_me B = bob" by blast
  have m: "members_contains (chain_fold sample chain2) (gs_me A)" "members_contains (chain_fold sample chain2) (gs_me B)"
    using A(4) B(4) by (simp_all add: fold_samples mem_def members_contains_def om_has_def)
  have p: "chain_entries chain2 = chain_entries chain1 @ [ent 1]" by (simp add: entries_samples)
  from exchange_converges [OF A(1-3) B(1-3) p m, of 0 0] A(4) B(4) show ?thesis
    unfolding len_samples by blast
qed

lemma swap_put:
  assumes "store_inv E S" "store_inv E T" "put_read E g from es S = Inr plan"
    and "store_get T g = Some r" "store_chain E T g = store_chain E S g"
  shows "\<exists>ap T'. put_tx E g plan ss now T = (Inr ap, T') \<and> store_inv E T' \<and> store_chain E T' g = Inr (pp_chain plan)"
proof -
  from put_read_plan [OF assms(1,3)] obtain r0 c where c: "core_fits E S g r0 c"
    "pp_before plan = chain_fold E c" "pp_head_seq plan = chain_len c"
    "chain_steps E c (pp_fresh plan) = Inr (pp_chain plan)" "pp_accepted plan = length (pp_fresh plan)"
    by (auto simp: plan_ok_def)
  from store_inv_known [OF assms(2,4)] obtain d where d: "group_fits E T g r d" "store_chain E T g = Inr d"
    "rows_ok E g (t_standings T g)" .
  with assms(5) store_chain_core [OF c(1)] have "d = c" by simp
  with d c assms(4) have plan: "plan_ok E g T plan"
    unfolding plan_ok_def by (auto simp: group_fits_core store_get_def)
  from put_tx_ok [OF store_inv_others [OF assms(2)] plan, of ss now]
  show ?thesis using store_chain_fits by blast
qed

lemma swap_author:
  assumes "store_inv E S" "store_inv E T" "author_read E key g x at S = Inr (e, n, c')"
    and "store_get T g = Some r" "store_chain E T g = store_chain E S g"
  shows "\<exists>T'. author_tx E g (e, n, c') at T = (Inr e, T') \<and> store_inv E T' \<and> store_chain E T' g = Inr c'"
proof -
  from author_read_plan [OF assms(1,3)] obtain r0 c where c: "group_fits E S g r0 c" "n = chain_len c"
    "chain_author E key x at c = (Inr e, c')" by blast
  then have T: "store_chain E T g = Inr c" using assms(5) store_chain_fits by simp
  then have "author_read E key g x at T = Inr (e, n, c')"
    using assms(4) c by (simp add: author_read_def store_require_def)
  then have "store_author E key g x at T = author_tx E g (e, n, c') at T" by (simp add: store_author_def)
  with author_done [OF assms(2,4) T c(3)] show ?thesis using store_chain_fits by auto
qed

text \<open>C20. The head moves by compare-and-swap. When another process has moved a group's head
  between what a \<open>put\<close> with new entries, or an \<open>author\<close>, read and its transaction, the call fails
  with \<open>Raced\<close> and writes nothing; when the chain is still the one it read, the transaction
  succeeds on the other process's store, keeps the invariant and stores exactly the planned chain. A \<open>put\<close>
  without new entries is not covered: it makes no such comparison.\<close>

theorem head_compare_and_swap:
  assumes "store_inv E S" "store_inv E T" "store_get T g = Some r"
  shows "(\<forall>start es plan ss now. put_read E g start es S = Inr plan \<and> 0 < pp_accepted plan \<longrightarrow>
        (gr_head_seq r \<noteq> pp_head_seq plan \<longrightarrow> put_tx E g plan ss now T = (Inl (ERaced g), T))
      \<and> (store_chain E T g = store_chain E S g \<longrightarrow>
          (\<exists>ap T'. put_tx E g plan ss now T = (Inr ap, T') \<and> store_inv E T' \<and> store_chain E T' g = Inr (pp_chain plan))))
    \<and> (\<forall>key x at e n c'. author_read E key g x at S = Inr (e, n, c') \<longrightarrow>
        (gr_head_seq r \<noteq> n \<longrightarrow> author_tx E g (e, n, c') at T = (Inl (ERaced g), T))
      \<and> (store_chain E T g = store_chain E S g \<longrightarrow>
          (\<exists>T'. author_tx E g (e, n, c') at T = (Inr e, T') \<and> store_inv E T' \<and> store_chain E T' g = Inr c')))"
proof (intro conjI allI impI)
  have row: "map_of (t_groups (write_entries E g i xs T)) g = Some r" for i xs
    using assms(3) by (simp add: store_get_def write_entries_def)
  fix start es plan ss now assume read: "put_read E g start es S = Inr plan \<and> 0 < pp_accepted plan"
  show "put_tx E g plan ss now T = (Inl (ERaced g), T)" if "gr_head_seq r \<noteq> pp_head_seq plan"
    using that read row by (simp add: put_tx_def set_head_def)
  show "\<exists>ap T'. put_tx E g plan ss now T = (Inr ap, T') \<and> store_inv E T' \<and> store_chain E T' g = Inr (pp_chain plan)"
    if "store_chain E T g = store_chain E S g"
    using swap_put [OF assms(1,2) _ assms(3) that] read by blast
next
  have row: "map_of (t_groups (write_entries E g i xs T)) g = Some r" for i xs
    using assms(3) by (simp add: store_get_def write_entries_def)
  fix key x at e n c' assume read: "author_read E key g x at S = Inr (e, n, c')"
  show "author_tx E g (e, n, c') at T = (Inl (ERaced g), T)" if "gr_head_seq r \<noteq> n"
    using that row by (simp add: author_tx_def set_head_def)
  show "\<exists>T'. author_tx E g (e, n, c') at T = (Inr e, T') \<and> store_inv E T' \<and> store_chain E T' g = Inr c'"
    if "store_chain E T g = store_chain E S g"
    using swap_author [OF assms(1,2) read assms(3) that] .
qed

theorem head_compare_and_swap_witness:
  "\<exists>T. store_author sample (Keypair 0) team (Add ''aa'') 0 alice_store = (Inr (ent 1), T)
    \<and> put_tx sample team \<lparr>pp_chain = chain2, pp_before = chain_fold sample chain1, pp_head_seq = 1,
        pp_fresh = [ent 1], pp_accepted = 1\<rparr> [] 0 T = (Inl (ERaced team), T)"
proof -
  from alice_grows obtain T r where T: "store_author sample (Keypair 0) team (Add ''aa'') 0 alice_store = (Inr (ent 1), T)"
    "store_inv sample T" "store_get T team = Some r" "store_chain sample T team = Inr chain2" by blast
  from store_inv_known [OF T(2,3)] T(4) have "gr_head_seq r = 2"
    by (auto simp: group_fits_def row_fits_def len_samples)
  with head_compare_and_swap [OF alice_inv T(2,3)] put_next T(1) show ?thesis by auto
qed

text \<open>C31. Only a \<open>put\<close> with new entries is protected that way. A \<open>put\<close> that carries none (a batch
  of standings, or a repeated one) rebuilds the caches from the chain it loaded before its
  transaction: when the admin's other process adds bob in between, the call succeeds, the stored
  chain has bob, and the cached member list, which decides whom this node serves and who shares
  the group, does not.\<close>

theorem put_without_entries_keeps_stale_members:
  "\<exists>plan T ap T'. put_read sample team 1 [] alice_store = Inr plan
    \<and> store_author sample (Keypair 0) team (Add ''aa'') 0 alice_store = (Inr (ent 1), T)
    \<and> put_tx sample team plan [] 0 T = (Inr ap, T')
    \<and> store_chain sample T' team = Inr chain2 \<and> members_contains (chain_fold sample chain2) bob
    \<and> \<not> members_contains (store_members T' team) bob"
proof -
  from alice_grows obtain T where T: "store_author sample (Keypair 0) team (Add ''aa'') 0 alice_store = (Inr (ent 1), T)"
    "store_chain sample T team = Inr chain2" by blast
  let ?plan = "\<lparr>pp_chain = chain1, pp_before = chain_fold sample chain1, pp_head_seq = 1, pp_fresh = [],
      pp_accepted = 0\<rparr>"
  let ?T' = "snd (put_tx sample team ?plan [] 0 T)"
  have read: "put_read sample team 1 [] alice_store = Inr ?plan"
    by (simp add: put_read_iff [OF alice_facts(2,3)] put_overlap_def len_samples)
  have "\<exists>ap. put_tx sample team ?plan [] 0 T = (Inr ap, ?T')" by (simp add: put_tx_def Let_def)
  moreover have "t_entries ?T' = t_entries T" by (simp add: put_tx_def Let_def rebuild_caches_def)
  then have "store_chain sample ?T' team = Inr chain2" using T(2) by (simp add: store_chain_def)
  moreover have "t_members ?T' team = name_from (load_standings sample T team) (chain_fold sample chain1)"
    by (simp add: put_tx_def Let_def rebuild_caches_def)
  then have "\<not> members_contains (store_members ?T' team) bob"
    unfolding store_members_contains by (simp add: om_has_def name_from_def fold_samples mem_def)
  moreover have "members_contains (chain_fold sample chain2) bob"
    by (simp add: fold_samples mem_def members_contains_def om_has_def)
  ultimately show ?thesis using read T(1) by blast
qed

section \<open>Order of standings\<close>

text \<open>\<open>keep_row\<close> meets the convergence contract when a body comes with one valid signature only.\<close>

definition standing_verifies :: "env \<Rightarrow> group_id \<Rightarrow> standing \<Rightarrow> bool" where
  "standing_verifies E g s \<longleftrightarrow> (\<exists>body. standing_verify E g s = Inr body)"

definition one_signature :: "env \<Rightarrow> group_id \<Rightarrow> standing \<Rightarrow> standing \<Rightarrow> bool" where
  "one_signature E g s s' \<longleftrightarrow> (standing_verifies E g s \<and> standing_verifies E g s' \<and> st_body s = st_body s' \<longrightarrow> s = s')"

lemma row_about_key:
  assumes "row_about E g c p s = Some a" "row_about E g c p s' = Some b" "one_signature E g s s'"
  shows "row_key a = row_key b \<longleftrightarrow> a = b"
proof -
  from assms(1,2) have "sr_standing a = s" "sr_standing b = s'" "standing_verifies E g s" "standing_verifies E g s'"
    by (auto simp: row_about_def standing_verifies_def split: sum.splits if_splits)
  moreover have "a = b" if "s = s'" using that assms(1,2) by simp
  ultimately show ?thesis using assms(3) by (auto simp: row_key_def one_signature_def)
qed

lemma keep_row_commute:
  assumes "one_signature E g s s'"
  shows "keep_row E g c p s (keep_row E g c p s' old) = keep_row E g c p s' (keep_row E g c p s old)"
proof -
  let ?a = "row_about E g c p s" and ?b = "row_about E g c p s'"
  have total: "?a = ?b \<or> beats ?a ?b \<or> beats ?b ?a"
  proof (cases ?a)
    case None
    then show ?thesis by (cases ?b) (simp_all add: beats_def)
  next
    case (Some a)
    show ?thesis
    proof (cases ?b)
      case None
      with Some show ?thesis by (simp add: beats_def)
    next
      case (Some b)
      with \<open>?a = Some a\<close> row_about_key [OF _ Some assms] wins_total [of "row_key a" "row_key b"]
      show ?thesis by (auto simp: beats_def)
    qed
  qed
  show ?thesis
    using total beats_trans [of ?a ?b old] beats_trans [of ?b ?a old] beats_asym [of ?a ?b]
    by (auto simp: keep_row_beats)
qed

interpretation rows: order_free "keep_row E g c p" "one_signature E g" for E g c p
  by unfold_locales (rule keep_row_commute, assumption, simp add: keep_row_beats)

lemma same_result:
  assumes inv: "store_inv E S" and T: "store_inv E T" "only_group g S T" "map_of (t_groups T) g = Some r" "group_fits E T g r c"
    and U: "store_inv E U" "only_group g S U" "map_of (t_groups U) g = Some r'" "group_fits E U g r' c"
    and st: "\<And>p. map_of (t_standings T g) p = map_of (t_standings U g) p"
    and row: "gr_state r = gr_state r'" "gr_first_seen r = gr_first_seen r'" "gr_news r = gr_news r'"
      "gr_last_synced r = gr_last_synced r'"
  shows "T = U"
proof -
  have "om_inv (t_standings T g)" "om_inv (t_standings U g)"
    using store_inv_group [OF T(1), of g] store_inv_group [OF U(1), of g] by (simp_all add: group_inv_om)
  with st have eq: "t_standings T g = t_standings U g" by (intro om_ext) auto
  then have words: "load_standings E T g = load_standings E U g" by (simp add: load_standings_def)
  have "r = r'" using T(4) U(4) words row by (intro same_row) (auto simp: group_fits_def caches_fit_def)
  moreover have "t_entries U g = t_entries T g" "t_members U g = t_members T g"
    using T(4) U(4) words by (simp_all add: group_fits_def caches_fit_def)
  moreover have "only_group g U T"
    using T(1,2) U(1,2) inv unfolding only_group_def store_inv_def by simp
  ultimately show ?thesis
    using same_store [of g U T] T U eq by (simp add: store_inv_def)
qed

text \<open>A copy of bob's standing with a signature that is not his.\<close>

definition forged_bob :: standing where
  "forged_bob = stand_bob\<lparr>st_signature := []\<rparr>"

lemma forged_rejected: "standing_verify sample team forged_bob \<noteq> Inr body"
  by (auto simp: forged_bob_def standing_verify_iff)

text \<open>C15. The order in which standings arrive in a batch, and how often, does not matter, provided no
  body comes in it with two different valid signatures: two batches with the same entries and the same set of standings
  then leave the very same store. Copies whose signature does not verify may be among them. (Of two valid
  signatures of the same body the one received first stays.)\<close>

theorem put_order_free:
  assumes inv: "store_inv E S" and sets: "set ss = set ss'"
    and one: "\<forall>s \<in> set ss. \<forall>s' \<in> set ss. standing_verifies E g s \<and> standing_verifies E g s' \<and> st_body s = st_body s' \<longrightarrow> s = s'"
  shows "snd (store_put E g from es ss now S) = snd (store_put E g from es ss' now S)"
proof (cases "put_read E g from es S")
  case (Inl e)
  then show ?thesis by (simp add: store_put_def)
next
  case (Inr plan)
  note plan = put_read_plan [OF inv Inr] and oth = store_inv_others [OF inv]
  from put_tx_ok [OF oth plan, of ss now] obtain ap T r where T: "put_tx E g plan ss now S = (Inr ap, T)"
    "store_inv E T" "only_group g S T" "map_of (t_groups T) g = Some r" "group_fits E T g r (pp_chain plan)"
    and rT: "\<exists>r0. map_of (t_groups S) g = Some r0 \<and> gr_state r = gr_state r0
      \<and> gr_first_seen r = gr_first_seen r0 \<and> gr_news r = gr_news r0 \<and> gr_last_synced r = now" by blast
  from put_tx_ok [OF oth plan, of ss' now] obtain ap' U r' where U: "put_tx E g plan ss' now S = (Inr ap', U)"
    "store_inv E U" "only_group g S U" "map_of (t_groups U) g = Some r'" "group_fits E U g r' (pp_chain plan)"
    and rU: "\<exists>r0. map_of (t_groups S) g = Some r0 \<and> gr_state r' = gr_state r0
      \<and> gr_first_seen r' = gr_first_seen r0 \<and> gr_news r' = gr_news r0 \<and> gr_last_synced r' = now" by blast
  have "fold (keep_row E g (pp_chain plan) p) ss b = fold (keep_row E g (pp_chain plan) p) ss' b" for p b
    using one sets by (intro rows.fold_set_eq) (auto simp: one_signature_def)
  then have "map_of (t_standings T g) p = map_of (t_standings U g) p" for p
    using put_tx_rows [OF oth plan, of ss now p] put_tx_rows [OF oth plan, of ss' now p] T(1) U(1) by simp
  from same_result [OF inv T(2-5) U(2-5) this] rT rU have "T = U" by auto
  with T(1) U(1) Inr show ?thesis by (simp add: store_put_def)
qed

theorem put_order_free_witness:
  "snd (store_put sample team 1 [ent 1] [stand_alice, forged_bob, stand_bob, stand_bob] 0 alice_store)
     = snd (store_put sample team 1 [ent 1] [stand_bob, stand_alice, forged_bob] 0 alice_store)"
proof (rule put_order_free [OF alice_inv])
  have "\<not> standing_verifies sample team forged_bob" by (simp add: standing_verifies_def forged_rejected)
  then show "\<forall>s \<in> set [stand_alice, forged_bob, stand_bob, stand_bob]. \<forall>s' \<in> set [stand_alice, forged_bob, stand_bob, stand_bob].
      standing_verifies sample team s \<and> standing_verifies sample team s' \<and> st_body s = st_body s' \<longrightarrow> s = s'"
    by (auto simp: stand_defs)
qed auto

text \<open>C29. The standings digest that nodes compare is faithful: for the same members, two sets of
  words have the same digest exactly when they agree on every member's sequence number, position
  and username (SHA-256 taken as injective, the encodings of peer ids as prefix-free, names shorter
  than \<open>2 ^ 64\<close> bytes). So equal heads mean there is nothing left to exchange.\<close>

theorem digest_faithful:
  assumes "inj (sha256 E)" "peer_prefix_free E" "short_names s" "short_names t" "members_inv m"
  shows "standings_digest E m s = standings_digest E m t \<longleftrightarrow>
     (\<forall>p. members_contains m p \<longrightarrow> set_latest s p = set_latest t p \<and> set_username s p = set_username t p)"
  using assms by (rule digest_iff)

theorem digest_faithful_witness:
  "standings_digest sample (chain_fold sample chain2) [(bob, held_of stand_bob word1)]
     \<noteq> standings_digest sample (chain_fold sample chain2) [(bob, held_of stand_bob_out word2)]"
proof -
  have s: "short_names [(bob, held_of stand_bob word1)]" "short_names [(bob, held_of stand_bob_out word2)]"
    by (auto simp: short_names_def set_username_def held_of_def word1_def word2_def)
  have "members_contains (chain_fold sample chain2) bob"
    by (simp add: fold_samples mem_def members_contains_def om_has_def)
  moreover have "set_latest [(bob, held_of stand_bob word1)] bob \<noteq> set_latest [(bob, held_of stand_bob_out word2)] bob"
    by (simp add: set_latest_def held_of_def word1_def word2_def)
  ultimately show ?thesis
    using digest_faithful [OF sample_inj sample_prefix_free s members_inv_fold] by blast
qed

lemma consent_local:
  assumes "store_inv E S"
  shows "\<forall>S' \<in> {snd (store_put E g from es ss now S), snd (store_adopt E es ss now S)}.
      (\<forall>h r. store_get S h = Some r \<longrightarrow> (\<exists>r'. store_get S' h = Some r' \<and> gr_state r' = gr_state r))
    \<and> (\<forall>h r'. store_get S h = None \<and> store_get S' h = Some r' \<longrightarrow>
          S' = snd (store_adopt E es ss now S) \<and> gr_state r' = Pending)"
proof -
  have om: "om_inv (t_groups S)" using assms by (simp add: store_inv_def)
  have put: "(\<forall>h r. store_get S h = Some r \<longrightarrow> (\<exists>r'. store_get (snd (store_put E g from es ss now S)) h = Some r'
        \<and> gr_state r' = gr_state r))
      \<and> (\<forall>h. store_get S h = None \<longrightarrow> store_get (snd (store_put E g from es ss now S)) h = None)" for g "from"
  proof (cases rule: store_put_cases [OF assms, of g "from" es ss now, case_names err ok])
    case (err e)
    then show ?thesis by simp
  next
    case (ok plan ap T)
    from put_tx_ok [OF store_inv_others [OF assms] ok(2), of ss now] ok(4) obtain r r' where
      T: "only_group g S T" "map_of (t_groups S) g = Some r" "map_of (t_groups T) g = Some r'" "gr_state r' = gr_state r"
      by auto
    have "store_get T h = store_get S h" if "h \<noteq> g" for h
      using T(1) om that by (simp add: only_group_def store_get_def)
    then have "(\<forall>h r. store_get S h = Some r \<longrightarrow> (\<exists>r'. store_get T h = Some r' \<and> gr_state r' = gr_state r))
        \<and> (\<forall>h. store_get S h = None \<longrightarrow> store_get T h = None)"
      using T(2-4) by (metis option.distinct(1) option.inject store_get_def)
    then show ?thesis using ok(3) by simp
  qed
  have adopt: "(\<forall>h r. store_get S h = Some r \<longrightarrow> (\<exists>r'. store_get (snd (store_adopt E es ss now S)) h = Some r'
        \<and> gr_state r' = gr_state r))
      \<and> (\<forall>h r'. store_get S h = None \<and> store_get (snd (store_adopt E es ss now S)) h = Some r' \<longrightarrow> gr_state r' = Pending)"
  proof (cases "chain_load E es")
    case (Inl e)
    then show ?thesis by (auto simp: store_adopt_def)
  next
    case (Inr c)
    show ?thesis
    proof (cases "store_get S (ch_id c)")
      case (Some r)
      with Inr have "store_adopt E es ss now S = store_put E (ch_id c) 0 es ss now S"
        by (simp add: store_adopt_def Let_def)
      with put [of "ch_id c" 0] show ?thesis by auto
    next
      case None
      from adopt_new [OF assms Inr None, of ss now] obtain ap T r where
        T: "store_adopt E es ss now S = (Inr ap, T)" "only_group (ch_id c) S T"
          "map_of (t_groups T) (ch_id c) = Some r" "gr_state r = Pending" by auto
      have "store_get T h = store_get S h" if "h \<noteq> ch_id c" for h
        using T(2) om that by (simp add: only_group_def store_get_def)
      with T None show ?thesis by (metis option.distinct(1) option.inject snd_conv store_get_def)
    qed
  qed
  show ?thesis using put [of g "from"] adopt by auto
qed

text \<open>C30. Consent is local. Whatever a peer sends, \<open>put\<close> and \<open>adopt\<close> leave the state (pending,
  active, left) of every group this node holds as it was and drop none, \<open>put\<close> brings in no group,
  and a group \<open>adopt\<close> brings in starts out pending.\<close>

theorem consent_is_local:
  assumes "store_inv E S"
  shows "\<forall>S' \<in> {snd (store_put E g from es ss now S), snd (store_adopt E es ss now S)}.
      (\<forall>h r. store_get S h = Some r \<longrightarrow> (\<exists>r'. store_get S' h = Some r' \<and> gr_state r' = gr_state r))
    \<and> (\<forall>h r'. store_get S h = None \<and> store_get S' h = Some r' \<longrightarrow>
          S' = snd (store_adopt E es ss now S) \<and> gr_state r' = Pending)"
  using assms by (rule consent_local)

theorem consent_is_local_witness:
  "\<exists>r. store_get (snd (store_put sample team 1 [ent 1] [] 0 alice_store)) team = Some r \<and> gr_state r = Active"
proof -
  have "gr_state (row_of c Active d) = Active" for c d by (simp add: row_of_def)
  with consent_is_local [OF alice_inv, of team 1 "[ent 1]" "[]" 0] alice_facts(2) show ?thesis by (metis insertCI)
qed

text \<open>C32. \<open>adopt\<close> does not look for this node in the chain: bob's node keeps a group whose only
  member is alice, as pending, although the caller's comment says \<open>adopt\<close> decides whether the
  group is one it is entitled to keep.\<close>

theorem adopt_keeps_strangers_group:
  "\<exists>ap S'. store_adopt sample [ent 0] [] 0 (empty_store bob) = (Inr ap, S')
     \<and> \<not> ap_we_joined ap \<and> \<not> members_contains (chain_fold sample chain1) bob
     \<and> store_get S' team \<noteq> None"
proof -
  have "store_get (empty_store bob) (ch_id chain1) = None" by (simp add: store_get_def empty_store_def)
  from adopt_new [OF store_inv_empty loads(1) this, of "[]" 0] obtain ap T r where
    "store_adopt sample [ent 0] [] 0 (empty_store bob) = (Inr ap, T)" "map_of (t_groups T) team = Some r"
    "ap_we_joined ap = members_contains (chain_fold sample chain1) bob" by (auto simp: id_samples empty_me)
  moreover have "\<not> members_contains (chain_fold sample chain1) bob"
    by (simp add: fold_samples mem_def members_contains_def om_has_def)
  ultimately show ?thesis by (auto simp: store_get_def)
qed

text \<open>What \<open>normalise_username\<close> returns is 3 to 32 ASCII letters, digits, dashes and
  underscores, without capitals, starting with a letter or digit, and normalising it again returns
  it unchanged; so a name the server stored is the name every node accepts.\<close>

theorem username_normal_form:
  assumes "normalise_username raw = Inr n"
  shows "normalise_username n = Inr n \<and> 3 \<le> length n \<and> length n \<le> 32
    \<and> list_all username_char n \<and> is_ascii_alphanumeric (hd n) \<and> (\<forall>c \<in> set n. \<not> is_ascii_upper c)"
  using normalise_username_idem [OF assms] normalise_username_shape [OF assms] by (auto simp: plain_text_def)

theorem username_normal_form_witness: "list_all username_char ''alice''"
  using username_normal_form [OF usernames(1)] by blast

end
