(* ===== verification/GroupSyncProps.thy ===== *)
theory GroupSyncProps
  imports GroupSync StoreTheorems
begin

text \<open>
  The invariant of the group layer's state machine and what one event does: which fetches it
  starts, that it never drops a running episode, that slots are bounded and never idle.
\<close>

section \<open>Fetches\<close>

fun act_group :: "group_action \<Rightarrow> group_id" where
  "act_group (FetchAct p g n) = g"

fun act_entry :: "(group_id \<Rightarrow> nat) \<Rightarrow> group_action \<Rightarrow> group_id \<times> in_flight" where
  "act_entry clk (FetchAct p g n) = (g, \<lparr>if_peer = p, if_from = n, if_deadline = clk g + FETCH_TIMEOUT\<rparr>)"

text \<open>The state moved from \<open>y\<close> to \<open>y'\<close> by starting exactly the fetches \<open>new\<close>.\<close>

definition kept :: "group_sync \<Rightarrow> group_sync \<Rightarrow> bool" where
  "kept y y' \<longleftrightarrow>
     gy_store y' = gy_store y \<and> gy_me y' = gy_me y \<and> gy_key y' = gy_key y \<and> gy_username y' = gy_username y
     \<and> gy_budget y' = gy_budget y \<and> gy_now_at y' = gy_now_at y"

definition bounded :: "group_sync \<Rightarrow> bool" where
  "bounded y \<longleftrightarrow> om_inv (gy_inflight y) \<and> length (gy_inflight y) \<le> MAX_INFLIGHT
     \<and> length (gy_deferred y) \<le> MAX_DEFERRED \<and> distinct (map snd (gy_deferred y))"

definition slots :: "(group_id \<Rightarrow> nat) \<Rightarrow> group_action list \<Rightarrow> group_sync \<Rightarrow> group_sync \<Rightarrow> bool" where
  "slots clk new y y' \<longleftrightarrow> distinct (map act_group new)
     \<and> (\<forall>g. map_of (gy_inflight y') g =
            (case map_of (gy_inflight y) g of Some f \<Rightarrow> Some f | None \<Rightarrow> map_of (map (act_entry clk) new) g))
     \<and> (\<forall>a \<in> set new. map_of (gy_inflight y) (act_group a) = None)"

definition fetched :: "(group_id \<Rightarrow> nat) \<Rightarrow> group_action list \<Rightarrow> group_sync \<Rightarrow> group_sync \<Rightarrow> bool" where
  "fetched clk new y y' \<longleftrightarrow> kept y y' \<and> slots clk new y y' \<and> bounded y'"

lemma fst_act_entry [simp]: "fst (act_entry clk a) = act_group a"
  by (cases a) simp

lemma act_entries_get: "map_of (map (act_entry clk) new) g = None \<longleftrightarrow> g \<notin> act_group ` set new"
  by (auto simp: map_of_eq_None_iff image_iff)

lemma fetched_refl [simp]: "bounded y \<Longrightarrow> fetched clk [] y y"
  by (simp add: fetched_def kept_def slots_def split: option.split)

lemma slots_trans:
  assumes "slots clk xs y z" "slots clk ys z w"
  shows "slots clk (xs @ ys) y w"
proof -
  have get: "map_of (gy_inflight z) g =
      (case map_of (gy_inflight y) g of Some f \<Rightarrow> Some f | None \<Rightarrow> map_of (map (act_entry clk) xs) g)" for g
    using assms(1) by (simp add: slots_def)
  have get': "map_of (gy_inflight w) g =
      (case map_of (gy_inflight z) g of Some f \<Rightarrow> Some f | None \<Rightarrow> map_of (map (act_entry clk) ys) g)" for g
    using assms(2) by (simp add: slots_def)
  have free: "map_of (gy_inflight y) (act_group a) = None \<and> act_group a \<notin> act_group ` set xs"
    if "a \<in> set ys" for a
  proof -
    have "map_of (gy_inflight z) (act_group a) = None" using assms(2) that by (simp add: slots_def)
    then have "map_of (gy_inflight y) (act_group a) = None \<and> map_of (map (act_entry clk) xs) (act_group a) = None"
      using get [of "act_group a"] by (cases "map_of (gy_inflight y) (act_group a)") simp_all
    then show ?thesis unfolding act_entries_get by blast
  qed
  have "act_group ` set xs \<inter> act_group ` set ys = {}" 
  proof (rule equals0I)
    fix x assume "x \<in> act_group ` set xs \<inter> act_group ` set ys"
    then obtain a where "a \<in> set ys" "x = act_group a" "x \<in> act_group ` set xs" by blast
    with free [of a] show False by blast
  qed
  then have "distinct (map act_group (xs @ ys))" using assms by (simp add: slots_def)
  moreover have "\<forall>a \<in> set (xs @ ys). map_of (gy_inflight y) (act_group a) = None"
    using free assms(1) by (auto simp: slots_def)
  moreover have "map_of (gy_inflight w) g = (case map_of (gy_inflight y) g of Some f \<Rightarrow> Some f
      | None \<Rightarrow> map_of (map (act_entry clk) (xs @ ys)) g)" for g
    unfolding get' get by (simp add: map_add_def split: option.split)
  ultimately show ?thesis unfolding slots_def by blast
qed

lemma fetched_trans: "fetched clk xs y z \<Longrightarrow> fetched clk ys z w \<Longrightarrow> fetched clk (xs @ ys) y w"
  unfolding fetched_def using slots_trans [of clk xs y z ys w] by (simp add: kept_def)

lemma fetched_bounded: "fetched clk new y y' \<Longrightarrow> bounded y'"
  by (simp add: fetched_def)

lemma fetch_fetched:
  "bounded y \<Longrightarrow> \<exists>new. fst (gsync_fetch clk p g from (acts, y)) = acts @ new
     \<and> fetched clk new y (snd (gsync_fetch clk p g from (acts, y)))"
proof (cases "om_has (gy_inflight y) g")
  case True
  then show "bounded y \<Longrightarrow> ?thesis" by (intro exI [of _ "[]"]) (simp add: gsync_fetch_def)
next
  case False
  assume b: "bounded y"
  show ?thesis
  proof (cases "MAX_INFLIGHT \<le> length (gy_inflight y)")
    case True
    with False b show ?thesis
      by (intro exI [of _ "[]"])
        (auto simp: gsync_fetch_def gsync_defer_def fetched_def kept_def slots_def bounded_def list_ex_iff
          split: option.split)
  next
    case room: False
    with False b show ?thesis
      by (intro exI [of _ "[FetchAct p g from]"])
        (auto simp: gsync_fetch_def fetched_def kept_def slots_def bounded_def om_simps om_has_def length_om_put
          split: option.splits)
  qed
qed

lemma fetch_loop_fetched:
  assumes "\<And>x st. f x st = st \<or> (\<exists>p g n. f x st = gsync_fetch clk p g n st)" "bounded y"
  shows "\<exists>new. fst (fold f xs (acts, y)) = acts @ new \<and> fetched clk new y (snd (fold f xs (acts, y)))"
  using assms(2)
proof (induction xs arbitrary: acts y)
  case Nil
  then show ?case by (intro exI [of _ "[]"]) simp
next
  case (Cons x xs)
  obtain acts1 y1 where st: "f x (acts, y) = (acts1, y1)" by (cases "f x (acts, y)")
  have "\<exists>new. acts1 = acts @ new \<and> fetched clk new y y1"
  proof -
    from assms(1) [of x "(acts, y)"] show ?thesis
    proof
      assume "f x (acts, y) = (acts, y)"
      with st Cons.prems show ?thesis by (intro exI [of _ "[]"]) simp
    next
      assume "\<exists>p g n. f x (acts, y) = gsync_fetch clk p g n (acts, y)"
      then obtain p g n where "gsync_fetch clk p g n (acts, y) = (acts1, y1)" using st by auto
      with fetch_fetched [OF Cons.prems, of clk p g n acts] show ?thesis by simp
    qed
  qed
  then obtain new where new: "acts1 = acts @ new" "fetched clk new y y1" by blast
  have "bounded y1" using new(2) by (rule fetched_bounded)
  from Cons.IH [OF this, of acts1] obtain new' where
    "fst (fold f xs (acts1, y1)) = acts1 @ new'" "fetched clk new' y1 (snd (fold f xs (acts1, y1)))" by blast
  with new st fetched_trans [OF new(2), of new'] show ?case
    by (intro exI [of _ "new @ new'"]) simp
qed

lemma on_heads_fetched:
  assumes "bounded y"
  shows "\<exists>new. fst (gsync_on_heads clk peer heads y) = new
    \<and> fetched clk new y (snd (gsync_on_heads clk peer heads y))"
proof -
  let ?hs = "take GROUP_MAX_HEADS heads"
  let ?f = "\<lambda>h st. case store_get (gy_store (snd st)) (gh_group h) of
                   None \<Rightarrow> gsync_fetch clk peer (gh_group h) 0 st
                 | Some r \<Rightarrow>
                     if gr_head_seq r < gh_head_seq h \<or> gh_standings h \<noteq> gr_digest r
                     then gsync_fetch clk peer (gh_group h) (gr_head_seq r) st else st"
  let ?st = "fold ?f ?hs ([], y)"
  have "?f h st = st \<or> (\<exists>p g n. ?f h st = gsync_fetch clk p g n st)" for h and st :: "group_action list \<times> group_sync"
    by (auto split: option.split)
  from fetch_loop_fetched [where f = ?f, OF this assms, where xs = ?hs and acts = "[]"] obtain new where
    new: "fst ?st = new" "fetched clk new y (snd ?st)" by auto
  have inv: "bounded (snd ?st)" using new(2) by (rule fetched_bounded)
  let ?g = "\<lambda>g st. gsync_fetch clk peer g (head_seq_of (gy_store (snd st)) g) st"
  let ?gs = "silently_omitted peer (map gh_group ?hs) (gy_store (snd ?st))"
  have "?g x st = st \<or> (\<exists>p g n. ?g x st = gsync_fetch clk p g n st)" for x st by blast
  from fetch_loop_fetched [where f = ?g, OF this inv, where xs = ?gs and acts = "fst ?st"] obtain new' where
    "fst (fold ?g ?gs ?st) = fst ?st @ new'" "fetched clk new' (snd ?st) (snd (fold ?g ?gs ?st))" by auto
  with fetched_trans [OF new(2), of new'] new(1) show ?thesis
    by (simp add: gsync_on_heads_def Let_def)
qed

declare gsync_drain.simps [simp del]

lemma pop_fetched: "gy_deferred y = x # rest \<Longrightarrow> bounded y \<Longrightarrow> fetched clk [] y (y\<lparr>gy_deferred := rest\<rparr>)"
  by (auto simp: fetched_def kept_def slots_def bounded_def split: option.split)

lemma drain_fetched:
  "bounded y \<Longrightarrow> \<exists>new. fst (gsync_drain clk adm (acts, y)) = acts @ new
     \<and> fetched clk new y (snd (gsync_drain clk adm (acts, y)))"
proof (induction clk adm "(acts, y)" arbitrary: acts y rule: gsync_drain.induct)
  case (1 clk adm acts y)
  show ?case
  proof (cases "length (gy_inflight y) < MAX_INFLIGHT \<and> gy_deferred y \<noteq> []")
    case False
    then show ?thesis
      using "1.prems" by (intro exI [of _ "[]"]) (auto simp: gsync_drain.simps [of clk adm acts y] split: list.split)
  next
    case True
    then obtain p g rest where d: "gy_deferred y = (p, g) # rest" by (cases "gy_deferred y") auto
    let ?y1 = "y\<lparr>gy_deferred := rest\<rparr>"
    note pop = pop_fetched [OF d "1.prems", of clk]
    have inv1: "bounded ?y1" using pop by (rule fetched_bounded)
    show ?thesis
    proof (cases "\<not> is_admitted adm p \<or> om_has (gy_inflight ?y1) g")
      case skip: True
      from "1.hyps"(1) [OF _ d refl refl skip inv1] True obtain new where
        "fst (gsync_drain clk adm (acts, ?y1)) = acts @ new"
        "fetched clk new ?y1 (snd (gsync_drain clk adm (acts, ?y1)))" by blast
      with fetched_trans [OF pop, of new] True d skip show ?thesis
        by (simp add: gsync_drain.simps [of clk adm acts y] Let_def)
    next
      case go: False
      let ?n = "head_seq_of (gy_store ?y1) g"
      obtain acts2 y2 where f: "gsync_fetch clk p g ?n (acts, ?y1) = (acts2, y2)"
        by (cases "gsync_fetch clk p g ?n (acts, ?y1)")
      from fetch_fetched [OF inv1, of clk p g ?n acts] f obtain new1 where
        new1: "acts2 = acts @ new1" "fetched clk new1 ?y1 y2" by auto
      have inv2: "bounded y2" using new1(2) by (rule fetched_bounded)
      from "1.hyps"(2) [OF _ d refl refl go f inv2] True obtain new where
        "fst (gsync_drain clk adm (acts2, y2)) = acts2 @ new"
        "fetched clk new y2 (snd (gsync_drain clk adm (acts2, y2)))" by blast
      with fetched_trans [OF pop fetched_trans [OF new1(2), of new]] True d go f new1(1)
      show ?thesis
        by (intro exI [of _ "new1 @ new"]) (simp add: gsync_drain.simps [of clk adm acts y] Let_def)
    qed
  qed
qed

text \<open>After draining, either every slot is taken or nobody waits.\<close>

lemma drain_full: "length (gy_inflight (snd (gsync_drain clk adm (acts, y)))) \<ge> MAX_INFLIGHT
    \<or> gy_deferred (snd (gsync_drain clk adm (acts, y))) = []"
proof (induction clk adm "(acts, y)" arbitrary: acts y rule: gsync_drain.induct)
  case (1 clk adm acts y)
  show ?case
  proof (cases "length (gy_inflight y) < MAX_INFLIGHT \<and> gy_deferred y \<noteq> []")
    case False
    then show ?thesis by (auto simp: gsync_drain.simps [of clk adm acts y] not_less split: list.split)
  next
    case True
    then obtain p g rest where d: "gy_deferred y = (p, g) # rest" by (cases "gy_deferred y") auto
    let ?y1 = "y\<lparr>gy_deferred := rest\<rparr>"
    show ?thesis
    proof (cases "\<not> is_admitted adm p \<or> om_has (gy_inflight ?y1) g")
      case skip: True
      from "1.hyps"(1) [OF _ d refl refl skip] True d skip show ?thesis
        by (simp add: gsync_drain.simps [of clk adm acts y] Let_def)
    next
      case go: False
      obtain acts2 y2 where f: "gsync_fetch clk p g (head_seq_of (gy_store ?y1) g) (acts, ?y1) = (acts2, y2)"
        by (cases "gsync_fetch clk p g (head_seq_of (gy_store ?y1) g) (acts, ?y1)")
      from "1.hyps"(2) [OF _ d refl refl go f] True d go f show ?thesis
        by (simp add: gsync_drain.simps [of clk adm acts y] Let_def)
    qed
  qed
qed

end
