(* ===== verification/GroupSyncTheorems.thy ===== *)
theory GroupSyncTheorems
  imports GroupSyncProps
begin

text \<open>
  The properties of the group layer's state machine: its invariant over every event, which
  fetches an event starts, what an answer discloses and costs, and that a round of messages brings
  a node that is behind up to date.
\<close>

section \<open>The invariant\<close>

definition sync_inv :: "env \<Rightarrow> group_sync \<Rightarrow> bool" where
  "sync_inv E y \<longleftrightarrow> store_inv E (gy_store y) \<and> gs_me (gy_store y) = gy_me y
     \<and> gy_me y = peer_of_key E (gy_key y) \<and> bounded y
     \<and> budget_inv (gy_budget y) \<and> tb_per_tick (gy_budget y) = ANSWERS_PER_TICK"

lemma sync_inv_new:
  "store_inv E S \<Longrightarrow> gs_me S = peer_of_key E key \<Longrightarrow> sync_inv E (gsync_new E S key username)"
  by (simp add: sync_inv_def gsync_new_def bounded_def budget_new_def [symmetric] MAX_INFLIGHT_def
      MAX_DEFERRED_def) (simp add: budget_new_def)

lemma fetched_inv: "fetched clk new y y' \<Longrightarrow> sync_inv E y \<Longrightarrow> sync_inv E y'"
  by (simp add: sync_inv_def fetched_def kept_def)

section \<open>What an event does before it fetches\<close>

definition expected :: "peer_id \<Rightarrow> group_id \<Rightarrow> nat \<Rightarrow> group_sync \<Rightarrow> bool" where
  "expected peer g from y \<longleftrightarrow>
     (case map_of (gy_inflight y) g of Some f \<Rightarrow> if_peer f = peer \<and> if_from f = from | None \<Rightarrow> False)"

definition stored :: "env \<Rightarrow> group_id \<Rightarrow> nat \<Rightarrow> entry list \<Rightarrow> standing list \<Rightarrow> group_sync \<Rightarrow> (store_error + applied) \<times> groups" where
  "stored E g from es ss y =
     (if store_get (gy_store y) g \<noteq> None then store_put E g from es ss (gy_now_at y) (gy_store y)
      else store_adopt E es ss (gy_now_at y) (gy_store y))"

definition ingest :: "env \<Rightarrow> peer_id \<Rightarrow> group_id \<Rightarrow> nat \<Rightarrow> entry list \<Rightarrow> standing list \<Rightarrow> group_sync \<Rightarrow> group_sync" where
  "ingest E peer g from es ss y =
     (if \<not> expected peer g from y then y
      else
        let y2 = y\<lparr>gy_inflight := om_del g (gy_inflight y), gy_store := snd (stored E g from es ss y)\<rparr>
        in case fst (stored E g from es ss y) of
             Inl _ \<Rightarrow> y2
           | Inr ap \<Rightarrow> ratify E g ap (gy_now_at y) (answer_invitation E g (gy_now_at y) y2))"

definition event_base :: "env \<Rightarrow> group_event \<Rightarrow> admitted_peers \<Rightarrow> group_sync \<Rightarrow> group_sync" where
  "event_base E ev adm y =
     (case ev of
        GEntriesEv peer g from es ss \<Rightarrow> ingest E peer g from es ss y
      | GUnavailableEv peer g \<Rightarrow> gsync_finish g peer y
      | GFetchFailedEv peer g \<Rightarrow> gsync_finish g peer y
      | GTickEv now at \<Rightarrow> snd (gsync_tick now at adm y)
      | _ \<Rightarrow> y)"

lemma answer_invitation_frame:
  "gy_inflight (answer_invitation E g at y) = gy_inflight y" "gy_deferred (answer_invitation E g at y) = gy_deferred y"
  "gy_me (answer_invitation E g at y) = gy_me y" "gy_key (answer_invitation E g at y) = gy_key y"
  "gy_budget (answer_invitation E g at y) = gy_budget y"
  by (simp_all add: answer_invitation_def Let_def)

definition ratify_step :: "env \<Rightarrow> group_id \<Rightarrow> int \<Rightarrow> peer_id \<Rightarrow> group_sync \<Rightarrow> group_sync" where
  "ratify_step E g at p y =
     y\<lparr>gy_store := snd (store_author E (gy_key y) g (Remove (to_base58 E p)) at (gy_store y))\<rparr>"

lemma ratify_fold:
  "ratify E g ap at y = y \<or> ratify E g ap at y
     = fold (ratify_step E g at) (filter (\<lambda>p. p \<noteq> gy_me y) (ap_departed ap)) y"
  by (simp add: ratify_def ratify_step_def [abs_def])

lemma ratify_steps_frame:
  "gy_inflight (fold (ratify_step E g at) ps y) = gy_inflight y"
  "gy_deferred (fold (ratify_step E g at) ps y) = gy_deferred y"
  "gy_me (fold (ratify_step E g at) ps y) = gy_me y" "gy_key (fold (ratify_step E g at) ps y) = gy_key y"
  "gy_budget (fold (ratify_step E g at) ps y) = gy_budget y"
  by (induction ps arbitrary: y) (simp_all add: ratify_step_def)

lemma ratify_frame:
  "gy_inflight (ratify E g ap at y) = gy_inflight y" "gy_deferred (ratify E g ap at y) = gy_deferred y"
  "gy_me (ratify E g ap at y) = gy_me y" "gy_key (ratify E g ap at y) = gy_key y"
  "gy_budget (ratify E g ap at y) = gy_budget y"
  using ratify_fold [of E g ap at y] by (auto simp: ratify_steps_frame)

lemma answer_invitation_inv:
  assumes "cbor_ok E" "base58_ok E" "store_inv E (gy_store y)" "gs_me (gy_store y) = peer_of_key E (gy_key y)"
  shows "store_inv E (gy_store (answer_invitation E g at y)) \<and> gs_me (gy_store (answer_invitation E g at y)) = gs_me (gy_store y)"
  using assms(3) store_inv_author_standing [OF assms(3,1,2,4)] store_step_me [OF store_step.author_standing]
  by (auto simp: answer_invitation_def Let_def)

lemma ratify_inv:
  assumes "store_inv E (gy_store y)"
  shows "store_inv E (gy_store (ratify E g ap at y)) \<and> gs_me (gy_store (ratify E g ap at y)) = gs_me (gy_store y)"
proof -
  have "store_inv E (gy_store (fold (ratify_step E g at) ps y))
      \<and> gs_me (gy_store (fold (ratify_step E g at) ps y)) = gs_me (gy_store y)" for ps
    using assms
    by (induction ps arbitrary: y) (simp_all add: ratify_step_def store_inv_author store_me)
  then show ?thesis using ratify_fold [of E g ap at y] assms by auto
qed

lemma stored_inv:
  assumes "store_inv E (gy_store y)"
  shows "store_inv E (snd (stored E g from es ss y)) \<and> gs_me (snd (stored E g from es ss y)) = gs_me (gy_store y)"
  using assms store_step_me [OF store_step.adopt]
  by (simp add: stored_def store_inv_put store_inv_adopt store_me)

lemma bounded_del: "bounded y \<Longrightarrow> bounded (y\<lparr>gy_inflight := om_del g (gy_inflight y), gy_store := S\<rparr>)"
  using length_om_del [of g "gy_inflight y"] by (simp add: bounded_def)

lemma ingest_inv:
  assumes "cbor_ok E" "base58_ok E" "sync_inv E y"
  shows "sync_inv E (ingest E peer g from es ss y)"
proof (cases "expected peer g from y")
  case False
  with assms show ?thesis by (simp add: ingest_def)
next
  case True
  let ?y2 = "y\<lparr>gy_inflight := om_del g (gy_inflight y), gy_store := snd (stored E g from es ss y)\<rparr>"
  have store_y: "store_inv E (gy_store y)" using assms(3) by (simp add: sync_inv_def)
  have y2: "sync_inv E ?y2"
    using assms(3) stored_inv [OF store_y, of g "from" es ss] bounded_del [where y = y and g = g and S = "snd (stored E g from es ss y)"]
    by (simp add: sync_inv_def)
  show ?thesis
  proof (cases "fst (stored E g from es ss y)")
    case (Inl e)
    with True y2 show ?thesis by (simp add: ingest_def)
  next
    case (Inr ap)
    let ?y3 = "answer_invitation E g (gy_now_at y) ?y2"
    have "store_inv E (gy_store ?y3)" "gs_me (gy_store ?y3) = gy_me y"
      using answer_invitation_inv [OF assms(1,2), of ?y2] y2 by (auto simp: sync_inv_def)
    with ratify_inv [of E ?y3 g ap "gy_now_at y"] y2 True Inr show ?thesis
      by (simp add: ingest_def sync_inv_def bounded_def ratify_frame answer_invitation_frame)
  qed
qed

lemma expire_steps_frame:
  "gy_inflight (expire_pending rows at y) = gy_inflight y" "gy_deferred (expire_pending rows at y) = gy_deferred y"
  "gy_me (expire_pending rows at y) = gy_me y" "gy_key (expire_pending rows at y) = gy_key y"
  "gy_budget (expire_pending rows at y) = gy_budget y"
  by (induction rows arbitrary: y) (auto simp: expire_pending_def)

lemma expire_inv:
  "store_inv E (gy_store y) \<Longrightarrow> store_inv E (gy_store (expire_pending rows at y))
     \<and> gs_me (gy_store (expire_pending rows at y)) = gs_me (gy_store y)"
proof (induction rows arbitrary: y)
  case (Cons r rows)
  have "gs_me (store_forget (gr_id r) (gy_store y)) = gs_me (gy_store y)" by (simp add: store_forget_def)
  with Cons show ?case by (simp add: expire_pending_def store_inv_forget)
qed (simp add: expire_pending_def)

lemma base_inv:
  assumes "cbor_ok E" "base58_ok E" "sync_inv E y"
  shows "sync_inv E (event_base E ev adm y)"
proof -
  have "sync_inv E (gsync_finish g peer y)" for g peer
    using assms(3) length_om_del [of g "gy_inflight y"]
    by (auto simp: gsync_finish_def sync_inv_def bounded_def split: option.split)
  moreover have "sync_inv E (snd (gsync_tick now at adm y))" for now at
  proof -
    let ?i = "filter (\<lambda>(g, f). now < if_deadline f \<and> is_ready adm (if_peer f)) (gy_inflight y)"
    let ?d = "filter (\<lambda>(p, g). is_admitted adm p) (gy_deferred y)"
    have "length ?i \<le> length (gy_inflight y)" "length ?d \<le> length (gy_deferred y)" by simp_all
    moreover have "distinct (map snd (gy_deferred y)) \<Longrightarrow> distinct (map snd ?d)" by (rule distinct_map_filter)
    ultimately have "bounded y \<Longrightarrow> om_inv ?i \<and> length ?i \<le> MAX_INFLIGHT \<and> length ?d \<le> MAX_DEFERRED
        \<and> distinct (map snd ?d)" by (auto simp: bounded_def intro: le_trans [OF length_filter_le])
    with assms(3) expire_inv [of E "y\<lparr>gy_now_at := at, gy_budget := budget_reset (gy_budget y),
        gy_inflight := ?i, gy_deferred := ?d\<rparr>"] show ?thesis
      by (simp add: gsync_tick_def Let_def sync_inv_def bounded_def expire_steps_frame)
        (simp add: budget_reset_def)
  qed
  ultimately show ?thesis
    using assms ingest_inv by (simp add: event_base_def split: group_event.split)
qed

lemma on_entries_ingest:
  assumes "bounded (ingest E peer g from es ss y)"
  shows "fetched clk (fst (gsync_on_entries E clk peer g from es ss y)) (ingest E peer g from es ss y)
      (snd (gsync_on_entries E clk peer g from es ss y))"
proof (cases "expected peer g from y")
  case False
  with assms show ?thesis by (simp add: gsync_on_entries_def ingest_def expected_def)
next
  case True
  obtain outcome S where st: "stored E g from es ss y = (outcome, S)" by (cases "stored E g from es ss y")
  let ?y2 = "y\<lparr>gy_inflight := om_del g (gy_inflight y), gy_store := S\<rparr>"
  have on: "gsync_on_entries E clk peer g from es ss y =
     (case outcome of
        Inl (EGap want got) \<Rightarrow> gsync_fetch clk peer g want ([], ?y2)
      | Inl _ \<Rightarrow> ([], ?y2)
      | Inr ap \<Rightarrow> ([], ratify E g ap (gy_now_at y) (answer_invitation E g (gy_now_at y) ?y2)))"
    using True st by (simp add: gsync_on_entries_def expected_def stored_def Let_def split: if_splits)
  show ?thesis
  proof (cases outcome)
    case (Inl e)
    then have i: "ingest E peer g from es ss y = ?y2" using True st by (simp add: ingest_def)
    from assms i fetch_fetched [of ?y2 clk peer g _ "[]"] Inl show ?thesis
      unfolding on by (cases e) auto
  next
    case (Inr ap)
    with True st assms show ?thesis unfolding on by (simp add: ingest_def)
  qed
qed

lemma on_fetched:
  assumes "cbor_ok E" "base58_ok E" "sync_inv E y"
  shows "fetched clk (fst (gsync_on E clk ev adm y)) (event_base E ev adm y) (snd (gsync_on E clk ev adm y))"
proof -
  have base: "bounded (event_base E ev adm y)" using base_inv [OF assms] by (simp add: sync_inv_def)
  have drain: "fetched clk (fst (gsync_drain clk adm st)) b (snd (gsync_drain clk adm st))"
    if "fetched clk (fst st) b (snd st)" for st b
  proof -
    from drain_fetched [OF fetched_bounded [OF that], of clk adm "fst st"] obtain new where
      "fst (gsync_drain clk adm st) = fst st @ new" "fetched clk new (snd st) (snd (gsync_drain clk adm st))" by auto
    with fetched_trans [OF that] show ?thesis by simp
  qed
  show ?thesis
  proof (cases ev)
    case (GHeadsEv peer heads)
    with base on_heads_fetched [of y clk peer heads] show ?thesis
      by (auto simp: gsync_on_def event_base_def intro!: drain)
  next
    case (GEntriesEv peer g n es ss)
    with base on_entries_ingest [of E peer g n es ss y clk] show ?thesis
      by (auto simp: gsync_on_def event_base_def intro!: drain)
  next
    case (GTickEv now at)
    have "fst (gsync_tick now at adm y) = []" by (simp add: gsync_tick_def Let_def)
    with GTickEv base show ?thesis by (auto simp: gsync_on_def event_base_def intro!: drain)
  qed (use base in \<open>auto simp: gsync_on_def event_base_def intro!: drain\<close>)
qed

lemma on_inv:
  assumes "cbor_ok E" "base58_ok E" "sync_inv E y"
  shows "sync_inv E (snd (gsync_on E clk ev adm y))"
  using fetched_inv [OF on_fetched [OF assms] base_inv [OF assms]] .

lemma request_keeps:
  "gy_store (snd (gsync_on_request E p q adm y)) = gy_store y"
  "gy_inflight (snd (gsync_on_request E p q adm y)) = gy_inflight y"
  "gy_deferred (snd (gsync_on_request E p q adm y)) = gy_deferred y"
  "gy_me (snd (gsync_on_request E p q adm y)) = gy_me y" "gy_key (snd (gsync_on_request E p q adm y)) = gy_key y"
  by (simp_all add: gsync_on_request_def Let_def case_prod_unfold split: group_request.split sum.split option.split)

lemma request_budget:
  "gy_budget (snd (gsync_on_request E p q adm y)) =
     (if is_admitted adm p then snd (budget_spend p (gy_budget y)) else gy_budget y)"
  by (simp add: gsync_on_request_def Let_def case_prod_unfold split: group_request.split sum.split option.split)

lemma request_inv: "sync_inv E y \<Longrightarrow> sync_inv E (snd (gsync_on_request E p q adm y))"
  using budget_spend_facts [of "gy_budget y" p]
  by (simp add: sync_inv_def bounded_def request_keeps request_budget)

section \<open>Consent\<close>

definition consent_kept :: "groups \<Rightarrow> groups \<Rightarrow> bool" where
  "consent_kept S S' \<longleftrightarrow>
     (\<forall>h r. store_get S h = Some r \<longrightarrow> (\<exists>r'. store_get S' h = Some r' \<and> gr_state r' = gr_state r))
   \<and> (\<forall>h r'. store_get S h = None \<and> store_get S' h = Some r' \<longrightarrow> gr_state r' = Pending)"

lemma consent_refl [simp]: "consent_kept S S"
  by (auto simp: consent_kept_def)

lemma consent_trans: "consent_kept S T \<Longrightarrow> consent_kept T U \<Longrightarrow> consent_kept S U"
proof -
  assume a: "consent_kept S T" and b: "consent_kept T U"
  have "\<exists>r'. store_get U h = Some r' \<and> gr_state r' = gr_state r" if "store_get S h = Some r" for h r
  proof -
    from a that obtain t where t: "store_get T h = Some t" "gr_state t = gr_state r"
      unfolding consent_kept_def by blast
    from b t(1) obtain u where "store_get U h = Some u" "gr_state u = gr_state t"
      unfolding consent_kept_def by blast
    with t show ?thesis by simp
  qed
  moreover have "gr_state u = Pending" if "store_get S h = None" "store_get U h = Some u" for h u
  proof (cases "store_get T h")
    case None
    with b that(2) show ?thesis unfolding consent_kept_def by blast
  next
    case (Some t)
    with a that(1) have "gr_state t = Pending" unfolding consent_kept_def by blast
    moreover from b Some obtain u' where "store_get U h = Some u'" "gr_state u' = gr_state t"
      unfolding consent_kept_def by blast
    ultimately show ?thesis using that(2) by simp
  qed
  ultimately show "consent_kept S U" unfolding consent_kept_def by blast
qed

lemma refresh_rows:
  assumes "om_inv (t_groups S)"
  shows "\<exists>d. \<forall>h. store_get (snd (refresh_digest E g S)) h =
    (if h = g then map_option (\<lambda>r. r\<lparr>gr_digest := d r\<rparr>) (store_get S g) else store_get S h)"
proof (cases "store_chain E S g")
  case (Inl e)
  then have same: "snd (refresh_digest E g S) = S" by (simp add: refresh_digest_def)
  have "map_option (\<lambda>r. r\<lparr>gr_digest := gr_digest r\<rparr>) (store_get S g) = store_get S g"
    by (cases "store_get S g") simp_all
  then show ?thesis unfolding same by (intro exI [of _ gr_digest]) simp
next
  case (Inr c)
  let ?w = "load_standings E S g"
  let ?m = "name_from ?w (chain_fold E c)"
  let ?B = "S\<lparr>t_members := (t_members S)(g := ?m),
        t_standings := (t_standings S)(g := filter (\<lambda>(p, r). om_has ?m p) (t_standings S g))\<rparr>"
  have eq: "snd (refresh_digest E g S) = update_row g (\<lambda>r. r\<lparr>gr_digest := standings_digest E ?m ?w\<rparr>) ?B"
    by (simp add: refresh_digest_def Inr rebuild_caches_def Let_def)
  have om: "om_inv (t_groups ?B)" using assms by simp
  have "t_groups ?B = t_groups S" by simp
  then show ?thesis
    unfolding eq store_get_def update_row_get [OF om]
    by (intro exI [of _ "\<lambda>_. standings_digest E ?m ?w"]) simp
qed

lemma author_standing_rows:
  assumes "om_inv (t_groups S)" and S'_def: "S' = snd (store_author_standing E key g pos username at S)"
  shows "(\<forall>h. h \<noteq> g \<longrightarrow> store_get S' h = store_get S h)
    \<and> (store_get S g = None \<longrightarrow> store_get S' g = None)
    \<and> (\<forall>r. store_get S g = Some r \<longrightarrow> (\<exists>r'. store_get S' g = Some r'
          \<and> gr_state r' \<in> {gr_state r, state_of_position pos}
          \<and> gr_head_seq r' = gr_head_seq r \<and> gr_head_hash r' = gr_head_hash r \<and> gr_admin r' = gr_admin r))"
proof -
  let ?q = "next_standing_seq (my_standing_seq S g)"
  let ?prep = "bindE (map_err EStanding (standing_author E key g ?q pos username at)) (\<lambda>s.
      bindE (map_err EStanding (standing_verify E g s)) (\<lambda>body. Inr (s, body)))"
  show ?thesis
  proof (cases ?prep)
    case (Inl err)
    then have "S' = S" unfolding S'_def store_author_standing_def Inl sum.case by simp
    then show ?thesis by auto
  next
    case (Inr sb)
    obtain s body where sb: "sb = (s, body)" by (cases sb)
    let ?W = "write_standing g (gs_me S) s (sb_seq body) (sb_position body) S"
    let ?T = "note_news g (update_row g (\<lambda>r. r\<lparr>gr_state := state_of_position pos\<rparr>) ?W)"
    have res: "snd (case x of (Inl err, S3) \<Rightarrow> (Inl err, S3) | (Inr _, S3) \<Rightarrow> (Inr s, S3)) = snd x"
      for x :: "(store_error + unit) \<times> groups" by (cases x) (simp split: sum.split)
    have S': "S' = snd (refresh_digest E g ?T)"
      unfolding S'_def store_author_standing_def Inr sb sum.case prod.case Let_def by (rule res)
    have omW: "om_inv (t_groups ?W)" using assms(1) by (simp add: write_standing_def)
    then have omT: "om_inv (t_groups ?T)" by (simp add: note_news_def)
    have T: "store_get ?T h = (if h = g then map_option (\<lambda>r. r\<lparr>gr_state := state_of_position pos,
        gr_news := gr_news r + 1\<rparr>) (store_get S g) else store_get S h)" for h
      using omW by (simp add: store_get_def note_news_def update_row_get option.map_comp comp_def)
        (simp add: write_standing_def)
    from refresh_rows [OF omT, of E g] obtain d where
      d: "\<And>h. store_get S' h = (if h = g then map_option (\<lambda>r. r\<lparr>gr_digest := d r\<rparr>) (store_get ?T g) else store_get ?T h)"
      unfolding S' by blast
    show ?thesis unfolding d T by (cases "store_get S g") auto
  qed
qed

lemma consent_author:
  assumes "store_inv E S" shows "consent_kept S (snd (store_author E key g x at S))"
proof (cases "author_read E key g x at S")
  case (Inl err)
  then show ?thesis by (simp add: store_author_def)
next
  case (Inr prep)
  obtain e n c' where prep: "prep = (e, n, c')" by (cases prep)
  from author_read_plan [OF assms] Inr prep obtain r c where
    r: "store_get S g = Some r" and c: "store_chain E S g = Inr c"
    and author: "chain_author E key x at c = (Inr e, c')"
    unfolding store_get_def by (metis store_chain_fits)
  from author_done [OF assms r c author] obtain S' r' where S': "store_author E key g x at S = (Inr e, S')"
    "only_group g S S'" "store_get S' g = Some r'" "gr_state r' = gr_state r" by blast
  have "store_get S' h = store_get S h" if "h \<noteq> g" for h
    using S'(2) that assms by (simp add: only_group_def store_get_def store_inv_def)
  with S' r show ?thesis unfolding consent_kept_def by (metis option.distinct(1) option.inject snd_conv)
qed

lemma consent_answer:
  assumes "store_inv E (gy_store y)"
  shows "consent_kept (gy_store y) (gy_store (answer_invitation E g at y))"
proof (cases "gy_store (answer_invitation E g at y) = gy_store y")
  case False
  then obtain r where r: "store_get (gy_store y) g = Some r" "gr_state r = Pending"
    and S': "gy_store (answer_invitation E g at y) = snd (store_author_standing E (gy_key y) g Unanswered (gy_username y) at (gy_store y))"
    by (auto simp: answer_invitation_def Let_def split: if_splits option.splits)
  have om: "om_inv (t_groups (gy_store y))" using assms by (simp add: store_inv_def)
  from author_standing_rows [OF om refl, where E = E and key = "gy_key y" and g = g and pos = Unanswered
      and username = "gy_username y" and at = at] r S' show ?thesis
    unfolding consent_kept_def by (metis (no_types, lifting) insertE option.distinct(1) option.inject singletonD state_of_position.simps(1))
qed simp

lemma consent_ratify:
  assumes "store_inv E (gy_store y)"
  shows "consent_kept (gy_store y) (gy_store (ratify E g ap at y))"
proof -
  have "consent_kept (gy_store y) (gy_store (fold (ratify_step E g at) ps y))" for ps
    using assms
  proof (induction ps arbitrary: y)
    case (Cons p ps)
    let ?y = "ratify_step E g at p y"
    have "store_inv E (gy_store ?y)" "consent_kept (gy_store y) (gy_store ?y)"
      using Cons.prems by (simp_all add: ratify_step_def store_inv_author consent_author)
    with Cons.IH [of ?y] show ?case by (auto intro: consent_trans)
  qed simp
  then show ?thesis using ratify_fold [of E g ap at y] by auto
qed

lemma consent_stored:
  assumes "store_inv E (gy_store y)"
  shows "consent_kept (gy_store y) (snd (stored E g from es ss y))"
  using consent_local [OF assms, of g "from" es ss "gy_now_at y"]
  unfolding consent_kept_def stored_def by simp

lemma consent_ingest:
  assumes "cbor_ok E" "base58_ok E" "sync_inv E y"
  shows "consent_kept (gy_store y) (gy_store (ingest E peer g from es ss y))"
proof (cases "expected peer g from y")
  case False
  then show ?thesis by (simp add: ingest_def)
next
  case True
  have inv: "store_inv E (gy_store y)" using assms(3) by (simp add: sync_inv_def)
  let ?y2 = "y\<lparr>gy_inflight := om_del g (gy_inflight y), gy_store := snd (stored E g from es ss y)\<rparr>"
  have st: "consent_kept (gy_store y) (gy_store ?y2)" using consent_stored [OF inv, of g "from" es ss] by simp
  show ?thesis
  proof (cases "fst (stored E g from es ss y)")
    case (Inl e)
    with True st show ?thesis by (simp add: ingest_def)
  next
    case (Inr ap)
    let ?y3 = "answer_invitation E g (gy_now_at y) ?y2"
    have inv2: "store_inv E (gy_store ?y2)" "gs_me (gy_store ?y2) = peer_of_key E (gy_key ?y2)"
      using stored_inv [OF inv, of g "from" es ss] assms(3) by (simp_all add: sync_inv_def)
    have "store_inv E (gy_store ?y3)" using answer_invitation_inv [OF assms(1,2) inv2] by blast
    from consent_trans [OF st consent_trans [OF consent_answer [OF inv2(1)] consent_ratify [OF this]]] True Inr
    show ?thesis by (simp add: ingest_def)
  qed
qed

section \<open>Expired invitations\<close>

definition expired :: "int \<Rightarrow> group_sync \<Rightarrow> group_row \<Rightarrow> bool" where
  "expired at y r \<longleftrightarrow> gr_state r = Pending \<and> PENDING_TTL \<le> at - gr_first_seen r
     \<and> \<not> members_contains (store_members (gy_store y) (gr_id r)) (gy_me y)"

lemma store_members_forget: "g \<noteq> h \<Longrightarrow> store_members (store_forget g S) h = store_members S h"
  by (simp add: store_members_def store_forget_def)

lemma store_get_forget: "store_get (store_forget g S) h = (if h = g then None else store_get S h)"
  by (simp add: store_get_def store_forget_def om_simps)

lemma expire_rows:
  "distinct (map gr_id rows) \<Longrightarrow> store_get (gy_store (expire_pending rows at y)) h =
     (if \<exists>r \<in> set rows. gr_id r = h \<and> expired at y r then None else store_get (gy_store y) h)"
proof (induction rows arbitrary: y)
  case (Cons r rows)
  let ?y = "if expired at y r then y\<lparr>gy_store := store_forget (gr_id r) (gy_store y)\<rparr> else y"
  have step: "expire_pending (r # rows) at y = expire_pending rows at ?y"
    by (auto simp: expire_pending_def expired_def not_less)
  have "expired at ?y r' = expired at y r'" if "r' \<in> set rows" for r'
  proof -
    have "gr_id r \<noteq> gr_id r'" using Cons.prems that by auto
    then show ?thesis by (simp add: expired_def store_members_forget)
  qed
  then have "(\<exists>r' \<in> set rows. gr_id r' = h \<and> expired at ?y r') = (\<exists>r' \<in> set rows. gr_id r' = h \<and> expired at y r')"
    by blast
  moreover have "store_get (gy_store ?y) h = (if h = gr_id r \<and> expired at y r then None else store_get (gy_store y) h)"
    by (simp add: store_get_forget)
  ultimately show ?case using Cons.IH [of ?y] Cons.prems unfolding step by (auto split: if_splits)
qed (simp add: expire_pending_def)

lemma store_rows:
  assumes "store_inv E S"
  shows "distinct (map gr_id (store_list S)) \<and> (r \<in> set (store_list S) \<longleftrightarrow> store_get S (gr_id r) = Some r)"
proof -
  have om: "om_inv (t_groups S)" using assms by (simp add: store_inv_def)
  have id: "gr_id r = g" if "map_of (t_groups S) g = Some r" for g r
    using store_inv_group [OF assms, of g] that by (auto simp: group_inv_def group_fits_def row_fits_def)
  then have "map gr_id (map snd (t_groups S)) = map fst (t_groups S)"
    using om_in_set_iff [OF om] by auto
  then have "distinct (map gr_id (map snd (t_groups S)))"
    using om_inv_distinct [OF om] by (simp only:)
  then have "distinct (map gr_id (store_list S))"
    unfolding store_list_def
    by (subst mset_eq_imp_distinct_iff [of _ "map gr_id (map snd (t_groups S))"])
      (simp_all only: mset_map mset_sort)
  moreover have "r \<in> set (store_list S) \<longleftrightarrow> (\<exists>g. map_of (t_groups S) g = Some r)"
    using om_in_set_iff [OF om] by (force simp: store_list_def)
  then have "r \<in> set (store_list S) \<longleftrightarrow> store_get S (gr_id r) = Some r"
    using id unfolding store_get_def by metis
  ultimately show ?thesis by blast
qed

lemma tick_rows:
  assumes "store_inv E (gy_store y)"
  shows "store_get (gy_store (snd (gsync_tick now at adm y))) h =
     (case store_get (gy_store y) h of
        Some r \<Rightarrow> if expired at y r then None else Some r
      | None \<Rightarrow> None)"
proof -
  let ?y1 = "y\<lparr>gy_now_at := at, gy_budget := budget_reset (gy_budget y),
               gy_inflight := filter (\<lambda>(g, f). now < if_deadline f \<and> is_ready adm (if_peer f)) (gy_inflight y),
               gy_deferred := filter (\<lambda>(p, g). is_admitted adm p) (gy_deferred y)\<rparr>"
  have e: "expired at ?y1 r = expired at y r" for r by (simp add: expired_def)
  have "store_get (gy_store (snd (gsync_tick now at adm y))) h =
     (if \<exists>r \<in> set (store_list (gy_store y)). gr_id r = h \<and> expired at y r then None else store_get (gy_store y) h)"
  proof -
    have "store_get (gy_store (expire_pending (store_list (gy_store y)) at ?y1)) h =
       (if \<exists>r \<in> set (store_list (gy_store y)). gr_id r = h \<and> expired at ?y1 r then None
        else store_get (gy_store ?y1) h)"
      using store_rows [OF assms] by (intro expire_rows) blast
    moreover have "gy_store ?y1 = gy_store y" by simp
    ultimately show ?thesis unfolding gsync_tick_def Let_def snd_conv e by (simp only:)
  qed
  moreover have "r \<in> set (store_list (gy_store y)) \<and> gr_id r = h \<longleftrightarrow> store_get (gy_store y) h = Some r" for r
  proof -
    have "store_get (gy_store y) h = Some r \<Longrightarrow> gr_id r = h"
      using store_inv_group [OF assms, of h] by (auto simp: store_get_def group_inv_def group_fits_def row_fits_def)
    then show ?thesis using store_rows [OF assms, of r] by auto
  qed
  then have "(\<exists>r \<in> set (store_list (gy_store y)). gr_id r = h \<and> expired at y r)
      = (\<exists>r. store_get (gy_store y) h = Some r \<and> expired at y r)" by blast
  ultimately show ?thesis by (cases "store_get (gy_store y) h") auto
qed

end
