(* ===== verification/GroupSyncClaims.thy ===== *)
theory GroupSyncClaims
  imports GroupSyncTheorems
begin

text \<open>
  The properties of the group layer's state machine, stated over its entry points \<open>on\<close> and
  \<open>on_request\<close>.
\<close>

section \<open>Reachable states\<close>

text \<open>A node's group layer: events, requests and local store operations in any order.\<close>

inductive sync_reach :: "env \<Rightarrow> keypair \<Rightarrow> string \<Rightarrow> group_sync \<Rightarrow> bool" for E key username where
  start: "reachable E key S \<Longrightarrow> sync_reach E key username (gsync_new E S key username)"
| event: "sync_reach E key username y \<Longrightarrow> sync_reach E key username (snd (gsync_on E clk ev adm y))"
| request: "sync_reach E key username y \<Longrightarrow> sync_reach E key username (snd (gsync_on_request E p q adm y))"
| local: "sync_reach E key username y \<Longrightarrow> store_step E key (gy_store y) S \<Longrightarrow>
    sync_reach E key username (y\<lparr>gy_store := S\<rparr>)"

lemma base_key: "gy_key (event_base E ev adm y) = gy_key y"
  by (simp add: event_base_def ingest_def gsync_finish_def gsync_tick_def Let_def ratify_frame
      answer_invitation_frame expire_steps_frame split: group_event.split sum.split option.split)

lemma sync_reach_inv:
  assumes "cbor_ok E" "base58_ok E" "sync_reach E key username y"
  shows "sync_inv E y \<and> gy_key y = key"
  using assms(3)
proof (induction rule: sync_reach.induct)
  case (start S)
  with reachable_inv [OF _ assms(1,2)] have "store_inv E S" "gs_me S = peer_of_key E key" by blast+
  then show ?case using sync_inv_new by (simp add: gsync_new_def)
next
  case (event y clk ev adm)
  then have y: "sync_inv E y" "gy_key y = key" by simp_all
  have "gy_key (snd (gsync_on E clk ev adm y)) = gy_key (event_base E ev adm y)"
    using on_fetched [OF assms(1,2) y(1), of clk ev adm] by (simp add: fetched_def kept_def)
  with on_inv [OF assms(1,2) y(1)] y(2) show ?case by (simp add: base_key)
next
  case (request y p q adm)
  then show ?case by (simp add: request_inv request_keeps)
next
  case (local y S)
  then show ?case
    using store_step_inv [OF local.hyps(2) _ assms(1,2)] store_step_me [OF local.hyps(2)]
    by (simp add: sync_inv_def bounded_def)
qed

section \<open>Counting answers\<close>

lemma one_answer:
  assumes "sync_inv E y"
  shows "(if p = q \<and> fst (gsync_on_request E q x adm y) \<noteq> GUnavailable then 1 else 0)
      + budget_spent (gy_budget y) p \<le> budget_spent (gy_budget (snd (gsync_on_request E q x adm y))) p"
    and "fst (gsync_on_request E q x adm y) \<noteq> GUnavailable \<Longrightarrow> is_admitted adm q"
proof -
  have inv: "budget_inv (gy_budget y)" using assms by (simp add: sync_inv_def)
  note spend = budget_spend_facts [OF inv, of q]
  show "fst (gsync_on_request E q x adm y) \<noteq> GUnavailable \<Longrightarrow> is_admitted adm q"
    by (simp add: gsync_on_request_def split: if_splits)
  have "fst (budget_spend q (gy_budget y)) \<and> is_admitted adm q"
    if "fst (gsync_on_request E q x adm y) \<noteq> GUnavailable"
    using that by (auto simp: gsync_on_request_def Let_def case_prod_unfold split: if_splits)
  then show "(if p = q \<and> fst (gsync_on_request E q x adm y) \<noteq> GUnavailable then 1 else 0)
      + budget_spent (gy_budget y) p \<le> budget_spent (gy_budget (snd (gsync_on_request E q x adm y))) p"
    using spend(3) by (auto simp: request_budget)
qed

lemma budget_kept:
  assumes "cbor_ok E" "base58_ok E" "sync_inv E y"
  shows "gy_budget (snd (gsync_on E clk ev adm y)) =
    (case ev of GTickEv now at \<Rightarrow> budget_reset (gy_budget y) | _ \<Rightarrow> gy_budget y)"
proof -
  have "gy_budget (snd (gsync_on E clk ev adm y)) = gy_budget (event_base E ev adm y)"
    using on_fetched [OF assms, of clk ev adm] by (simp add: fetched_def kept_def)
  then show ?thesis
    by (simp add: event_base_def ingest_def gsync_finish_def gsync_tick_def Let_def ratify_frame
        answer_invitation_frame expire_steps_frame split: group_event.split sum.split option.split)
qed

text \<open>The same runs, with what the peers were answered since the last tick counted: every response a peer is
  given other than \<open>Unavailable\<close>.\<close>

inductive sync_run :: "env \<Rightarrow> keypair \<Rightarrow> string \<Rightarrow> (peer_id \<Rightarrow> nat) \<Rightarrow> group_sync \<Rightarrow> bool" for E key username where
  start: "reachable E key S \<Longrightarrow> sync_run E key username (\<lambda>_. 0) (gsync_new E S key username)"
| event: "sync_run E key username answers y \<Longrightarrow>
    sync_run E key username (case ev of GTickEv now at \<Rightarrow> (\<lambda>_. 0) | _ \<Rightarrow> answers) (snd (gsync_on E clk ev adm y))"
| request: "sync_run E key username answers y \<Longrightarrow> gsync_on_request E p q adm y = (response, y') \<Longrightarrow>
    sync_run E key username (if response = GUnavailable then answers else answers(p := Suc (answers p))) y'"
| local: "sync_run E key username answers y \<Longrightarrow> store_step E key (gy_store y) S \<Longrightarrow>
    sync_run E key username answers (y\<lparr>gy_store := S\<rparr>)"

lemma sync_run_reach: "sync_run E key username answers y \<Longrightarrow> sync_reach E key username y"
proof (induction rule: sync_run.induct)
  case (request answers y p q adm response y')
  then show ?case using sync_reach.request [OF request.IH, of p q adm] by simp
qed (auto intro: sync_reach.intros)

lemma sync_reach_run: "sync_reach E key username y \<Longrightarrow> \<exists>answers. sync_run E key username answers y"
proof (induction rule: sync_reach.induct)
  case (request y p q adm)
  then obtain answers where "sync_run E key username answers y" by blast
  from sync_run.request [OF this prod.collapse [symmetric]] show ?case by blast
qed (blast intro: sync_run.intros)+

lemma sync_run_budget:
  assumes "cbor_ok E" "base58_ok E" "sync_run E key username answers y"
  shows "answers p \<le> budget_spent (gy_budget y) p"
  using assms(3)
proof (induction rule: sync_run.induct)
  case (event answers y ev clk adm)
  have "sync_inv E y" using sync_reach_inv [OF assms(1,2) sync_run_reach [OF event.hyps]] ..
  from budget_kept [OF assms(1,2) this] event.IH show ?case by (cases ev) simp_all
next
  case (request answers y q x adm response y')
  have "sync_inv E y" using sync_reach_inv [OF assms(1,2) sync_run_reach [OF request.hyps(1)]] ..
  from one_answer(1) [OF this, of p q x adm] request.hyps(2) request.IH show ?case by (auto split: if_splits)
qed simp_all

section \<open>The episodes an event ends\<close>

fun ends :: "group_event \<Rightarrow> admitted_peers \<Rightarrow> group_id \<Rightarrow> in_flight \<Rightarrow> bool" where
  "ends (GEntriesEv p h n es ss) adm g f \<longleftrightarrow> h = g \<and> if_peer f = p \<and> if_from f = n"
| "ends (GUnavailableEv p h) adm g f \<longleftrightarrow> h = g \<and> if_peer f = p"
| "ends (GFetchFailedEv p h) adm g f \<longleftrightarrow> h = g \<and> if_peer f = p"
| "ends (GTickEv now at) adm g f \<longleftrightarrow> \<not> (now < if_deadline f \<and> is_ready adm (if_peer f))"
| "ends _ adm g f \<longleftrightarrow> False"

lemma base_inflight:
  assumes "bounded y"
  shows "map_of (gy_inflight (event_base E ev adm y)) g =
    (case map_of (gy_inflight y) g of Some f \<Rightarrow> if ends ev adm g f then None else Some f | None \<Rightarrow> None)"
proof -
  have om: "om_inv (gy_inflight y)" using assms by (simp add: bounded_def)
  show ?thesis
  proof (cases ev)
    case (GEntriesEv p h n es ss)
    have "gy_inflight (ingest E p h n es ss y) = (if expected p h n y then om_del h (gy_inflight y) else gy_inflight y)"
      by (simp add: ingest_def Let_def ratify_frame answer_invitation_frame split: sum.split)
    with GEntriesEv show ?thesis
      by (auto simp: event_base_def expected_def om_simps split: option.split)
  next
    case (GTickEv now at)
    with om show ?thesis
      by (simp add: event_base_def gsync_tick_def Let_def expire_steps_frame om_get_filter split: option.split)
  qed (auto simp: event_base_def gsync_finish_def om_simps split: option.split)
qed

lemma fetched_act:
  assumes "fetched clk new y y'" "a \<in> set new"
  shows "map_of (gy_inflight y') (act_group a) = Some (snd (act_entry clk a))"
proof -
  have "(act_group a, snd (act_entry clk a)) = act_entry clk a" by (cases a) simp
  then have "(act_group a, snd (act_entry clk a)) \<in> set (map (act_entry clk) new)" using assms(2) by simp
  moreover have "distinct (map fst (map (act_entry clk) new))"
    using assms(1) by (simp add: fetched_def slots_def comp_def)
  ultimately have "map_of (map (act_entry clk) new) (act_group a) = Some (snd (act_entry clk a))" by simp
  moreover have "map_of (gy_inflight y) (act_group a) = None"
    using assms by (simp add: fetched_def slots_def)
  ultimately show ?thesis using assms(1) by (simp add: fetched_def slots_def)
qed

section \<open>Properties\<close>

text \<open>C23. Resources stay bounded. However events, requests and local operations arrive, a node has at
  most 8 fetches outstanding, at most 256 groups waiting, each group waiting once, has given no
  peer more than 8 responses other than \<open>Unavailable\<close> since the last tick, counted as they are given, and its group
  store is consistent.\<close>

theorem sync_bounds:
  assumes "cbor_ok E" "base58_ok E" "sync_run E key username answers y"
  shows "length (gy_inflight y) \<le> 8 \<and> distinct (map fst (gy_inflight y))
    \<and> length (gy_deferred y) \<le> 256 \<and> distinct (map snd (gy_deferred y))
    \<and> (\<forall>p. answers p \<le> 8) \<and> (\<forall>p. budget_spent (gy_budget y) p \<le> 8) \<and> store_inv E (gy_store y)"
proof -
  have inv: "sync_inv E y" using sync_reach_inv [OF assms(1,2) sync_run_reach [OF assms(3)]] ..
  then have spent: "budget_spent (gy_budget y) p \<le> 8" for p
    unfolding sync_inv_def budget_inv_def ANSWERS_PER_TICK_def by metis
  then have "answers p \<le> 8" for p using sync_run_budget [OF assms, of p] le_trans by blast
  with inv spent show ?thesis
    by (auto simp: sync_inv_def bounded_def MAX_INFLIGHT_def MAX_DEFERRED_def intro: om_inv_distinct)
qed

lemma start_sample: "sync_reach sample (Keypair 0) ''alice'' (gsync_new sample (empty_store alice) (Keypair 0) ''alice'')"
proof (rule sync_reach.start)
  have "reachable sample (Keypair 0) (empty_store (peer_of_key sample (Keypair 0)))" by (rule reachable.start)
  then show "reachable sample (Keypair 0) (empty_store alice)" by (simp add: peer_defs)
qed

lemma run_sample: "sync_run sample (Keypair 0) ''alice'' (\<lambda>_. 0) (gsync_new sample (empty_store alice) (Keypair 0) ''alice'')"
proof (rule sync_run.start)
  have "reachable sample (Keypair 0) (empty_store (peer_of_key sample (Keypair 0)))" by (rule reachable.start)
  then show "reachable sample (Keypair 0) (empty_store alice)" by (simp add: peer_defs)
qed

theorem sync_bounds_witness:
  "\<exists>y. sync_run sample (Keypair 0) ''alice'' ((\<lambda>_. 0)(bob := 1)) y
     \<and> length (gy_inflight y) \<le> 8 \<and> budget_spent (gy_budget y) bob \<le> 8"
proof -
  let ?y = "gsync_new sample (empty_store alice) (Keypair 0) ''alice''"
  let ?r = "gsync_on_request sample bob GAsk [(bob, Ready)] ?y"
  have "fst ?r \<noteq> GUnavailable"
    by (simp add: gsync_on_request_def is_admitted_def om_has_def budget_spend_def gsync_new_def budget_new_def
        ANSWERS_PER_TICK_def)
  with sync_run.request [OF run_sample prod.collapse [symmetric], of bob GAsk "[(bob, Ready)]"]
  have run: "sync_run sample (Keypair 0) ''alice'' ((\<lambda>_. 0)(bob := 1)) (snd ?r)" by simp
  from sync_bounds [OF sample_cbor sample_base58 this] run show ?thesis by blast
qed

lemma act_of_entry: "act_entry clk a = (g, x) \<Longrightarrow> a = FetchAct (if_peer x) g (if_from x)"
  by (cases a) auto

text \<open>C22. What one event fetches. The fetches it starts are for distinct groups, none of which was
  still in flight, and are exactly what is added to the outstanding ones, each with its deadline; an
  episode the event does not end goes on untouched. Unless the event is dropped as coming from a
  peer that is not ready, afterwards either all 8 slots are taken or no group is waiting.\<close>

theorem event_fetches:
  assumes "cbor_ok E" "base58_ok E" "sync_inv E y" "gsync_on E clk ev adm y = (acts, y')"
  shows "distinct (map act_group acts)
    \<and> (\<forall>p g n. FetchAct p g n \<in> set acts \<longrightarrow>
          map_of (gy_inflight y') g = Some \<lparr>if_peer = p, if_from = n, if_deadline = clk g + FETCH_TIMEOUT\<rparr>)
    \<and> (\<forall>g f. map_of (gy_inflight y) g = Some f \<and> \<not> ends ev adm g f \<longrightarrow>
          map_of (gy_inflight y') g = Some f \<and> g \<notin> act_group ` set acts)
    \<and> (\<forall>g f. map_of (gy_inflight y') g = Some f \<longrightarrow>
          map_of (gy_inflight y) g = Some f \<or> FetchAct (if_peer f) g (if_from f) \<in> set acts)
    \<and> (length (gy_inflight y') = 8 \<or> gy_deferred y' = [] \<or>
        (\<exists>p heads. ev = GHeadsEv p heads \<and> \<not> is_ready adm p))"
proof -
  let ?b = "event_base E ev adm y"
  have f: "fetched clk acts ?b y'" using on_fetched [OF assms(1-3), of clk ev adm] assms(4) by simp
  have bd: "bounded y" using assms(3) by (simp add: sync_inv_def)
  note base = base_inflight [OF bd, of E ev adm]
  have get: "map_of (gy_inflight y') g =
      (case map_of (gy_inflight ?b) g of Some x \<Rightarrow> Some x | None \<Rightarrow> map_of (map (act_entry clk) acts) g)" for g
    using f by (simp add: fetched_def slots_def)
  have 1: "distinct (map act_group acts)" using f by (simp add: fetched_def slots_def)
  have 2: "map_of (gy_inflight y') g = Some \<lparr>if_peer = p, if_from = n, if_deadline = clk g + FETCH_TIMEOUT\<rparr>"
    if "FetchAct p g n \<in> set acts" for p g n
    using fetched_act [OF f that] by simp
  have 3: "map_of (gy_inflight y') g = Some x \<and> g \<notin> act_group ` set acts"
    if "map_of (gy_inflight y) g = Some x" "\<not> ends ev adm g x" for g x
  proof -
    have b: "map_of (gy_inflight ?b) g = Some x" using base [of g] that by simp
    with f have "g \<notin> act_group ` set acts" by (auto simp: fetched_def slots_def)
    with get [of g] b show ?thesis by simp
  qed
  have 4: "map_of (gy_inflight y) g = Some x \<or> FetchAct (if_peer x) g (if_from x) \<in> set acts"
    if "map_of (gy_inflight y') g = Some x" for g x
  proof (cases "map_of (gy_inflight ?b) g")
    case None
    with get [of g] that have "map_of (map (act_entry clk) acts) g = Some x" by simp
    then have "(g, x) \<in> set (map (act_entry clk) acts)" by (rule map_of_SomeD)
    then obtain a where "a \<in> set acts" "act_entry clk a = (g, x)" by auto
    then show ?thesis using act_of_entry by metis
  next
    case (Some z)
    with get [of g] base [of g] that show ?thesis by (auto split: option.splits if_splits)
  qed
  have full: "length (gy_inflight y') = 8 \<or> gy_deferred y' = []"
    if "gsync_drain clk adm st = (acts, y')" for st
    using drain_full [of clk adm "fst st" "snd st"] fetched_bounded [OF f] that
    by (simp add: bounded_def MAX_INFLIGHT_def) linarith
  have 5: "length (gy_inflight y') = 8 \<or> gy_deferred y' = [] \<or> (\<exists>p heads. ev = GHeadsEv p heads \<and> \<not> is_ready adm p)"
    using assms(4) full by (cases ev) (auto simp: gsync_on_def split: if_splits)
  from 1 2 3 4 5 show ?thesis by blast
qed

lemma drain_nil: "gy_deferred y = [] \<Longrightarrow> gsync_drain clk adm (acts, y) = (acts, y)"
  by (simp add: gsync_drain.simps)

theorem event_fetches_witness:
  "\<exists>acts y'. gsync_on sample (\<lambda>_. 0)
     (GHeadsEv bob [\<lparr>gh_group = team, gh_head_seq = 1, gh_head_hash = NO_PARENT, gh_standings = []\<rparr>])
     [(bob, Ready)] (gsync_new sample (empty_store alice) (Keypair 0) ''alice'') = (acts, y')
   \<and> distinct (map act_group acts) \<and> length (gy_inflight y') \<le> 8"
proof -
  let ?y = "gsync_new sample (empty_store alice) (Keypair 0) ''alice''"
  let ?ev = "GHeadsEv bob [\<lparr>gh_group = team, gh_head_seq = 1, gh_head_hash = NO_PARENT, gh_standings = []\<rparr>]"
  obtain acts y' where on: "gsync_on sample (\<lambda>_. 0) ?ev [(bob, Ready)] ?y = (acts, y')"
    by (cases "gsync_on sample (\<lambda>_. 0) ?ev [(bob, Ready)] ?y")
  have inv: "sync_inv sample ?y" using sync_reach_inv [OF sample_cbor sample_base58 start_sample] by blast
  from on_inv [OF sample_cbor sample_base58 inv, of "\<lambda>_. 0" ?ev "[(bob, Ready)]"] on
  have "length (gy_inflight y') \<le> 8" by (simp add: sync_inv_def bounded_def MAX_INFLIGHT_def)
  with event_fetches [OF sample_cbor sample_base58 inv on] on show ?thesis by blast
qed

text \<open>C25. A response nobody is waiting for is dropped: entries that do not match the outstanding fetch
  of their group, by peer and starting position, change nothing in the store, the outstanding
  fetches that were running, or the time.\<close>

theorem unsolicited_dropped:
  assumes "cbor_ok E" "base58_ok E" "sync_inv E y"
    and "\<not> (\<exists>f. map_of (gy_inflight y) g = Some f \<and> if_peer f = peer \<and> if_from f = from)"
    and "gsync_on E clk (GEntriesEv peer g from es ss) adm y = (acts, y')"
  shows "gy_store y' = gy_store y \<and> gy_now_at y' = gy_now_at y
    \<and> (\<forall>h f. map_of (gy_inflight y) h = Some f \<longrightarrow> map_of (gy_inflight y') h = Some f)"
proof -
  have "\<not> expected peer g from y" using assms(4) by (auto simp: expected_def split: option.splits)
  then have b: "event_base E (GEntriesEv peer g from es ss) adm y = y" by (simp add: event_base_def ingest_def)
  have "fetched clk acts y y'"
    using on_fetched [OF assms(1-3), of clk "GEntriesEv peer g from es ss" adm] assms(5) b by simp
  then show ?thesis by (auto simp: fetched_def kept_def slots_def)
qed

theorem unsolicited_dropped_witness:
  "gy_store (snd (gsync_on sample (\<lambda>_. 0) (GEntriesEv bob team 0 [ent 0] []) [(bob, Ready)]
     (gsync_new sample (empty_store alice) (Keypair 0) ''alice''))) = empty_store alice"
proof -
  let ?y = "gsync_new sample (empty_store alice) (Keypair 0) ''alice''"
  have inv: "sync_inv sample ?y" using sync_reach_inv [OF sample_cbor sample_base58 start_sample] by blast
  have none: "\<not> (\<exists>f. map_of (gy_inflight ?y) team = Some f \<and> if_peer f = bob \<and> if_from f = 0)"
    by (simp add: gsync_new_def)
  from unsolicited_dropped [OF sample_cbor sample_base58 inv none prod.collapse [symmetric]]
  show ?thesis by (simp add: gsync_new_def)
qed

section \<open>A run of requests\<close>

fun answer_all :: "env \<Rightarrow> admitted_peers \<Rightarrow> (peer_id \<times> group_request) list \<Rightarrow> group_sync \<Rightarrow>
    (peer_id \<times> group_response) list \<times> group_sync" where
  "answer_all E adm [] y = ([], y)"
| "answer_all E adm ((p, q) # qs) y =
     (let (r, y1) = gsync_on_request E p q adm y; (rs, y2) = answer_all E adm qs y1 in ((p, r) # rs, y2))"

definition granted :: "peer_id \<Rightarrow> (peer_id \<times> group_response) list \<Rightarrow> nat" where
  "granted p rs = length (filter (\<lambda>(q, r). q = p \<and> r \<noteq> GUnavailable) rs)"

lemma answers_spend:
  "sync_inv E y \<Longrightarrow> sync_inv E (snd (answer_all E adm qs y))
    \<and> granted p (fst (answer_all E adm qs y)) + budget_spent (gy_budget y) p
        \<le> budget_spent (gy_budget (snd (answer_all E adm qs y))) p
    \<and> (\<not> is_admitted adm p \<longrightarrow> granted p (fst (answer_all E adm qs y)) = 0)
    \<and> gy_store (snd (answer_all E adm qs y)) = gy_store y
    \<and> gy_inflight (snd (answer_all E adm qs y)) = gy_inflight y
    \<and> gy_deferred (snd (answer_all E adm qs y)) = gy_deferred y"
proof (induction E adm qs y rule: answer_all.induct)
  case (2 E adm q x qs y)
  obtain r y1 where 1: "gsync_on_request E q x adm y = (r, y1)" by (cases "gsync_on_request E q x adm y")
  have inv: "sync_inv E y1" using request_inv [OF 2(2), of q x adm] 1 by simp
  have ih: "sync_inv E (snd (answer_all E adm qs y1))
    \<and> granted p (fst (answer_all E adm qs y1)) + budget_spent (gy_budget y1) p
        \<le> budget_spent (gy_budget (snd (answer_all E adm qs y1))) p
    \<and> (\<not> is_admitted adm p \<longrightarrow> granted p (fst (answer_all E adm qs y1)) = 0)
    \<and> gy_store (snd (answer_all E adm qs y1)) = gy_store y1
    \<and> gy_inflight (snd (answer_all E adm qs y1)) = gy_inflight y1
    \<and> gy_deferred (snd (answer_all E adm qs y1)) = gy_deferred y1"
    by (rule 2(1) [OF 1 [symmetric] refl inv])
  from ih one_answer(1) [OF 2(2), of p q x adm] one_answer(2) [OF 2(2), of q x adm] 1
    request_keeps [of E q x adm y]
  show ?case by (auto simp: granted_def case_prod_unfold Let_def split: if_splits)
qed (simp add: granted_def)

text \<open>Answers are bounded. Over any run of requests a peer the node has not admitted only ever
  hears \<open>Unavailable\<close>, an admitted one hears anything else at most 8 times less what it already
  spent since the last tick, and no request changes anything but the budget.\<close>

theorem answers_bounded:
  assumes "sync_inv E y" "answer_all E adm qs y = (rs, y')"
  shows "granted p rs + budget_spent (gy_budget y) p \<le> 8
    \<and> (\<not> is_admitted adm p \<longrightarrow> granted p rs = 0)
    \<and> gy_store y' = gy_store y \<and> gy_inflight y' = gy_inflight y \<and> gy_deferred y' = gy_deferred y"
proof -
  from answers_spend [OF assms(1), of adm qs p] assms(2)
  have a: "sync_inv E y'" "granted p rs + budget_spent (gy_budget y) p \<le> budget_spent (gy_budget y') p"
    "\<not> is_admitted adm p \<longrightarrow> granted p rs = 0" "gy_store y' = gy_store y" "gy_inflight y' = gy_inflight y"
    "gy_deferred y' = gy_deferred y" by simp_all
  from a(1) have "budget_spent (gy_budget y') p \<le> 8" unfolding sync_inv_def budget_inv_def ANSWERS_PER_TICK_def by metis
  with a show ?thesis by linarith
qed

theorem answers_bounded_witness:
  "granted bob (fst (answer_all sample [(bob, Ready)] [(bob, GAsk), (carol, GAsk)]
     (gsync_new sample (empty_store alice) (Keypair 0) ''alice''))) \<le> 8"
proof -
  have inv: "sync_inv sample (gsync_new sample (empty_store alice) (Keypair 0) ''alice'')"
    using sync_reach_inv [OF sample_cbor sample_base58 start_sample] by blast
  from answers_bounded [OF inv prod.collapse [symmetric], of bob "[(bob, Ready)]" "[(bob, GAsk), (carol, GAsk)]"] show ?thesis by linarith
qed

text \<open>C21. Events keep the user's decisions. No event changes the state of a group that is held, a
  group that comes in is pending, and a group leaves the store only in a tick, when it is a pending
  invitation that does not name this node and was first seen 30 days ago or more; a tick changes no
  other row.\<close>

theorem event_consent:
  assumes "cbor_ok E" "base58_ok E" "sync_inv E y" "y' = snd (gsync_on E clk ev adm y)"
  shows "(\<forall>g r. store_get (gy_store y) g = Some r \<longrightarrow>
        (\<exists>r'. store_get (gy_store y') g = Some r' \<and> gr_state r' = gr_state r)
      \<or> (\<exists>now at. ev = GTickEv now at \<and> expired at y r \<and> store_get (gy_store y') g = None))
    \<and> (\<forall>g r'. store_get (gy_store y) g = None \<and> store_get (gy_store y') g = Some r' \<longrightarrow> gr_state r' = Pending)
    \<and> (\<forall>now at g r. ev = GTickEv now at \<and> store_get (gy_store y) g = Some r \<and> \<not> expired at y r \<longrightarrow>
          store_get (gy_store y') g = Some r)"
proof -
  have inv: "store_inv E (gy_store y)" using assms(3) by (simp add: sync_inv_def)
  have S': "gy_store y' = gy_store (event_base E ev adm y)"
    using on_fetched [OF assms(1-3), of clk ev adm] assms(4) by (simp add: fetched_def kept_def)
  show ?thesis
  proof (cases ev)
    case (GTickEv now at)
    have "gy_store y' = gy_store (snd (gsync_tick now at adm y))" by (simp add: S' GTickEv event_base_def)
    with GTickEv tick_rows [OF inv, of now at adm] show ?thesis by (auto split: option.splits if_splits)
  next
    case (GEntriesEv p g n es ss)
    have "consent_kept (gy_store y) (gy_store y')"
      using consent_ingest [OF assms(1-3)] by (simp add: S' GEntriesEv event_base_def)
    with GEntriesEv show ?thesis by (simp add: consent_kept_def)
  qed (auto simp: S' event_base_def gsync_finish_def split: option.split)
qed

theorem event_consent_witness:
  "\<exists>r. gr_state r = Active \<and> store_get (gy_store (snd (gsync_on sample (\<lambda>_. 0) (GTickEv 5 5) []
      (gsync_new sample alice_store (Keypair 0) ''alice'')))) team = Some r"
proof -
  let ?y = "gsync_new sample alice_store (Keypair 0) ''alice''"
  have inv: "sync_inv sample ?y"
    using alice_inv by (intro sync_inv_new) (simp_all add: alice_facts peer_defs)
  obtain r where r: "store_get (gy_store ?y) team = Some r" "gr_state r = Active"
    by (simp add: gsync_new_def alice_facts row_of_def)
  then have "\<not> expired 5 ?y r" by (simp add: expired_def)
  with event_consent [OF sample_cbor sample_base58 inv refl, where clk = "\<lambda>_. 0" and ev = "GTickEv 5 5" and adm = "[]"] r
  show ?thesis by blast
qed

section \<open>One round between two nodes\<close>

lemma chain_steps_admin: "chain_steps E c es = Inr c' \<Longrightarrow> ch_admin c' = ch_admin c"
  by (auto dest: chain_steps_grow)

lemma fetch_acts: "set (fst st) \<subseteq> set (fst (gsync_fetch clk p g n st))"
  by (cases st) (auto simp: gsync_fetch_def)

lemma fold_acts: "set (fst st) \<subseteq> set (fst (fold (\<lambda>g st. gsync_fetch clk p g (k g st) st) gs st))"
proof (induction gs arbitrary: st)
  case (Cons g gs)
  from Cons [of "gsync_fetch clk p g (k g st) st"] fetch_acts [of st clk p g "k g st"] show ?case by auto
qed simp

lemma drain_acts: "set (fst st) \<subseteq> set (fst (gsync_drain clk adm st))"
proof (induction clk adm st rule: gsync_drain.induct)
  case (1 clk adm acts y)
  show ?case
  proof (cases "length (gy_inflight y) < MAX_INFLIGHT")
    case room: True
    show ?thesis
    proof (cases "gy_deferred y")
      case (Cons pg rest)
      obtain p g where pg: "pg = (p, g)" by (cases pg)
      note step = gsync_drain.simps [of clk adm acts y] Cons pg room
      show ?thesis
      proof (cases "\<not> is_admitted adm p \<or> om_has (gy_inflight (y\<lparr>gy_deferred := rest\<rparr>)) g")
        case True
        from 1(1) [OF room Cons pg [symmetric] refl True] True show ?thesis by (simp add: step Let_def)
      next
        case False
        from 1(2) [OF room Cons pg [symmetric] refl False] False
          fetch_acts [of "(acts, y\<lparr>gy_deferred := rest\<rparr>)" clk p g "head_seq_of (gy_store (y\<lparr>gy_deferred := rest\<rparr>)) g"]
        show ?thesis by (auto simp: step Let_def)
      qed
    qed (simp add: gsync_drain.simps [of clk adm acts y])
  qed (simp add: gsync_drain.simps [of clk adm acts y])
qed

lemma first_head_fetched:
  assumes ready: "is_ready adm p"
    and r: "store_get (gy_store y) (gh_group h) = Some r" "gr_head_seq r < gh_head_seq h"
    and room: "map_of (gy_inflight y) (gh_group h) = None" "length (gy_inflight y) < 8"
  shows "FetchAct p (gh_group h) (gr_head_seq r) \<in> set (fst (gsync_on E clk (GHeadsEv p [h]) adm y))"
proof -
  let ?st = "gsync_fetch clk p (gh_group h) (gr_head_seq r) ([], y)"
  have st: "set (fst ?st) = {FetchAct p (gh_group h) (gr_head_seq r)}"
    using room by (simp add: gsync_fetch_def om_has_def MAX_INFLIGHT_def)
  have "gsync_on_heads clk p [h] y = fold (\<lambda>g st. gsync_fetch clk p g (head_seq_of (gy_store (snd st)) g) st)
      (silently_omitted p [gh_group h] (gy_store (snd ?st))) ?st"
    using r by (simp add: gsync_on_heads_def GROUP_MAX_HEADS_def Let_def)
  with st fold_acts [of ?st clk p "\<lambda>g st. head_seq_of (gy_store (snd st)) g"] have
    "FetchAct p (gh_group h) (gr_head_seq r) \<in> set (fst (gsync_on_heads clk p [h] y))" by auto
  with drain_acts [of "gsync_on_heads clk p [h] y" clk adm] ready show ?thesis by (auto simp: gsync_on_def)
qed

text \<open>What a node holds after it is sent what it asked for.\<close>

lemma ingest_pull:
  assumes y: "sync_inv E y" and exp: "expected p g (chain_len c) y"
    and r: "store_get (gy_store y) g = Some r" "store_chain E (gy_store y) g = Inr c" "ch_admin c \<noteq> gy_me y"
    and steps: "chain_steps E c es = Inr c'"
  shows "\<exists>r'. store_get (gy_store (ingest E p g (chain_len c) es ss y)) g = Some r'
    \<and> gr_head_seq r' = chain_len c' \<and> gr_head_hash r' = chain_head c'"
proof -
  let ?S = "gy_store y"
  have inv: "store_inv E ?S" using y by (simp add: sync_inv_def)
  have fits: "group_fits E ?S g r c" using store_inv_known [OF inv r(1)] r(2) by (metis sum.inject(2))
  from pull_ok [OF inv r(1) [unfolded store_get_def] fits steps, of ss "gy_now_at y"] obtain ap S' r1 where
    put: "store_put E g (chain_len c) es ss (gy_now_at y) ?S = (Inr ap, S')" and S': "store_inv E S'"
    "map_of (t_groups S') g = Some r1" "group_fits E S' g r1 c'" by blast
  have st: "stored E g (chain_len c) es ss y = (Inr ap, S')" using put r(1) by (simp add: stored_def)
  let ?y2 = "y\<lparr>gy_inflight := om_del g (gy_inflight y), gy_store := S'\<rparr>"
  let ?y3 = "answer_invitation E g (gy_now_at y) ?y2"
  have row: "gr_head_seq r1 = chain_len c'" "gr_head_hash r1 = chain_head c'" "gr_admin r1 = ch_admin c"
    using S'(3) chain_steps_admin [OF steps] by (simp_all add: group_fits_def row_fits_def)
  have om: "om_inv (t_groups S')" using S'(1) by (simp add: store_inv_def)
  have "\<exists>r3. store_get (gy_store ?y3) g = Some r3 \<and> gr_head_seq r3 = gr_head_seq r1
      \<and> gr_head_hash r3 = gr_head_hash r1 \<and> gr_admin r3 = gr_admin r1"
  proof (cases "gy_store ?y3 = S'")
    case True
    with S'(2) show ?thesis by (simp add: store_get_def)
  next
    case False
    then have "gy_store ?y3 = snd (store_author_standing E (gy_key y) g Unanswered (gy_username y) (gy_now_at y) S')"
      by (auto simp: answer_invitation_def Let_def split: if_splits)
    with author_standing_rows [OF om this] S'(2) show ?thesis by (auto simp: store_get_def)
  qed
  then obtain r3 where r3: "store_get (gy_store ?y3) g = Some r3" "gr_head_seq r3 = gr_head_seq r1"
    "gr_head_hash r3 = gr_head_hash r1" "gr_admin r3 = gr_admin r1" by blast
  have "gr_admin r3 \<noteq> gy_me ?y3" using r3(4) row(3) r(3) by (simp add: answer_invitation_frame)
  then have "ratify E g ap (gy_now_at y) ?y3 = ?y3" using r3(1) by (simp add: ratify_def)
  then have "ingest E p g (chain_len c) es ss y = ?y3" using exp st by (simp add: ingest_def Let_def)
  with r3 row show ?thesis by simp
qed

text \<open>C10. A round of the protocol. Two members A and B of a group, B behind A and not the group's
  admin: when B hears A's head it asks A for what follows its own, A's answer is the rest of its
  chain, and once B has been given that answer its head is A's head. B must have a free slot and no
  fetch of the group outstanding, and A must still owe B an answer this tick.\<close>

theorem sync_round:
  assumes ok: "cbor_ok E" "base58_ok E" and A: "sync_inv E a" "store_get (gy_store a) g = Some rA"
      "store_chain E (gy_store a) g = Inr c'"
    and B: "sync_inv E b" "store_get (gy_store b) g = Some rB" "store_chain E (gy_store b) g = Inr c"
      "ch_admin c \<noteq> gy_me b"
    and prefix: "chain_entries c' = chain_entries c @ es" "es \<noteq> []"
    and members: "members_contains (chain_fold E c') (gy_me a)" "members_contains (chain_fold E c') (gy_me b)"
    and room: "map_of (gy_inflight b) g = None" "length (gy_inflight b) < 8" "is_ready admB (gy_me a)"
    and owed: "is_admitted admA (gy_me b)" "budget_spent (gy_budget a) (gy_me b) < 8"
  shows "\<exists>ss a' b1 b2 r. (let n = chain_len c; me = gy_me a in
      FetchAct me g n \<in> set (fst (gsync_on E clk (GHeadsEv me [group_head_of rA]) admB b))
    \<and> b1 = snd (gsync_on E clk (GHeadsEv me [group_head_of rA]) admB b)
    \<and> gsync_on_request E (gy_me b) (GFetch g n) admA a = (GEntries g n es ss, a')
    \<and> b2 = snd (gsync_on E clk' (GEntriesEv me g n es ss) admB b1)
    \<and> store_get (gy_store b2) g = Some r \<and> gr_head_seq r = gr_head_seq rA \<and> gr_head_hash r = gr_head_hash rA)"
proof -
  let ?h = "GHeadsEv (gy_me a) [group_head_of rA]"
  have inv: "store_inv E (gy_store a)" "store_inv E (gy_store b)" and me: "gs_me (gy_store a) = gy_me a"
    using A(1) B(1) by (simp_all add: sync_inv_def)
  have fA: "group_fits E (gy_store a) g rA c'" using store_inv_known [OF inv(1) A(2)] A(3) by (metis sum.inject(2))
  have fB: "group_fits E (gy_store b) g rB c" using store_inv_known [OF inv(2) B(2)] B(3) by (metis sum.inject(2))
  have ok': "chain_ok E c" "chain_ok E c'" using fA fB by (simp_all add: group_fits_def)
  have rA: "gr_id rA = g" "gr_head_seq rA = chain_len c'" "gr_head_hash rA = chain_head c'"
    and rB: "gr_head_seq rB = chain_len c" using fA fB by (simp_all add: group_fits_def row_fits_def)
  have len: "length (chain_entries c) = chain_len c" "length (chain_entries c') = chain_len c'"
    by (simp_all add: chain_entries_def chain_len_def)
  have steps: "chain_steps E c es = Inr c'"
    using chain_load_append [OF chain_ok_load [OF ok'(1)], of es] chain_ok_load [OF ok'(2)] prefix(1)
    by (cases "chain_steps E c es") simp_all
  have behind: "gr_head_seq rB < gh_head_seq (group_head_of rA)"
    using prefix len rB rA by (simp add: group_head_of_def) (metis add_diff_cancel_left' length_append length_greater_0_conv less_add_same_cancel1)
  have hg: "gh_group (group_head_of rA) = g" by (simp add: group_head_of_def rA)
  have act: "FetchAct (gy_me a) g (chain_len c) \<in> set (fst (gsync_on E clk ?h admB b))"
    using first_head_fetched [OF room(3) _ behind, of b E clk] B(2) room(1,2) by (simp add: hg rB)
  let ?b1 = "snd (gsync_on E clk ?h admB b)"
  have f: "fetched clk (fst (gsync_on E clk ?h admB b)) b ?b1"
    using on_fetched [OF ok B(1), of clk ?h admB] by (simp add: event_base_def)
  have b1: "sync_inv E ?b1" "gy_store ?b1 = gy_store b" "gy_me ?b1 = gy_me b"
    using on_inv [OF ok B(1)] f by (simp_all add: fetched_def kept_def)
  have exp: "expected (gy_me a) g (chain_len c) ?b1"
    using fetched_act [OF f act] by (simp add: expected_def)
  let ?ss = "store_standings E (gy_store a) g"
  have "store_serve E (gy_store a) g (gy_me b) (chain_len c) = Inr (Some (es, ?ss))"
    using serve_member [OF inv(1) A(2) [unfolded store_get_def] fA members(1) [folded me] members(2)] prefix len by simp
  moreover have "fst (budget_spend (gy_me b) (gy_budget a))"
    using owed(2) A(1) budget_spend_facts(4) [of "gy_budget a" "gy_me b"]
    by (simp add: sync_inv_def ANSWERS_PER_TICK_def)
  ultimately have req: "fst (gsync_on_request E (gy_me b) (GFetch g (chain_len c)) admA a) = GEntries g (chain_len c) es ?ss"
    using owed(1) by (simp add: gsync_on_request_def case_prod_unfold Let_def)
  let ?ev = "GEntriesEv (gy_me a) g (chain_len c) es ?ss"
  from ingest_pull [OF b1(1) exp _ _ _ steps, of rB ?ss] B b1 obtain r where
    r: "store_get (gy_store (ingest E (gy_me a) g (chain_len c) es ?ss ?b1)) g = Some r"
    "gr_head_seq r = chain_len c'" "gr_head_hash r = chain_head c'" by auto
  have "gy_store (snd (gsync_on E clk' ?ev admB ?b1)) = gy_store (ingest E (gy_me a) g (chain_len c) es ?ss ?b1)"
    using on_fetched [OF ok b1(1), of clk' ?ev admB] by (simp add: fetched_def kept_def event_base_def)
  with r rA act req show ?thesis
    unfolding Let_def
    by (intro exI [of _ ?ss] exI [of _ "snd (gsync_on_request E (gy_me b) (GFetch g (chain_len c)) admA a)"]
        exI [of _ ?b1] exI [of _ "snd (gsync_on E clk' ?ev admB ?b1)"] exI [of _ r])
      (simp add: prod_eq_iff)
qed

theorem sync_round_witness:
  "\<exists>(a::group_sync) (b::group_sync) b1 ss. gy_me a = alice \<and> gy_me b = bob \<and>
     (\<exists>r r'. store_get (gy_store a) team = Some r \<and> gr_head_seq r = 2 \<and>
       store_get (gy_store (snd (gsync_on sample (\<lambda>_. 0) (GEntriesEv alice team 1 [ent 1] ss) [(alice, Ready)] b1))) team
         = Some r' \<and> gr_head_hash r' = gr_head_hash r)"
proof -
  from alice_grows obtain A rA where A: "store_inv sample A" "store_get A team = Some rA"
    "store_chain sample A team = Inr chain2" "gs_me A = alice" by blast
  from bob_adopts obtain B rB where B: "store_inv sample B" "store_get B team = Some rB"
    "store_chain sample B team = Inr chain1" "gs_me B = bob" by blast
  let ?a = "gsync_new sample A (Keypair 0) ''alice''" and ?b = "gsync_new sample B (Keypair 1) ''bob''"
  have a: "sync_inv sample ?a" "gy_store ?a = A" "gy_me ?a = alice" "gy_inflight ?a = []"
    using sync_inv_new [OF A(1), of "Keypair 0" "''alice''"] A by (simp_all add: gsync_new_def peer_defs)
  have b: "sync_inv sample ?b" "gy_store ?b = B" "gy_me ?b = bob" "gy_inflight ?b = []"
    using sync_inv_new [OF B(1), of "Keypair 1" "''bob''"] B by (simp_all add: gsync_new_def peer_defs)
  have spent: "budget_spent (gy_budget ?a) bob < 8" by (simp add: gsync_new_def budget_new_def budget_spent_def)
  have m: "members_contains (chain_fold sample chain2) alice" "members_contains (chain_fold sample chain2) bob"
    by (simp_all add: fold_samples mem_def members_contains_def om_has_def)
  have p: "chain_entries chain2 = chain_entries chain1 @ [ent 1]" by (simp add: entries_samples)
  have adm: "ch_admin chain1 \<noteq> bob" by (simp add: chain1_def peer_defs)
  have rdy: "is_ready [(alice, Ready)] alice" "is_admitted [(bob, Ready)] bob"
    by (simp_all add: is_ready_def is_admitted_def om_has_def)
  have seq: "gr_head_seq rA = 2"
    using store_inv_known [OF A(1,2)] A(3) by (auto simp: group_fits_def row_fits_def len_samples)
  let ?b1 = "snd (gsync_on sample (\<lambda>_. 0) (GHeadsEv alice [group_head_of rA]) [(alice, Ready)] ?b)"
  obtain ss r where r: "store_get (gy_store (snd (gsync_on sample (\<lambda>_. 0) (GEntriesEv alice team 1 [ent 1] ss)
      [(alice, Ready)] ?b1))) team = Some r" "gr_head_hash r = gr_head_hash rA"
    using sync_round [OF sample_cbor sample_base58 a(1) _ _ b(1), of team rA chain2 rB chain1 "[ent 1]" "[(alice, Ready)]"
      "[(bob, Ready)]" "\<lambda>_. 0" "\<lambda>_. 0"] a b A B adm p m rdy spent
    unfolding Let_def len_samples by auto
  have "gy_me ?a = alice \<and> gy_me ?b = bob \<and> (\<exists>r r'. store_get (gy_store ?a) team = Some r \<and> gr_head_seq r = 2 \<and>
       store_get (gy_store (snd (gsync_on sample (\<lambda>_. 0) (GEntriesEv alice team 1 [ent 1] ss) [(alice, Ready)] ?b1))) team
         = Some r' \<and> gr_head_hash r' = gr_head_hash r)"
    unfolding a b using r A(2) seq by blast
  then show ?thesis
    by (intro exI [of _ ?a] exI [of _ ?b] exI [of _ ?b1] exI [of _ ss])
qed

end
