(* ===== verification/FileSyncClaims.thy ===== *)
theory FileSyncClaims
  imports FileLogTheorems FileSync GroupSyncClaims
begin

text \<open>
  The properties of the state machine that keeps catalogues in step, stated over its entry points \<open>on\<close>
  and \<open>on_request\<close>: bounded resources, what an answer tells, and what becomes of a read.
\<close>

section \<open>What every step keeps\<close>

definition fsync_inv :: "env \<Rightarrow> file_sync \<Rightarrow> bool" where
  "fsync_inv E y \<longleftrightarrow> files_inv E (fy_files y) \<and> om_inv (fy_inflight y) \<and> length (fy_inflight y) \<le> FILE_MAX_INFLIGHT
     \<and> distinct (fy_deferred y) \<and> length (fy_deferred y) \<le> FILE_MAX_DEFERRED
     \<and> budget_inv (fy_budget y) \<and> tb_per_tick (fy_budget y) = FILE_ANSWERS_PER_TICK"

lemma fsync_inv_new: "files_inv E F \<Longrightarrow> fsync_inv E (fsync_new F G root disk)"
  by (simp add: fsync_inv_def fsync_new_def) (simp add: budget_new_def)

lemma fsync_inv_files: "fsync_inv E y \<Longrightarrow> files_inv E F \<Longrightarrow> fsync_inv E (y\<lparr>fy_files := F\<rparr>)"
  "fsync_inv E (y\<lparr>fy_dirs := d\<rparr>) \<longleftrightarrow> fsync_inv E y" "fsync_inv E (y\<lparr>fy_disk := disk\<rparr>) \<longleftrightarrow> fsync_inv E y"
  "fsync_inv E (y\<lparr>fy_groups := G\<rparr>) \<longleftrightarrow> fsync_inv E y"
  by (simp_all add: fsync_inv_def)

lemma fsync_inv_shorter:
  "fsync_inv E y \<Longrightarrow> om_inv m \<Longrightarrow> length m \<le> length (fy_inflight y) \<Longrightarrow> fsync_inv E (y\<lparr>fy_inflight := m\<rparr>)"
  "fsync_inv E y \<Longrightarrow> distinct ds \<Longrightarrow> length ds \<le> length (fy_deferred y) \<Longrightarrow> fsync_inv E (y\<lparr>fy_deferred := ds\<rparr>)"
  by (simp_all add: fsync_inv_def)

lemma fsync_inv_dir_of: "fsync_inv E y \<Longrightarrow> fsync_inv E (snd (fsync_dir_of g y))"
proof -
  assume y: "fsync_inv E y"
  then have "files_inv E (snd (files_dir_for g n (fy_files y)))" for n by (simp add: fsync_inv_def files_inv_dir_for)
  with y show ?thesis
    by (auto simp: fsync_dir_of_def Let_def case_prod_unfold fsync_inv_files split: option.split sum.split)
qed

lemma fsync_inv_defer: "fsync_inv E y \<Longrightarrow> fsync_inv E (fsync_defer p g y)"
  by (simp add: fsync_inv_def fsync_defer_def)

lemma fsync_inv_read: "fsync_inv E y \<Longrightarrow> fsync_inv E (snd (fsync_read clk p g after retried (acts, y)))"
  by (simp add: fsync_read_def fsync_inv_defer)
    (simp add: fsync_inv_def length_om_put fsync_has_slot_def)

lemma fsync_inv_digest: "fsync_inv E y \<Longrightarrow> fsync_inv E (y\<lparr>fy_files := snd (files_digest E g (fy_files y))\<rparr>)"
  by (simp add: fsync_inv_def files_digest_fresh)

lemma fsync_inv_heads_step: "fsync_inv E (snd st) \<Longrightarrow> fsync_inv E (snd (fsync_heads_step E clk p head st))"
  using fsync_inv_digest [of E "snd st" "fh_group head"]
  by (auto simp: fsync_heads_step_def Let_def case_prod_unfold fsync_inv_read)

lemma fsync_inv_on_heads: "fsync_inv E y \<Longrightarrow> fsync_inv E (snd (fsync_on_heads E clk p heads y))"
proof -
  have "fsync_inv E (snd st) \<Longrightarrow> fsync_inv E (snd (fold (fsync_heads_step E clk p) hs st))" for hs st
    by (induction hs arbitrary: st) (simp_all add: fsync_inv_heads_step)
  then show "fsync_inv E y \<Longrightarrow> ?thesis" by (simp add: fsync_on_heads_def)
qed

lemma into_row_ok: "into_row E e = Some row \<Longrightarrow> path_ok (fl_path row)"
  by (auto simp: into_row_def parse_path_ok split: sum.splits option.splits)

lemma fsync_inv_merge_entry: "fsync_inv E y \<Longrightarrow> fsync_inv E (merge_entry E g dir e y)"
proof (cases "into_row E e")
  case (Some row)
  assume y: "fsync_inv E y"
  then have "files_inv E (fst (snd (files_merge (fy_root y) g row dir (fy_files y, fy_disk y))))"
    by (intro files_inv_merge) (simp_all add: fsync_inv_def into_row_ok [OF Some])
  with y show ?thesis by (simp add: merge_entry_def Some Let_def case_prod_unfold fsync_inv_def)
qed (simp add: merge_entry_def)

lemma fsync_inv_merges: "fsync_inv E y \<Longrightarrow> fsync_inv E (fold (merge_entry E g dir) es y)"
  by (induction es arbitrary: y) (simp_all add: fsync_inv_merge_entry)

lemma fsync_inv_cursor: "fsync_inv E y \<Longrightarrow> fsync_inv E (y\<lparr>fy_files := set_cursor g p c (fy_files y)\<rparr>)"
  by (simp add: fsync_inv_def files_inv_sync)

lemma fsync_inv_on_changes: "fsync_inv E y \<Longrightarrow> fsync_inv E (snd (fsync_on_changes E clk p g after es nxt has_more digest y))"
proof -
  assume y: "fsync_inv E y"
  let ?y0 = "y\<lparr>fy_inflight := om_del (p, g) (fy_inflight y)\<rparr>"
  have "fsync_inv E ?y0" using y length_om_del [of "(p, g)" "fy_inflight y"] by (intro fsync_inv_shorter) (auto simp: fsync_inv_def)
  then have d: "fsync_inv E (snd (fsync_dir_of g ?y0))" by (rule fsync_inv_dir_of)
  show ?thesis
  proof (cases "map_of (fy_inflight y) (p, g)")
    case (Some flight)
    have "fsync_inv E (snd (if has_more then fsync_read clk p g nxt r ([], y3)
          else let (ours, F) = files_digest E g (fy_files y3); y4 = y3\<lparr>fy_files := F\<rparr> in
               if ours \<noteq> digest \<and> \<not> r then fsync_read clk p g 0 True ([], y4\<lparr>fy_files := set_cursor g p 0 (fy_files y4)\<rparr>)
               else ([SettledAct p g], y4)))" if "fsync_inv E y3" for y3 r
      using that fsync_inv_digest [OF that, of g] fsync_inv_cursor [OF fsync_inv_digest [OF that, of g], of g p 0]
      by (auto simp: Let_def case_prod_unfold fsync_inv_read)
    moreover have "fsync_inv E (let y2 = fold (merge_entry E g dir) es (snd (fsync_dir_of g ?y0)) in
        y2\<lparr>fy_files := set_cursor g p nxt (fy_files y2)\<rparr>)" for dir es
      using fsync_inv_cursor [OF fsync_inv_merges [OF d, of g dir es], of g p nxt] by (simp add: Let_def)
    ultimately show ?thesis using y d Some
      by (auto simp: fsync_on_changes_def Let_def case_prod_unfold split: option.split)
  qed (use y in \<open>simp add: fsync_on_changes_def\<close>)
qed

lemma fsync_inv_drain: "fsync_inv E (snd st) \<Longrightarrow> fsync_inv E (snd (fsync_drain clk adm st))"
proof (induction clk adm st rule: fsync_drain.induct [case_names drain])
  case (drain clk adm acts y)
  show ?case
  proof (cases "fsync_has_slot y \<and> fy_deferred y \<noteq> []")
    case False
    with drain.prems show ?thesis by (auto simp: fsync_drain.simps [of clk adm acts y] split: list.split)
  next
    case True
    then obtain p g rest where q: "fy_deferred y = (p, g) # rest" by (metis list.exhaust surj_pair)
    let ?y = "y\<lparr>fy_deferred := rest\<rparr>"
    have "fsync_inv E ?y" using drain.prems q by (intro fsync_inv_shorter) (simp_all add: fsync_inv_def)
    with drain.IH [of "(p, g)" rest p g ?y] True q show ?thesis
      by (simp add: fsync_drain.simps [of clk adm acts y] fsync_inv_read Let_def)
  qed
qed

lemma fsync_inv_tick: "fsync_inv E y \<Longrightarrow> fsync_inv E (fsync_tick now at adm y)"
proof -
  assume y: "fsync_inv E y"
  have "length (filter P xs) \<le> n" if "length xs \<le> n" for P :: "'x \<Rightarrow> bool" and xs n
    using that by (rule le_trans [OF length_filter_le])
  note len = this
  show ?thesis using y
    by (simp add: fsync_inv_def fsync_tick_def len) (simp add: budget_reset_def)
qed

lemma fsync_inv_on: "fsync_inv E y \<Longrightarrow> fsync_inv E (snd (fsync_on E clk ev adm y))"
proof -
  assume y: "fsync_inv E y"
  then have "fsync_inv E (fsync_finish g p y)" for g p
    using length_om_del [of "(p, g)" "fy_inflight y"] unfolding fsync_finish_def
    by (intro fsync_inv_shorter) (auto simp: fsync_inv_def)
  with y have "fsync_inv E (snd (fsync_dispatch E clk ev adm y))"
    by (simp add: fsync_dispatch_def fsync_inv_on_heads fsync_inv_on_changes fsync_inv_tick split: file_event.split option.split)
  then show ?thesis by (simp add: fsync_on_def fsync_inv_drain)
qed

section \<open>Answers\<close>

lemma name_heads_facts:
  "files_inv E F \<Longrightarrow> files_inv E (snd (name_heads E hs F)) \<and> f_rows (snd (name_heads E hs F)) = f_rows F
    \<and> fst (name_heads E hs F) = map (\<lambda>h. \<lparr>fh_group = gh_group h, fh_digest = catalogue_digest E (rows_in F (gh_group h)),
       fh_count = files_count F (gh_group h)\<rparr>) hs"
proof (induction hs arbitrary: F)
  case (Cons h hs)
  let ?G = "snd (files_digest E (gh_group h) F)"
  note dg = files_digest_fresh [OF Cons.prems, of "gh_group h"]
  note ih = Cons.IH [OF dg(2)]
  have rows: "rows_in ?G k = rows_in F k" for k using dg(4) by (simp add: rows_in_def)
  from ih dg(1,4) show ?case by (simp add: Let_def case_prod_unfold rows files_count_def)
qed simp

lemma shares_groups: "fsync_shares (y\<lparr>fy_budget := b\<rparr>) p g = fsync_shares y p g"
  by (simp add: fsync_shares_def)

lemma page_facts:
  assumes inv: "files_inv E (fy_files y)"
    and page: "fsync_page E g after y = (resp, y')"
  shows "files_inv E (fy_files y')" "f_rows (fy_files y') = f_rows (fy_files y)"
    "\<exists>nxt. resp = MChangesPage g (List.map_filter (manifest_entry_of E) (take 2048 (later (fy_files y) g after))) nxt
        (has_changes_after (fy_files y) g nxt) (catalogue_digest E (rows_in (fy_files y) g))
      \<and> later (fy_files y) g nxt = drop 2048 (later (fy_files y) g after)"
proof -
  obtain out nxt F1 where ch: "changes_since g after MAX_ENTRIES_PER_RESPONSE (fy_files y) = ((out, nxt), F1)" by (metis surj_pair)
  have n: "0 < MAX_ENTRIES_PER_RESPONSE" "MAX_ENTRIES_PER_RESPONSE \<le> I64_MAX"
    by (simp_all add: MAX_ENTRIES_PER_RESPONSE_def I64_MAX_def)
  note pg = page_later [OF inv n ch]
  have F1: "files_inv E F1" using files_inv_changes [OF inv, of g after MAX_ENTRIES_PER_RESPONSE] ch by simp
  note dg = files_digest_fresh [OF F1, of g]
  have rows: "rows_in F1 h = rows_in (fy_files y) h" for h using pg(5) by (simp add: rows_in_def)
  have resp: "resp = MChangesPage g (List.map_filter (manifest_entry_of E) out) nxt (has_changes_after F1 g nxt) (fst (files_digest E g F1))"
    "fy_files y' = snd (files_digest E g F1)" using page ch by (auto simp: fsync_page_def Let_def case_prod_unfold)
  show "files_inv E (fy_files y')" "f_rows (fy_files y') = f_rows (fy_files y)" using resp(2) dg pg(5) by simp_all
  have "has_changes_after F1 g nxt = has_changes_after (fy_files y) g nxt" by (simp add: has_changes_after_def rows)
  then show "\<exists>nxt. resp = MChangesPage g (List.map_filter (manifest_entry_of E) (take 2048 (later (fy_files y) g after))) nxt
        (has_changes_after (fy_files y) g nxt) (catalogue_digest E (rows_in (fy_files y) g))
      \<and> later (fy_files y) g nxt = drop 2048 (later (fy_files y) g after)"
    using resp(1) dg(1) pg(1,2) by (auto simp: rows MAX_ENTRIES_PER_RESPONSE_def)
qed

lemma fsync_inv_request: "fsync_inv E y \<Longrightarrow> fsync_inv E (snd (fsync_on_request E p q adm y))"
proof -
  assume y: "fsync_inv E y"
  let ?y = "y\<lparr>fy_budget := snd (budget_spend p (fy_budget y))\<rparr>"
  have y1: "fsync_inv E ?y" using y by (simp add: fsync_inv_def budget_spend_facts)
  have "fsync_inv E (snd (fsync_heads_for E p ?y))"
    using fsync_inv_files(1) [OF y1] name_heads_facts [of E "fy_files ?y"] y1
    by (simp add: fsync_heads_for_def case_prod_unfold Let_def) (simp add: fsync_inv_def)
  moreover have "fsync_inv E (snd (fsync_page E g after ?y))" for g after
  proof -
    have "files_inv E (fy_files ?y)" using y1 by (simp add: fsync_inv_def)
    then have "files_inv E (snd (files_digest E g (snd (changes_since g after MAX_ENTRIES_PER_RESPONSE (fy_files ?y)))))"
      by (intro files_digest_fresh(2) files_inv_changes)
    from fsync_inv_files(1) [OF y1 this] show ?thesis by (simp add: fsync_page_def Let_def case_prod_unfold)
  qed
  ultimately show ?thesis using y y1
    by (simp add: fsync_on_request_def Let_def case_prod_unfold split: manifest_request.split)
qed

section \<open>Properties\<close>

text \<open>A node's file layer: events, requests, calls on the index by other parts of the program, and changes
  of the group tables, in any order.\<close>

inductive fsync_reach :: "env \<Rightarrow> peer_id \<Rightarrow> file_sync \<Rightarrow> bool" for E me where
  start: "files_reach E me F \<Longrightarrow> fsync_reach E me (fsync_new F G root disk)"
| event: "fsync_reach E me y \<Longrightarrow> fsync_reach E me (snd (fsync_on E clk ev adm y))"
| request: "fsync_reach E me y \<Longrightarrow> fsync_reach E me (snd (fsync_on_request E p q adm y))"
| index: "fsync_reach E me y \<Longrightarrow> files_reach E me F \<Longrightarrow> fsync_reach E me (y\<lparr>fy_files := F\<rparr>)"
| groups: "fsync_reach E me y \<Longrightarrow> fsync_reach E me (y\<lparr>fy_groups := G\<rparr>)"

lemma fsync_reach_inv: "fsync_reach E me y \<Longrightarrow> fsync_inv E y"
  by (induction rule: fsync_reach.induct)
    (simp_all add: fsync_inv_new files_reach_inv fsync_inv_on fsync_inv_request fsync_inv_files)

section \<open>Counting answers\<close>

text \<open>Only a tick and a request touch the budget.\<close>

lemma dir_of_budget: "fy_budget (snd (fsync_dir_of g y)) = fy_budget y"
  by (simp add: fsync_dir_of_def Let_def case_prod_unfold split: option.split sum.split)

lemma read_budget: "fy_budget (snd (fsync_read clk p g after retried st)) = fy_budget (snd st)"
  by (simp add: fsync_read_def fsync_defer_def split: prod.split)

lemma on_heads_budget: "fy_budget (snd (fsync_on_heads E clk p heads y)) = fy_budget y"
proof -
  have "fy_budget (snd (fsync_heads_step E clk p h st)) = fy_budget (snd st)" for h st
    by (simp add: fsync_heads_step_def Let_def read_budget split: prod.split)
  then have "fy_budget (snd (fold (fsync_heads_step E clk p) hs st)) = fy_budget (snd st)" for hs st
    by (induction hs arbitrary: st) simp_all
  then show ?thesis by (simp add: fsync_on_heads_def)
qed

lemma merges_budget: "fy_budget (fold (merge_entry E g dir) es y) = fy_budget y"
proof -
  have "fy_budget (merge_entry E g dir e y) = fy_budget y" for e y
    by (simp add: merge_entry_def Let_def case_prod_unfold split: option.split)
  then show ?thesis by (induction es arbitrary: y) simp_all
qed

lemma on_changes_budget: "fy_budget (snd (fsync_on_changes E clk p g after es nxt has_more digest y)) = fy_budget y"
  by (simp add: fsync_on_changes_def Let_def case_prod_unfold read_budget merges_budget dir_of_budget split: option.split)

lemma drain_budget: "fy_budget (snd (fsync_drain clk adm st)) = fy_budget (snd st)"
proof (induction clk adm st rule: fsync_drain.induct [case_names drain])
  case (drain clk adm acts y)
  show ?case
  proof (cases "fsync_has_slot y \<and> fy_deferred y \<noteq> []")
    case False
    then show ?thesis by (auto simp: fsync_drain.simps [of clk adm acts y] split: list.split)
  next
    case True
    then obtain p g rest where q: "fy_deferred y = (p, g) # rest" by (metis list.exhaust surj_pair)
    with drain.IH [of "(p, g)" rest p g "y\<lparr>fy_deferred := rest\<rparr>"] True show ?thesis
      by (simp add: fsync_drain.simps [of clk adm acts y] read_budget Let_def)
  qed
qed

lemma on_budget:
  "fy_budget (snd (fsync_on E clk ev adm y)) =
    (case ev of FTickEv now at \<Rightarrow> budget_reset (fy_budget y) | _ \<Rightarrow> fy_budget y)"
  by (simp add: fsync_on_def drain_budget fsync_dispatch_def on_heads_budget on_changes_budget fsync_finish_def fsync_tick_def
      split: file_event.split option.split)

lemma request_spends:
  assumes "fsync_inv E y"
  shows "(if q = p \<and> fst (fsync_on_request E p x adm y) \<noteq> MUnavailable then 1 else 0)
      + budget_spent (fy_budget y) q \<le> budget_spent (fy_budget (snd (fsync_on_request E p x adm y))) q"
proof -
  have inv: "budget_inv (fy_budget y)" using assms by (simp add: fsync_inv_def)
  have "fy_budget (snd (fsync_on_request E p x adm y)) =
      (if is_admitted adm p then snd (budget_spend p (fy_budget y)) else fy_budget y)"
    by (simp add: fsync_on_request_def Let_def case_prod_unfold fsync_heads_for_def fsync_page_def
        split: manifest_request.split)
  moreover have "fst (budget_spend p (fy_budget y)) \<and> is_admitted adm p"
    if "fst (fsync_on_request E p x adm y) \<noteq> MUnavailable"
    using that by (auto simp: fsync_on_request_def Let_def case_prod_unfold split: if_splits)
  ultimately show ?thesis using budget_spend_facts(3) [OF inv, of p q] by auto
qed

text \<open>The same runs, with every response a peer was given since the last tick, other than \<open>Unavailable\<close>, counted.\<close>

inductive fsync_run :: "env \<Rightarrow> peer_id \<Rightarrow> (peer_id \<Rightarrow> nat) \<Rightarrow> file_sync \<Rightarrow> bool" for E me where
  start: "files_reach E me F \<Longrightarrow> fsync_run E me (\<lambda>_. 0) (fsync_new F G root disk)"
| event: "fsync_run E me answers y \<Longrightarrow>
    fsync_run E me (case ev of FTickEv now at \<Rightarrow> (\<lambda>_. 0) | _ \<Rightarrow> answers) (snd (fsync_on E clk ev adm y))"
| request: "fsync_run E me answers y \<Longrightarrow> fsync_on_request E p q adm y = (response, y') \<Longrightarrow>
    fsync_run E me (if response = MUnavailable then answers else answers(p := Suc (answers p))) y'"
| index: "fsync_run E me answers y \<Longrightarrow> files_reach E me F \<Longrightarrow> fsync_run E me answers (y\<lparr>fy_files := F\<rparr>)"
| groups: "fsync_run E me answers y \<Longrightarrow> fsync_run E me answers (y\<lparr>fy_groups := G\<rparr>)"

lemma fsync_run_reach: "fsync_run E me answers y \<Longrightarrow> fsync_reach E me y"
proof (induction rule: fsync_run.induct)
  case (request answers y p q adm response y')
  then show ?case using fsync_reach.request [OF request.IH, of p q adm] by simp
qed (auto intro: fsync_reach.intros)

lemma fsync_reach_run: "fsync_reach E me y \<Longrightarrow> \<exists>answers. fsync_run E me answers y"
proof (induction rule: fsync_reach.induct)
  case (request y p q adm)
  then obtain answers where "fsync_run E me answers y" by blast
  from fsync_run.request [OF this prod.collapse [symmetric]] show ?case by blast
qed (blast intro: fsync_run.intros)+

lemma fsync_run_budget: "fsync_run E me answers y \<Longrightarrow> answers p \<le> budget_spent (fy_budget y) p"
proof (induction rule: fsync_run.induct)
  case (event answers y ev clk adm)
  then show ?case by (cases ev) (simp_all add: on_budget)
next
  case (request answers y q x adm response y')
  have "fsync_inv E y" using fsync_reach_inv [OF fsync_run_reach [OF request.hyps(1)]] .
  from request_spends [OF this, of p q x adm] request.hyps(2) request.IH show ?case by (auto split: if_splits)
qed simp_all

text \<open>C24. The file layer's resources stay bounded. However events, requests, local calls and changes of the
  groups arrive, at most 8 reads are outstanding, no two for the same peer and group, at most 2048
  wait, each once, no peer has been given more than 8 responses other than \<open>Unavailable\<close> since the last tick, counted as
  they are given, and the digest the node would name for a group is that of its rows.\<close>

theorem fsync_bounds:
  assumes "fsync_run E me answers y"
  shows "length (fy_inflight y) \<le> 8 \<and> distinct (map fst (fy_inflight y))
    \<and> length (fy_deferred y) \<le> 2048 \<and> distinct (fy_deferred y)
    \<and> (\<forall>p. answers p \<le> 8) \<and> (\<forall>p. budget_spent (fy_budget y) p \<le> 8)
    \<and> (\<forall>g. fst (files_digest E g (fy_files y)) = catalogue_digest E (rows_in (fy_files y) g))"
proof -
  have inv: "fsync_inv E y" using fsync_reach_inv [OF fsync_run_reach [OF assms]] .
  then have spent: "budget_spent (fy_budget y) p \<le> 8" for p
    unfolding fsync_inv_def budget_inv_def FILE_ANSWERS_PER_TICK_def by metis
  then have "answers p \<le> 8" for p using fsync_run_budget [OF assms, of p] le_trans by blast
  with inv spent show ?thesis
    by (auto simp: fsync_inv_def FILE_MAX_INFLIGHT_def FILE_MAX_DEFERRED_def MAX_HEADS_PER_ANSWER_def
        files_digest_fresh(1) intro: om_inv_distinct)
qed

definition fresh_sync :: file_sync where
  "fresh_sync = fsync_new (one_row alice file_a) (empty_store alice) [] []"

lemma fresh_reach: "fsync_reach sample alice fresh_sync"
  unfolding fresh_sync_def by (rule fsync_reach.start [OF one_row_reach(1)])

theorem fsync_bounds_witness:
  "\<exists>y. fsync_run sample alice ((\<lambda>_. 0)(bob := 1)) y \<and> length (fy_inflight y) \<le> 8 \<and> budget_spent (fy_budget y) bob \<le> 8"
proof -
  let ?r = "fsync_on_request sample bob MAsk [(bob, Settling)] fresh_sync"
  have start: "fsync_run sample alice (\<lambda>_. 0) fresh_sync"
    unfolding fresh_sync_def by (rule fsync_run.start [OF one_row_reach(1)])
  have "fst ?r \<noteq> MUnavailable"
    by (simp add: fsync_on_request_def is_admitted_def om_has_def budget_spend_def fresh_sync_def fsync_new_def budget_new_def
        FILE_ANSWERS_PER_TICK_def fsync_heads_for_def Let_def case_prod_unfold)
  with fsync_run.request [OF start prod.collapse [symmetric], of bob MAsk "[(bob, Settling)]"]
  have run: "fsync_run sample alice ((\<lambda>_. 0)(bob := 1)) (snd ?r)" by simp
  from fsync_bounds [OF this] run show ?thesis by blast
qed

text \<open>C12. What an answer tells. Only an admitted peer with answers left in its budget is answered. It is told
  of at most 128 groups, all shared with it, each with the digest and number of the rows; it is given a page
  of a shared group's log only, namely the first 2048 rows past the position it asks for, whatever number that is, with
  the position they end at and whether there are more; and it learns what is held of a shared group only. Answering never changes a row.\<close>

theorem file_answers:
  assumes "fsync_reach E me y" "fsync_on_request E p request adm y = (resp, y')"
  shows "f_rows (fy_files y') = f_rows (fy_files y)
    \<and> (resp \<noteq> MUnavailable \<longrightarrow> is_admitted adm p \<and> budget_spent (fy_budget y) p < 8)
    \<and> (case resp of
         MUnavailable \<Rightarrow> True
       | MHeads heads \<Rightarrow> request = MAsk \<and> length heads \<le> 128 \<and> (\<forall>h \<in> set heads. fsync_shares y p (fh_group h)
           \<and> fh_digest h = catalogue_digest E (rows_in (fy_files y) (fh_group h))
           \<and> fh_count h = length (rows_in (fy_files y) (fh_group h)))
       | MChangesPage g entries nxt has_more digest \<Rightarrow> fsync_shares y p g
           \<and> (\<exists>after. request = MChanges g after
               \<and> entries = List.map_filter (manifest_entry_of E) (take 2048 (later (fy_files y) g after))
               \<and> later (fy_files y) g nxt = drop 2048 (later (fy_files y) g after)
               \<and> (has_more \<longleftrightarrow> 2048 < length (later (fy_files y) g after))
               \<and> digest = catalogue_digest E (rows_in (fy_files y) g))
       | MHeld g held \<Rightarrow> fsync_shares y p g \<and> (\<exists>paths. request = MHoldings g paths \<and> held = fsync_holdings g paths y))"
proof -
  have inv: "fsync_inv E y" using assms(1) by (rule fsync_reach_inv)
  then have files: "files_inv E (fy_files y)" and budget: "budget_inv (fy_budget y)" "tb_per_tick (fy_budget y) = 8"
    by (simp_all add: fsync_inv_def FILE_ANSWERS_PER_TICK_def)
  let ?y = "y\<lparr>fy_budget := snd (budget_spend p (fy_budget y))\<rparr>"
  show ?thesis
  proof (cases "is_admitted adm p \<and> fst (budget_spend p (fy_budget y))")
    case False
    then have "resp = MUnavailable" "fy_files y' = fy_files y"
      using assms(2) by (auto simp: fsync_on_request_def Let_def case_prod_unfold split: if_splits)
    then show ?thesis by simp
  next
    case True
    then have ok: "is_admitted adm p" "budget_spent (fy_budget y) p < 8"
      using budget_spend_facts(4) [OF budget(1), of p] budget(2) by simp_all
    have step: "fsync_on_request E p request adm y = (case request of
            MAsk \<Rightarrow> (MHeads (fst (fsync_heads_for E p ?y)), snd (fsync_heads_for E p ?y))
          | MChanges g after \<Rightarrow> if \<not> fsync_shares y p g then (MUnavailable, ?y) else fsync_page E g after ?y
          | MHoldings g paths \<Rightarrow>
              if \<not> fsync_shares y p g then (MUnavailable, ?y) else (MHeld g (fsync_holdings g paths ?y), ?y))"
      using True by (simp add: fsync_on_request_def Let_def case_prod_unfold shares_groups split: manifest_request.split)
    show ?thesis
    proof (cases request)
      case MAsk
      note nh = name_heads_facts [OF files, of "take MAX_HEADS_PER_ANSWER (shared_with (fy_groups y) p)"]
      have "h \<in> set (take MAX_HEADS_PER_ANSWER (shared_with (fy_groups y) p)) \<Longrightarrow> fsync_shares y p (gh_group h)" for h
        by (auto simp: fsync_shares_def list_ex_iff dest: in_set_takeD)
      with MAsk step assms(2) nh ok show ?thesis
        by (auto simp: fsync_heads_for_def Let_def case_prod_unfold files_count_def MAX_HEADS_PER_ANSWER_def)
    next
      case (MChanges g after)
      show ?thesis
      proof (cases "fsync_shares y p g")
        case True
        then have page: "fsync_page E g after ?y = (resp, y')" using step assms(2) MChanges by simp
        have "files_inv E (fy_files ?y)" using files by simp
        note pf = page_facts [OF this page]
        from pf(3) obtain nxt where "resp = MChangesPage g (List.map_filter (manifest_entry_of E) (take 2048 (later (fy_files y) g after))) nxt
            (has_changes_after (fy_files y) g nxt) (catalogue_digest E (rows_in (fy_files y) g))"
          "later (fy_files y) g nxt = drop 2048 (later (fy_files y) g after)" by auto
        moreover from this(2) have "has_changes_after (fy_files y) g nxt \<longleftrightarrow> 2048 < length (later (fy_files y) g after)"
          by (simp add: has_changes_later [OF files] not_le)
        ultimately show ?thesis using pf(2) True ok MChanges by auto
      qed (use step assms(2) MChanges in auto)
    next
      case (MHoldings g paths)
      have f: "fy_files ?y = fy_files y" by simp
      have "fsync_holdings g paths ?y = fsync_holdings g paths y" by (simp only: fsync_holdings_def f)
      with MHoldings step assms(2) ok show ?thesis by (auto split: if_splits)
    qed
  qed
qed

theorem file_answers_witness:
  "fst (fsync_on_request sample bob MAsk [(bob, Settling)] fresh_sync) = MHeads []"
proof -
  let ?r = "fsync_on_request sample bob MAsk [(bob, Settling)] fresh_sync"
  have none: "\<not> fsync_shares fresh_sync bob g" for g
    by (simp add: fsync_shares_def fresh_sync_def fsync_new_def empty_store_def shared_with_def heads_shared_def)
  obtain heads where heads: "fst ?r = MHeads heads"
    by (simp add: fsync_on_request_def is_admitted_def om_has_def budget_spend_def fresh_sync_def fsync_new_def budget_new_def
        FILE_ANSWERS_PER_TICK_def fsync_heads_for_def Let_def case_prod_unfold)
  then have eq: "?r = (MHeads heads, snd ?r)" by (metis prod.collapse)
  have "\<forall>h \<in> set heads. fsync_shares fresh_sync bob (fh_group h)"
    using file_answers [OF fresh_reach eq] by simp
  then have "set heads = {}" using none by auto
  with heads show ?thesis by simp
qed

lemma dir_of_frame: "fy_inflight (snd (fsync_dir_of g y)) = fy_inflight y"
  "fst (fsync_dir_of g (y\<lparr>fy_inflight := m\<rparr>)) = fst (fsync_dir_of g y)"
  by (simp_all add: fsync_dir_of_def Let_def case_prod_unfold split: option.split sum.split)

lemma merge_entry_frame: "fy_inflight (fold (merge_entry E g dir) es y) = fy_inflight y"
proof (induction es arbitrary: y)
  case (Cons e es)
  have "fy_inflight (merge_entry E g dir e y) = fy_inflight y"
    by (simp add: merge_entry_def Let_def case_prod_unfold split: option.split)
  with Cons show ?case by simp
qed simp

lemma cursor_set: "om_inv (f_sync F) \<Longrightarrow> files_cursor (set_cursor g p c F) g p = i64_clamp c"
  by (simp add: files_cursor_def set_cursor_def om_simps)

lemma length_del_less: "om_has m k \<Longrightarrow> length (om_del k m) < length m"
proof -
  assume "om_has m k"
  then obtain v where "(k, v) \<in> set m" by (auto simp: om_has_def dest: map_of_SomeD)
  then show ?thesis unfolding om_del_def by (rule length_filter_less) simp
qed

lemma read_free:
  assumes "fsync_has_slot y" "map_of (fy_inflight y) (p, g) = None"
  shows "fsync_read clk p g after retried (acts, y) = (acts @ [FetchChangesAct p g after],
     y\<lparr>fy_inflight := om_put (p, g) \<lparr>ff_after = after, ff_retried = retried, ff_deadline = clk (p, g) + REQUEST_TIMEOUT\<rparr> (fy_inflight y)\<rparr>)"
  using assms by (simp add: fsync_read_def om_has_def)

text \<open>C11. What becomes of a read. The answer to an outstanding read of a group that has a directory ends
  it, and one of three things follows: with more to come, the next page is asked for, where this
  one ended; with no more, a digest that is still not ours and no earlier second reading, the log is
  read once more from its start; otherwise the round is settled. The cursor is moved to where the next read
  starts, a second reading is remembered through its pages, so a round reads the log at most twice, and no other
  read is touched. An answer nothing is outstanding for, or from another position, changes nothing.\<close>

theorem read_answered:
  assumes "fsync_reach E me y"
  shows "fsync_dispatch E clk (FChangesEv p g after entries nxt has_more digest) adm y = (acts, y') \<Longrightarrow>
    (case map_of (fy_inflight y) (p, g) of
       None \<Rightarrow> acts = [] \<and> y' = y
     | Some f \<Rightarrow>
         if ff_after f \<noteq> after then acts = [] \<and> y' = y
         else
           let again = (\<not> has_more \<and> catalogue_digest E (rows_in (fy_files y') g) \<noteq> digest \<and> \<not> ff_retried f);
               start = (if has_more then nxt else 0)
           in (\<forall>k. k \<noteq> (p, g) \<longrightarrow> map_of (fy_inflight y') k = map_of (fy_inflight y) k)
             \<and> (fst (fsync_dir_of g y) = None \<longrightarrow> acts = [] \<and> map_of (fy_inflight y') (p, g) = None)
             \<and> (fst (fsync_dir_of g y) \<noteq> None \<longrightarrow>
                 (if has_more \<or> again
                  then acts = [FetchChangesAct p g start] \<and> files_cursor (fy_files y') g p = i64_clamp start
                    \<and> map_of (fy_inflight y') (p, g)
                      = Some \<lparr>ff_after = start, ff_retried = ff_retried f \<or> again, ff_deadline = clk (p, g) + REQUEST_TIMEOUT\<rparr>
                  else acts = [SettledAct p g] \<and> files_cursor (fy_files y') g p = i64_clamp nxt
                    \<and> map_of (fy_inflight y') (p, g) = None)))"
proof -
  assume step: "fsync_dispatch E clk (FChangesEv p g after entries nxt has_more digest) adm y = (acts, y')"
  have inv: "fsync_inv E y" using assms by (rule fsync_reach_inv)
  then have om: "om_inv (fy_inflight y)" by (simp add: fsync_inv_def)
  show ?thesis
  proof (cases "map_of (fy_inflight y) (p, g)")
    case None
    with step show ?thesis by (simp add: fsync_dispatch_def fsync_on_changes_def)
  next
    case (Some f)
    let ?m = "om_del (p, g) (fy_inflight y)"
    let ?y0 = "y\<lparr>fy_inflight := ?m\<rparr>"
    let ?y1 = "snd (fsync_dir_of g ?y0)"
    have y0: "fsync_inv E ?y0" using inv length_om_del [of "(p, g)" "fy_inflight y"]
      by (intro fsync_inv_shorter) (auto simp: fsync_inv_def)
    have m: "map_of ?m (p, g) = None" "\<And>k. k \<noteq> (p, g) \<Longrightarrow> map_of ?m k = map_of (fy_inflight y) k" "om_inv ?m"
      using om by (simp_all add: om_simps)
    have slot: "length ?m < FILE_MAX_INFLIGHT"
      using length_del_less [of "fy_inflight y" "(p, g)"] Some inv by (simp add: om_has_def fsync_inv_def)
    show ?thesis
    proof (cases "ff_after f = after")
      case False
      with Some step show ?thesis by (simp add: fsync_dispatch_def fsync_on_changes_def)
    next
      case after: True
      show ?thesis
      proof (cases "fst (fsync_dir_of g y)")
        case None
        then have "acts = [] \<and> y' = ?y1"
          using Some step after
          by (simp add: fsync_dispatch_def fsync_on_changes_def Let_def case_prod_unfold dir_of_frame(2))
        with Some after None m show ?thesis by (simp add: dir_of_frame(1) Let_def)
      next
        case (Some dir)
        let ?y2 = "fold (merge_entry E g dir) (take MAX_ENTRIES_PER_RESPONSE entries) ?y1"
        let ?y3 = "?y2\<lparr>fy_files := set_cursor g p nxt (fy_files ?y2)\<rparr>"
        let ?y4 = "?y3\<lparr>fy_files := snd (files_digest E g (fy_files ?y3))\<rparr>"
        let ?y5 = "?y4\<lparr>fy_files := set_cursor g p 0 (fy_files ?y4)\<rparr>"
        have y2: "fsync_inv E ?y2" using y0 by (intro fsync_inv_merges fsync_inv_dir_of)
        then have y3: "fsync_inv E ?y3" by (rule fsync_inv_cursor)
        then have F3: "files_inv E (fy_files ?y3)" by (simp only: fsync_inv_def)
        note dg = files_digest_fresh [OF F3, of g]
        have y4: "fsync_inv E ?y4" using y3 by (rule fsync_inv_digest)
        have sync: "om_inv (f_sync (fy_files ?y2))" "om_inv (f_sync (fy_files ?y4))"
          using y2 y4 files_invD(3) unfolding fsync_inv_def by blast+
        have flights: "fy_inflight ?y3 = ?m" "fy_inflight ?y5 = ?m" "fy_inflight ?y4 = ?m"
          by (simp_all add: merge_entry_frame dir_of_frame(1))
        then have slots: "fsync_has_slot ?y3" "fsync_has_slot ?y5" using slot by (simp_all add: fsync_has_slot_def)
        have cur: "files_cursor (fy_files ?y3) g p = i64_clamp nxt" "files_cursor (fy_files ?y5) g p = i64_clamp 0"
          "files_cursor (fy_files ?y4) g p = i64_clamp nxt"
          using sync dg(6) by (simp_all add: cursor_set files_cursor_def [of "snd (files_digest E g F)" for F])
            (simp add: files_cursor_def [symmetric] cursor_set)
        have rows: "rows_in (fy_files ?y4) g = rows_in (fy_files ?y3) g" "rows_in (fy_files ?y5) g = rows_in (fy_files ?y3) g"
          using dg(3) [of g] by (simp_all add: rows_in_def [of "set_cursor g p c F" for c F] set_cursor_def)
            (simp_all add: rows_in_def)
        let ?f = "\<lambda>n r. \<lparr>ff_after = n, ff_retried = r, ff_deadline = clk (p, g) + REQUEST_TIMEOUT\<rparr>"
        have "(acts, y') =
          (if has_more then fsync_read clk p g nxt (ff_retried f) ([], ?y3)
           else if fst (files_digest E g (fy_files ?y3)) \<noteq> digest \<and> \<not> ff_retried f then fsync_read clk p g 0 True ([], ?y5)
           else ([SettledAct p g], ?y4))"
          using step \<open>map_of (fy_inflight y) (p, g) = Some f\<close> after Some
          by (cases has_more; cases "fst (files_digest E g (fy_files ?y3)) = digest"; cases "ff_retried f")
            (simp_all add: fsync_dispatch_def fsync_on_changes_def Let_def case_prod_unfold dir_of_frame(2))
        then have res: "(acts, y') =
          (if has_more then ([FetchChangesAct p g nxt], ?y3\<lparr>fy_inflight := om_put (p, g) (?f nxt (ff_retried f)) ?m\<rparr>)
           else if catalogue_digest E (rows_in (fy_files ?y3) g) \<noteq> digest \<and> \<not> ff_retried f
           then ([FetchChangesAct p g 0], ?y5\<lparr>fy_inflight := om_put (p, g) (?f 0 True) ?m\<rparr>)
           else ([SettledAct p g], ?y4))"
          using m(1) by (simp only: read_free [OF slots(1)] read_free [OF slots(2)] flights dg(1) append_Nil)
        have put: "map_of (om_put (p, g) x ?m) k = (if k = (p, g) then Some x else map_of ?m k)" for x k
          using m(3) by (simp add: om_simps)
        consider (page) has_more | (again) "\<not> has_more" "catalogue_digest E (rows_in (fy_files ?y3) g) \<noteq> digest" "\<not> ff_retried f"
          | (settled) "\<not> has_more" "catalogue_digest E (rows_in (fy_files ?y3) g) = digest \<or> ff_retried f" by blast
        then show ?thesis
        proof cases
          case page
          with res have "acts = [FetchChangesAct p g nxt]"
            "y' = ?y3\<lparr>fy_inflight := om_put (p, g) (?f nxt (ff_retried f)) ?m\<rparr>" by simp_all
          then have "acts = [FetchChangesAct p g nxt]" "files_cursor (fy_files y') g p = i64_clamp nxt"
            "fy_inflight y' = om_put (p, g) (?f nxt (ff_retried f)) ?m" using cur(1) by simp_all
          then show ?thesis using \<open>map_of (fy_inflight y) (p, g) = Some f\<close> after Some page m(2) put by (simp add: Let_def)
        next
          case again
          with res have "acts = [FetchChangesAct p g 0]" "y' = ?y5\<lparr>fy_inflight := om_put (p, g) (?f 0 True) ?m\<rparr>" by simp_all
          then have "acts = [FetchChangesAct p g 0]" "files_cursor (fy_files y') g p = i64_clamp 0"
            "fy_inflight y' = om_put (p, g) (?f 0 True) ?m" "rows_in (fy_files y') g = rows_in (fy_files ?y3) g"
            using cur(2) rows(2) by simp_all
          then show ?thesis using \<open>map_of (fy_inflight y) (p, g) = Some f\<close> after Some again m(2) put by (simp add: Let_def)
        next
          case settled
          with res have "acts = [SettledAct p g]" "y' = ?y4" by auto
          then have "acts = [SettledAct p g]" "files_cursor (fy_files y') g p = i64_clamp nxt"
            "fy_inflight y' = ?m" "rows_in (fy_files y') g = rows_in (fy_files ?y3) g"
            using cur(3) rows(1) flights(3) by simp_all
          then show ?thesis using \<open>map_of (fy_inflight y) (p, g) = Some f\<close> after Some settled m(1,2) by (auto simp: Let_def)
        qed
      qed
    qed
  qed
qed

text \<open>A node that shares a group with bob and has begun to read his log.\<close>

definition both_groups :: groups where
  "both_groups = alice_store\<lparr>t_members := (\<lambda>_. [])(team :=
     [(alice, \<lparr>m_peer = alice, m_username = None, m_is_admin = True\<rparr>), (bob, \<lparr>m_peer = bob, m_username = None, m_is_admin = False\<rparr>)])\<rparr>"

definition both_sync :: file_sync where
  "both_sync = fresh_sync\<lparr>fy_groups := both_groups\<rparr>"

definition other_head :: file_head where
  "other_head = \<lparr>fh_group = team, fh_digest = 0 # fst (files_digest sample team (one_row alice file_a)), fh_count = 1\<rparr>"

definition reading :: file_sync where
  "reading = snd (fsync_on sample (\<lambda>_. 0) (FHeadsEv bob [other_head]) [(bob, Ready)] both_sync)"

lemma reading_reach: "fsync_reach sample alice reading"
  unfolding reading_def both_sync_def by (rule fsync_reach.event [OF fsync_reach.groups [OF fresh_reach]])

lemma both_shares: "fsync_shares both_sync bob team"
  by (simp add: both_sync_def fsync_shares_def shared_with_def heads_shared_def both_groups_def alice_store_def row_of_def
      om_has_def group_head_of_def peer_defs)

lemma both_facts: "fy_files both_sync = one_row alice file_a" "fy_inflight both_sync = []" "fy_deferred both_sync = []"
  "fy_dirs both_sync = []" "fy_groups both_sync = both_groups"
  by (simp_all add: both_sync_def fresh_sync_def fsync_new_def)

lemma reading_eq: "reading = both_sync\<lparr>fy_files := snd (files_digest sample team (one_row alice file_a)),
    fy_inflight := [((bob, team), \<lparr>ff_after = 0, ff_retried = False, ff_deadline = REQUEST_TIMEOUT\<rparr>)]\<rparr>"
proof -
  have inv: "files_inv sample (one_row alice file_a)" by (rule files_reach_inv [OF one_row_reach(1)])
  have "f_sync (snd (files_digest sample team (one_row alice file_a))) = []"
    unfolding files_digest_fresh(6) [OF inv] by (simp add: one_row_eq(1))
  then have cursor: "files_cursor (snd (files_digest sample team (one_row alice file_a))) team bob = 0"
    by (simp add: files_cursor_def)
  have "fst (files_digest sample team (one_row alice file_a)) \<noteq> fh_digest other_head" by (simp add: other_head_def)
  then have "fsync_heads_step sample (\<lambda>_. 0) bob other_head ([], both_sync)
      = ([FetchChangesAct bob team 0], both_sync\<lparr>fy_files := snd (files_digest sample team (one_row alice file_a)),
    fy_inflight := [((bob, team), \<lparr>ff_after = 0, ff_retried = False, ff_deadline = REQUEST_TIMEOUT\<rparr>)]\<rparr>)"
    using both_shares cursor
    by (simp add: fsync_heads_step_def other_head_def Let_def case_prod_unfold both_facts fsync_read_def om_has_def
        fsync_has_slot_def FILE_MAX_INFLIGHT_def)
  then show ?thesis
    by (simp add: reading_def fsync_on_def fsync_dispatch_def is_ready_def fsync_on_heads_def MAX_HEADS_PER_ANSWER_def
        fsync_drain.simps both_facts)
qed

theorem read_answered_witness:
  "fst (fsync_dispatch sample (\<lambda>_. 0) (FChangesEv bob team 0 [] 7 True []) [(bob, Ready)] reading)
     = [FetchChangesAct bob team 7]"
proof -
  obtain acts y' where step: "fsync_dispatch sample (\<lambda>_. 0) (FChangesEv bob team 0 [] 7 True []) [(bob, Ready)] reading = (acts, y')"
    by (metis surj_pair)
  have flight: "map_of (fy_inflight reading) (bob, team) = Some \<lparr>ff_after = 0, ff_retried = False, ff_deadline = REQUEST_TIMEOUT\<rparr>"
    by (simp add: reading_eq)
  have inv: "files_inv sample (one_row alice file_a)" by (rule files_reach_inv [OF one_row_reach(1)])
  have roots: "f_roots (fy_files reading) = []"
    using files_digest_fresh(5) [OF inv, of team] by (simp add: reading_eq) (simp add: one_row_eq(1))
  have plain: "plain_text ''team''" by (simp add: plain_text_def is_ascii_upper_def code_def)
  have "replace_unsafe ''team'' = ''team''" by (simp add: code_def)
  then have "sanitize ''team'' = Some ''team''"
    by (simp add: sanitize_def trim_edges.simps trim_plain [OF plain] trim_dots_def MAX_DIRNAME_def)
  then have "fst (files_dir_for team ''team'' (fy_files reading)) = Inr ''team''"
    by (simp add: files_dir_for_def roots dir_search.simps dir_taken_def Let_def)
  moreover have "fy_dirs reading = []" "store_get (fy_groups reading) team = store_get alice_store team"
    by (simp_all add: reading_eq both_facts both_groups_def store_get_def)
  ultimately have "fst (fsync_dir_of team reading) = Some ''team''"
    by (simp add: fsync_dir_of_def alice_facts(2) row_of_def case_prod_unfold Let_def)
  with read_answered [OF reading_reach step] flight step show ?thesis by (simp add: Let_def)
qed

end
