(* ===== verification/Spec2Isabelle.thy ===== *)
theory Spec2Isabelle
  imports FileSyncClaims FileRowTheorems
begin

text \<open>
  A model of p2parchiver, a program that keeps the files of a group of people on all their machines
  without a server, and the properties that make its group layer and file layer correct. Paths
  below are relative to \<open>crates/\<close>.

  The program. A \<open>group\<close> is an append-only log of entries signed by its admin (\<open>ac-groups/chain.rs\<close>);
  its fold is the member set (\<open>members.rs\<close>). Each member says in signed \<open>standings\<close> (\<open>standing.rs\<close>)
  whether it is in, and under what name. \<open>Groups\<close> (\<open>store.rs\<close>) keeps chains, standings and caches in four tables;
  \<open>GroupSync\<close> (\<open>ac-groups/sync.rs\<close>) exchanges heads, entries and standings with peers. A group's files
  are rows of a catalogue (\<open>ac-files/store/row.rs\<close>) in \<open>Files\<close> (\<open>store/mod.rs\<close>, \<open>store/log.rs\<close>), with
  the content in a directory per group (\<open>content.rs\<close>); \<open>FileSync\<close> (\<open>ac-files/sync.rs\<close>) reads the change logs of
  peers and merges what comes back. Both machines consult who is admitted and an answer budget (\<open>ac-net\<close>).

  The theories and the code they model:
  \<^item> \<open>Prelude\<close>: results and errors, ordered maps (\<open>BTreeMap\<close>, and a table under its primary key), named
    collections. \<open>Text\<close>, \<open>Hex\<close>: UTF-8 as a list of bytes, big-endian integers, hex.
  \<^item> \<open>GroupTypes\<close> (\<open>id.rs\<close>, \<open>chain.rs\<close>, \<open>standing.rs\<close>, \<open>wire.rs\<close>): identifiers, entries, messages, and the
    record \<open>env\<close> of everything outside the repository: SHA-256, ed25519, CBOR, base58.
  \<^item> \<open>Chain\<close> (\<open>chain.rs\<close>), \<open>Username\<close> (\<open>ac-net/attest.rs\<close>), \<open>Standing\<close>, \<open>Members\<close>; \<open>GroupStore\<close> and
    \<open>GroupOps\<close> (\<open>store.rs\<close>), where \<open>put\<close> and \<open>author\<close> keep their two phases, a read and a transaction, so
    that another process may write between them. \<open>Merge\<close>, \<open>Exchange\<close>: the lattice of standings.
  \<^item> \<open>Admitted\<close> (\<open>ac-net/admitted_peers.rs\<close>, \<open>budget.rs\<close>), \<open>GroupSync\<close> (\<open>ac-groups/sync.rs\<close>).
  \<^item> \<open>Paths\<close> (\<open>ac-files/path.rs\<close>, \<open>dirname.rs\<close>), with \<open>PathBuf::push\<close> on Unix and on Windows, \<open>FileRows\<close> (\<open>store/row.rs\<close>, \<open>wire.rs\<close>), \<open>FileSystem\<close> (what is
    used of \<open>std::fs\<close>, and \<open>content.rs\<close>), \<open>FileLog\<close> (\<open>store/log.rs\<close>), \<open>FileStore\<close> (\<open>store/mod.rs\<close>; a transaction is
    a function on tables and file system that gives back the tables when it fails and not what
    was done on disk), \<open>FileSync\<close> (\<open>ac-files/sync.rs\<close>).

  What is shown:
  \<^item> \<open>ChainProps\<close>, \<open>ChainTheorems\<close>: \<open>load\<close> accepts exactly the histories that obey declarative rules;
    \<open>departure_seq\<close>; the head determines the history; batches; what the admin authors is accepted.
  \<^item> \<open>GroupProps\<close>, \<open>StoreInv\<close>, \<open>StoreSteps\<close>, \<open>StoreTheorems\<close>: the store is consistent after any calls;
    \<open>put\<close> is all or nothing, idempotent, independent of the order of standings, and it and \<open>author\<close> move
    the head by compare-and-swap; what \<open>serve\<close>
    discloses; an exchange converges; digests; two defects.
  \<^item> \<open>GroupSyncProps\<close>, \<open>GroupSyncTheorems\<close>, \<open>GroupSyncClaims\<close>: bounded resources, what an event fetches,
    what is dropped, consent, and a full round between two nodes. The answers a peer is given are counted along
    the run (\<open>sync_run\<close>, \<open>fsync_run\<close>), not read off the budget's own counter.
  \<^item> \<open>PathTheorems\<close>, \<open>FileRowTheorems\<close>: which paths are accepted, and when they stay inside their directory: always
    on Unix, not always on Windows; derived and directory names; round trips of rows, wire entries and the holdings
    bitmap.
  \<^item> \<open>FileProps\<close>: the invariant of the file index. \<open>FileCatalogue\<close>: what the index promises, a \<open>catalogue\<close> with an abstract
    \<open>cat_merge\<close>, which \<open>FileTheorems\<close> shows the code's merge to refine. \<open>FileMerge\<close>: two nodes agree,
    content survives, each under stated conditions. \<open>FileQuiet\<close>: the runs of calls that leave a removal alone, and which
    rows a call touches. \<open>FileLosses\<close>: where content and removals are lost after all, and when a removal
    holds. \<open>FileLogTheorems\<close>: digests, reading the log to its end, directories. \<open>FileSyncClaims\<close>: bounds,
    answers, and what becomes of a read.

  Conventions. A record of the source is a record, an enum a datatype, an error a value of a sum type. Texts are the
  bytes of their UTF-8. Sequence numbers in signed messages are 64-bit words; counters
  the code only ever increases by one from 0 are \<open>nat\<close>, with the places where it converts to \<open>i64\<close> checked.
  Times are \<open>int\<close>. Clock readings and random bytes are arguments. Where a theorem needs SHA-256 to be injective
  or the encodings to be inverse to each other, it says so; \<open>Sample\<close> has an \<open>env\<close> that satisfies this
  and a small history on which the witnesses run. The one recursion with fuel is the log reader of
  \<open>FileLogTheorems\<close>, and one more page than there are rows is shown to be enough.

  Not modelled: failures of SQLite itself, log output, and rows that do not parse because something else wrote the
  database. The disk of the model is a Unix one without failures of the device. Of \<open>content.rs\<close>: staging, resuming and sweeping downloads, and walking the tree; \<open>blob.rs\<close>, which
  streams bytes. Of \<open>ac-net\<close>: libp2p behaviours and streams, keys, invitations. \<open>ac-supervisor\<close> and the ledger of
  \<open>ac-import\<close> are next; the sources of \<open>ac-import\<close>, \<open>ac-node\<close>, \<open>ac-server\<close> and \<open>ac-desktop\<close> are glue
  around services and a user interface.
\<close>

end
